(* ===== verification/Carlo_Prelude.thy ===== *)
theory Carlo_Prelude
  imports Main "HOL-Library.Word"
begin

text \<open>
  Shared vocabulary of the development: bytes and Go strings (a Go string is a byte
  sequence), the machine words the code uses, Go's error values with their wrapping
  chains, the three ways a Go call can end, and the big-endian codecs of
  \<^verbatim>\<open>encoding/binary\<close>. The generic lemmas on lists and words that the component
  theories use are proved here once and put into the simpset or into one of the
  collections \<open>go_result\<close> and \<open>be_codec\<close>.
\<close>

unbundle bit_operations_syntax

named_theorems go_result \<open>case analysis on the outcome of a call\<close>
named_theorems be_codec \<open>evaluation of the big-endian codecs\<close>

section \<open>Bytes, strings and words\<close>

type_synonym byte = "8 word"
type_synonym bytes = "byte list"
type_synonym gostring = bytes
type_synonym u8 = "8 word"
type_synonym u16 = "16 word"
type_synonym u32 = "32 word"
type_synonym u64 = "64 word"

section \<open>Errors and outcomes\<close>

text \<open>
  The sentinel errors the code tests for, errors made by \<^verbatim>\<open>errors.New\<close>, by
  \<^verbatim>\<open>fmt.Errorf\<close> without and with a \<^verbatim>\<open>%w\<close> verb (the last argument of \<open>Wrapf\<close> is
  the wrapped error), and \<^verbatim>\<open>*net.OpError\<close> with the text of its inner error and its
  \<^verbatim>\<open>Temporary()\<close> flag.
\<close>

datatype goerr =
    EOF
  | ErrUnexpectedEOF
  | ErrShortWrite
  | ErrClosedPipe
  | ErrNew string
  | Errorf string "fmtarg list"
  | Wrapf string "fmtarg list" goerr
  | NetOpError string bool
  | EnvErr nat
and fmtarg = ArgNat nat | ArgStr gostring | ArgStrs "gostring list" | ArgErr goerr

text \<open>\<^verbatim>\<open>errors.Is\<close>: the error or one it wraps equals the target.\<close>

fun errors_Is :: "goerr \<Rightarrow> goerr \<Rightarrow> bool" where
  "errors_Is (Wrapf f as e) t = (Wrapf f as e = t \<or> errors_Is e t)"
| "errors_Is e t = (e = t)"

text \<open>\<^verbatim>\<open>errors.As(err, *net.OpError)\<close>: the first \<open>NetOpError\<close> on the wrapping chain.\<close>

fun errors_As_OpError :: "goerr \<Rightarrow> (string \<times> bool) option" where
  "errors_As_OpError (Wrapf f as e) = errors_As_OpError e"
| "errors_As_OpError (NetOpError m t) = Some (m, t)"
| "errors_As_OpError e = None"

lemma errors_Is_refl [simp]: "errors_Is e e"
  by (cases e) auto

lemma errors_Is_Wrapf_EOF [simp]: "errors_Is (Wrapf f as e) EOF = errors_Is e EOF"
  by simp

text \<open>
  The end of a call: it returns a value, returns an error, or panics. Where Go returns a
  value beside an error, the model keeps the error only; no caller in the repository
  reads such a value.
\<close>

datatype 'a result = Ok 'a | Err goerr | Panic string

lemmas result_cases [go_result] = result.splits

definition is_panic :: "'a result \<Rightarrow> bool" where
  "is_panic r = (case r of Panic _ \<Rightarrow> True | _ \<Rightarrow> False)"

lemma is_panic_simps [simp]:
  "\<not> is_panic (Ok x)" "\<not> is_panic (Err e)" "is_panic (Panic m)"
  by (simp_all add: is_panic_def)

section \<open>Lists\<close>

text \<open>Overwrite of a slice from an index on, as \<^verbatim>\<open>copy(xs[i:], ys)\<close> where it fits.\<close>

definition overlay :: "'a list \<Rightarrow> nat \<Rightarrow> 'a list \<Rightarrow> 'a list" where
  "overlay xs i ys = take i xs @ ys @ drop (i + length ys) xs"

lemma length_overlay [simp]:
  "i + length ys \<le> length xs \<Longrightarrow> length (overlay xs i ys) = length xs"
  by (simp add: overlay_def)

lemma overlay_tail:
  "i \<le> length xs \<Longrightarrow> i + length ys = length xs \<Longrightarrow> overlay xs i ys = take i xs @ ys"
  by (simp add: overlay_def)

lemma overlay_all [simp]: "length ys = length xs \<Longrightarrow> overlay xs 0 ys = ys"
  by (simp add: overlay_def)

lemma take_overlay [simp]: "n \<le> i \<Longrightarrow> i \<le> length xs \<Longrightarrow> take n (overlay xs i ys) = take n xs"
  by (simp add: overlay_def min_def)

lemma drop_overlay [simp]:
  "i \<le> length xs \<Longrightarrow> i + length ys = length xs \<Longrightarrow> drop i (overlay xs i ys) = ys"
  by (simp add: overlay_def)

lemma take_append_exact [simp]: "length xs = n \<Longrightarrow> take n (xs @ ys) = xs"
  by simp

lemma drop_append_exact [simp]: "length xs = n \<Longrightarrow> drop n (xs @ ys) = ys"
  by simp

section \<open>Big-endian codecs of encoding/binary\<close>

definition be_put16 :: "u16 \<Rightarrow> bytes" where
  "be_put16 w = [ucast (drop_bit 8 w), ucast w]"

definition be_put32 :: "u32 \<Rightarrow> bytes" where
  "be_put32 w = [ucast (drop_bit 24 w), ucast (drop_bit 16 w), ucast (drop_bit 8 w), ucast w]"

definition be_put64 :: "u64 \<Rightarrow> bytes" where
  "be_put64 w = [ucast (drop_bit 56 w), ucast (drop_bit 48 w), ucast (drop_bit 40 w),
     ucast (drop_bit 32 w), ucast (drop_bit 24 w), ucast (drop_bit 16 w),
     ucast (drop_bit 8 w), ucast w]"

fun be_get16 :: "bytes \<Rightarrow> u16" where
  "be_get16 (a # b # _) = push_bit 8 (ucast a) OR ucast b"
| "be_get16 _ = 0"

fun be_get32 :: "bytes \<Rightarrow> u32" where
  "be_get32 (a # b # c # d # _) =
     push_bit 24 (ucast a) OR push_bit 16 (ucast b) OR push_bit 8 (ucast c) OR ucast d"
| "be_get32 _ = 0"

fun be_get64 :: "bytes \<Rightarrow> u64" where
  "be_get64 (a # b # c # d # e # f # g # h # _) =
     push_bit 56 (ucast a) OR push_bit 48 (ucast b) OR push_bit 40 (ucast c)
       OR push_bit 32 (ucast d) OR push_bit 24 (ucast e) OR push_bit 16 (ucast f)
       OR push_bit 8 (ucast g) OR ucast h"
| "be_get64 _ = 0"

lemma length_be_put [simp]:
  "length (be_put16 v) = 2" "length (be_put32 w) = 4" "length (be_put64 x) = 8"
  by (simp_all add: be_put16_def be_put32_def be_put64_def)

lemma be_put_not_Nil [simp]: "be_put16 v \<noteq> []" "be_put32 w \<noteq> []" "be_put64 x \<noteq> []"
  by (simp_all add: be_put16_def be_put32_def be_put64_def)

text \<open>
  Decoding rebuilds the word byte by byte from the low end: each byte extends the part
  already known by eight bits.
\<close>

lemma byte_low: "ucast (ucast (w :: 'a::len word) :: byte) = (take_bit 8 w :: 'a word)"
  by (rule bit_word_eqI) (auto simp: bit_simps)

lemma byte_step:
  "push_bit k (take_bit 8 (drop_bit k w)) OR take_bit k w =
     (take_bit (8 + k) w :: 'a::len word)"
proof (rule bit_word_eqI)
  fix n
  show "bit (push_bit k (take_bit 8 (drop_bit k w)) OR take_bit k w) n =
      bit (take_bit (8 + k) w) n" if "n < LENGTH('a)"
    using that by (cases "n < k") (auto simp: bit_simps)
qed

lemmas byte_steps = byte_low byte_step [where k = 8, simplified]
  byte_step [where k = 16, simplified] byte_step [where k = 24, simplified]
  byte_step [where k = 32, simplified] byte_step [where k = 40, simplified]
  byte_step [where k = 48, simplified] byte_step [where k = 56, simplified]

lemma be_get_put16 [simp, be_codec]: "be_get16 (be_put16 w @ xs) = w"
  by (simp add: be_put16_def byte_steps take_bit_word_eq_self)

lemma be_get_put32 [simp, be_codec]: "be_get32 (be_put32 w @ xs) = w"
  by (simp add: be_put32_def byte_steps take_bit_word_eq_self)

lemma be_get_put64 [simp, be_codec]: "be_get64 (be_put64 w @ xs) = w"
  by (simp add: be_put64_def byte_steps take_bit_word_eq_self)

lemmas be_get_put_Nil [simp] =
  be_get_put16 [where xs = "[]", simplified]
  be_get_put32 [where xs = "[]", simplified]
  be_get_put64 [where xs = "[]", simplified]

lemma be_put16_inj [simp]: "be_put16 v = be_put16 w \<longleftrightarrow> v = w"
  by (metis be_get_put_Nil(1))

lemma be_put32_inj [simp]: "be_put32 v = be_put32 w \<longleftrightarrow> v = w"
  by (metis be_get_put_Nil(2))

lemma be_put64_inj [simp]: "be_put64 v = be_put64 w \<longleftrightarrow> v = w"
  by (metis be_get_put_Nil(3))

section \<open>Lengths cut to a machine width\<close>

text \<open>\<^verbatim>\<open>uint8(len(x))\<close>, \<^verbatim>\<open>uint16(len(x))\<close> and \<^verbatim>\<open>uint32(len(x))\<close> wrap around.\<close>

abbreviation len8 :: "'a list \<Rightarrow> u8" where "len8 xs \<equiv> of_nat (length xs)"
abbreviation len16 :: "'a list \<Rightarrow> u16" where "len16 xs \<equiv> of_nat (length xs)"
abbreviation len32 :: "'a list \<Rightarrow> u32" where "len32 xs \<equiv> of_nat (length xs)"

lemma unat_len8: "length xs < 256 \<Longrightarrow> unat (len8 xs) = length xs"
  by (simp add: unat_of_nat)

lemma unat_len16: "length xs < 65536 \<Longrightarrow> unat (len16 xs) = length xs"
  by (simp add: unat_of_nat)

lemma unat_len32: "length xs < 4294967296 \<Longrightarrow> unat (len32 xs) = length xs"
  by (simp add: unat_of_nat)

lemma unat_u8_less [simp]: "unat (w :: u8) < 256"
  using unsigned_less [of w] by simp

lemma unat_u16_less [simp]: "unat (w :: u16) < 65536"
  using unsigned_less [of w] by simp

lemma unat_u32_less [simp]: "unat (w :: u32) < 4294967296"
  using unsigned_less [of w] by simp

section \<open>Counting in 32 bits\<close>

lemma u32_of_nat_inj:
  "m < 4294967296 \<Longrightarrow> n < 4294967296 \<Longrightarrow> (of_nat m :: u32) = of_nat n \<longleftrightarrow> m = n"
  using take_bit_nat_eq_self [of m 32] take_bit_nat_eq_self [of n 32]
  by (simp add: word_of_nat_eq_iff)

lemma u32_parity: "(of_nat m :: u32) = of_nat n \<Longrightarrow> even m \<longleftrightarrow> even n"
proof -
  assume "(of_nat m :: u32) = of_nat n"
  then have "even (take_bit 32 m) \<longleftrightarrow> even (take_bit 32 n)" by (simp add: word_of_nat_eq_iff)
  then show ?thesis by (simp add: even_take_bit_eq)
qed

lemma odd_not_0: "odd n \<Longrightarrow> (of_nat n :: u32) \<noteq> 0"
  using u32_parity [of n 0] by auto

end
