(* ===== verification/Bytesutil.thy ===== *)
theory Bytesutil
  imports Carlo_Prelude
begin

text \<open>
  The functions of the package \<^verbatim>\<open>github.com/lithdew/bytesutil\<close> that carlo calls. The
  package is not part of the repository, so its functions are a parameter of the model: a
  record of functions that every definition using them takes as its first argument. What
  carlo relies on is the locale \<open>bytesutil_spec\<close>:
  \<^item> \<^verbatim>\<open>ExtendSlice(b, n)\<close> has length \<open>n\<close> and keeps the bytes of \<open>b\<close> that fit; the
    bytes past the old length are whatever the backing array holds;
  \<^item> \<^verbatim>\<open>AppendUint16BE\<close>, \<^verbatim>\<open>AppendUint32BE\<close>, \<^verbatim>\<open>Uint16BE\<close> and \<^verbatim>\<open>Uint32BE\<close> are the
    big-endian codecs.
  The client lemmas are proved in the locale, and the locale is interpreted for backing
  arrays that hold an arbitrary byte.
\<close>

record bytesutil =
  ExtendSlice :: "bytes \<Rightarrow> nat \<Rightarrow> bytes"
  AppendUint16BE :: "bytes \<Rightarrow> u16 \<Rightarrow> bytes"
  AppendUint32BE :: "bytes \<Rightarrow> u32 \<Rightarrow> bytes"
  Uint16BE :: "bytes \<Rightarrow> u16"
  Uint32BE :: "bytes \<Rightarrow> u32"

locale bytesutil_spec =
  fixes bu :: bytesutil
  assumes length_ExtendSlice: "length (ExtendSlice bu b n) = n"
    and take_ExtendSlice: "take (length b) (ExtendSlice bu b n) = take n b"
    and AppendUint16BE: "AppendUint16BE bu b v = b @ be_put16 v"
    and AppendUint32BE: "AppendUint32BE bu b w = b @ be_put32 w"
    and Uint16BE: "2 \<le> length b \<Longrightarrow> Uint16BE bu b = be_get16 b"
    and Uint32BE: "4 \<le> length b \<Longrightarrow> Uint32BE bu b = be_get32 b"
begin

lemma overlay_extend_tail:
  "length ys = k \<Longrightarrow> overlay (ExtendSlice bu b (length b + k)) (length b) ys = b @ ys"
  using take_ExtendSlice [of b "length b + k"]
  by (simp add: overlay_tail length_ExtendSlice)

lemma Uint32BE_put [simp]: "Uint32BE bu (be_put32 w @ xs) = w"
  by (simp add: Uint32BE)

lemma Uint16BE_put [simp]: "Uint16BE bu (be_put16 w @ xs) = w"
  by (simp add: Uint16BE)

lemma Uint32BE_put_Nil [simp]: "Uint32BE bu (be_put32 w) = w"
  using Uint32BE_put [where xs = "[]"] by simp

lemma Uint16BE_put_Nil [simp]: "Uint16BE bu (be_put16 w) = w"
  using Uint16BE_put [where xs = "[]"] by simp

end

text \<open>
  The functions over a backing array whose unused part holds the byte \<open>j\<close>.
\<close>

definition bytesutil_model :: "byte \<Rightarrow> bytesutil" where
  "bytesutil_model j = \<lparr>
     ExtendSlice = (\<lambda>b n. take n (b @ replicate (n - length b) j)),
     AppendUint16BE = (\<lambda>b v. b @ be_put16 v),
     AppendUint32BE = (\<lambda>b w. b @ be_put32 w),
     Uint16BE = be_get16,
     Uint32BE = be_get32 \<rparr>"

interpretation bm: bytesutil_spec "bytesutil_model j" for j
  by unfold_locales (auto simp: bytesutil_model_def min_def)

end
