(* ===== verification/Transmit_IO.thy ===== *)
theory Transmit_IO
  imports Bytesutil
begin

text \<open>
  \<^verbatim>\<open>streaming_transmit/io.go\<close>: exact reads and writes, the length-prefixed frames of
  \<^verbatim>\<open>ReadSized\<close> and \<^verbatim>\<open>WriteSized\<close>, and \<^verbatim>\<open>IsEOF\<close>. A reader is the sequence of bytes it
  will still deliver and the error it reports afterwards. A writer is an \<^verbatim>\<open>io.Writer\<close>: its
  \<^verbatim>\<open>Write\<close> method is an argument, and the documented contract of the interface is the
  locale \<open>io_writer\<close>. The standard library writers the code uses, a network connection and
  \<^verbatim>\<open>bufio.Writer\<close> on top of one, are modelled and interpret the locale.
\<close>

section \<open>Readers\<close>

record reader =
  r_avail :: bytes
  r_err :: goerr

text \<open>\<^verbatim>\<open>io.ReadFull(r, buf)\<close> with \<open>n = len(buf)\<close>.\<close>

definition ReadFull :: "reader \<Rightarrow> nat \<Rightarrow> (goerr + bytes) \<times> reader" where
  "ReadFull r n =
     (if n \<le> length (r_avail r)
      then (Inr (take n (r_avail r)), r\<lparr>r_avail := drop n (r_avail r)\<rparr>)
      else (Inl (if r_avail r \<noteq> [] \<and> r_err r = EOF then ErrUnexpectedEOF else r_err r),
            r\<lparr>r_avail := []\<rparr>))"

text \<open>\<^verbatim>\<open>Read(dst, r)\<close>.\<close>

definition Read :: "bytes \<Rightarrow> reader \<Rightarrow> (goerr + bytes) \<times> reader" where
  "Read dst r =
     (case ReadFull r (length dst) of
        (Inr d, r') \<Rightarrow> (Inr d, r')
      | (Inl e, r') \<Rightarrow> (Inl e, r'))"

text \<open>\<^verbatim>\<open>ReadSized(dst, r, max)\<close>; \<^verbatim>\<open>int\<close> is 64 bits wide, so \<^verbatim>\<open>int(n)\<close> is exact.\<close>

definition ReadSized :: "bytesutil \<Rightarrow> bytes \<Rightarrow> reader \<Rightarrow> nat \<Rightarrow> (goerr + bytes) \<times> reader" where
  "ReadSized bu dst r maxn =
     (let dst = ExtendSlice bu dst 4 in
      case ReadFull r (length dst) of
        (Inr dst, r) \<Rightarrow>
          (let n = Uint32BE bu dst in
           if unat n > maxn
           then (Inl (Errorf ''max is %d bytes, got %d bytes'' [ArgNat maxn, ArgNat (unat n)]), r)
           else
             (let dst = ExtendSlice bu dst (unat n) in
              case ReadFull r (length dst) of
                (Inr dst, r) \<Rightarrow> (Inr dst, r)
              | (Inl e, r) \<Rightarrow> (Inl e, r)))
      | (Inl e, r) \<Rightarrow> (Inl e, r))"

section \<open>Writers\<close>

type_synonym 'w write_op = "'w \<Rightarrow> bytes \<Rightarrow> 'w \<times> nat \<times> goerr option"

text \<open>\<^verbatim>\<open>Write(w, buf)\<close>: a short count wins over the writer's own error.\<close>

definition Write :: "'w write_op \<Rightarrow> 'w \<Rightarrow> bytes \<Rightarrow> 'w \<times> goerr option" where
  "Write wr w buf =
     (case wr w buf of (w', n, err) \<Rightarrow>
        if n \<noteq> length buf then (w', Some ErrShortWrite) else (w', err))"

text \<open>
  \<^verbatim>\<open>WriteSized(w, buf)\<close>: the length is written into the four bytes behind the payload and
  sent first.
\<close>

definition WriteSized :: "bytesutil \<Rightarrow> 'w write_op \<Rightarrow> 'w \<Rightarrow> bytes \<Rightarrow> 'w \<times> goerr option" where
  "WriteSized bu wr w buf =
     (let buf = ExtendSlice bu buf (length buf + 4);
          m = length buf - 4;
          buf = overlay buf m (be_put32 (len32 buf - 4)) in
      case wr w (drop m buf) of
        (w, _, Some err) \<Rightarrow> (w, Some err)
      | (w, _, None) \<Rightarrow>
          (case wr w (take m buf) of (w, _, err) \<Rightarrow> (w, err)))"

text \<open>\<^verbatim>\<open>IsEOF(err)\<close>.\<close>

definition IsEOF :: "goerr \<Rightarrow> bool" where
  "IsEOF err =
     (if errors_Is err EOF then True
      else case errors_As_OpError err of
             None \<Rightarrow> False
           | Some (msg, _) \<Rightarrow> msg = ''use of closed network connection'')"

section \<open>The contract of io.Writer\<close>

text \<open>The bytes a frame puts on the wire.\<close>

definition frame :: "bytes \<Rightarrow> bytes" where
  "frame buf = be_put32 (len32 buf) @ buf"

lemma length_frame [simp]: "length (frame buf) = 4 + length buf"
  by (simp add: frame_def)

lemma frame_Nil_iff [simp]: "frame buf \<noteq> []"
  by (simp add: frame_def)

locale io_writer =
  fixes wr :: "'w write_op" and accepted :: "'w \<Rightarrow> bytes"
  assumes count: "wr w b = (w', n, err) \<Longrightarrow> n \<le> length b"
    and accepts: "wr w b = (w', n, err) \<Longrightarrow> accepted w' = accepted w @ take n b"
    and short: "wr w b = (w', n, err) \<Longrightarrow> n < length b \<Longrightarrow> err \<noteq> None"
begin

lemma complete: "wr w b = (w', n, None) \<Longrightarrow> n = length b \<and> accepted w' = accepted w @ b"
  using count [of w b w' n None] accepts [of w b w' n None] short [of w b w' n None]
  by (cases "n < length b") auto

lemma Write_ok: "Write wr w buf = (w', None) \<Longrightarrow> accepted w' = accepted w @ buf"
  by (auto simp: Write_def dest: complete split: prod.splits if_splits)

lemma WriteSized_unfold:
  assumes "bytesutil_spec bu"
  shows "WriteSized bu wr w buf =
    (case wr w (be_put32 (len32 buf)) of
       (w, _, Some err) \<Rightarrow> (w, Some err)
     | (w, _, None) \<Rightarrow> (case wr w buf of (w, _, err) \<Rightarrow> (w, err)))"
  using bytesutil_spec.length_ExtendSlice [OF assms]
    bytesutil_spec.take_ExtendSlice [OF assms, of buf "length buf + 4"]
    bytesutil_spec.overlay_extend_tail [OF assms, of "be_put32 (len32 buf)" 4 buf]
  by (simp add: WriteSized_def Let_def)

lemma WriteSized_ok:
  assumes "bytesutil_spec bu" and "WriteSized bu wr w buf = (w', None)"
  shows "accepted w' = accepted w @ frame buf"
  using assms(2)
  by (auto simp: WriteSized_unfold [OF assms(1)] frame_def dest!: complete
      split: prod.splits option.splits)

end

section \<open>A network connection and bufio.Writer\<close>

text \<open>
  The writing half of a \<^verbatim>\<open>net.Conn\<close>: what was sent, how many bytes it will still take
  (\<open>None\<close>: no limit) and the error it reports then.
\<close>

record netw =
  nw_sent :: bytes
  nw_room :: "nat option"
  nw_fail :: goerr

definition netw_write :: "netw write_op" where
  "netw_write c b =
     (case nw_room c of
        None \<Rightarrow> (c\<lparr>nw_sent := nw_sent c @ b\<rparr>, length b, None)
      | Some k \<Rightarrow>
          if length b \<le> k
          then (c\<lparr>nw_sent := nw_sent c @ b, nw_room := Some (k - length b)\<rparr>, length b, None)
          else (c\<lparr>nw_sent := nw_sent c @ take k b, nw_room := Some 0\<rparr>, k, Some (nw_fail c)))"

interpretation nw: io_writer netw_write nw_sent
  by unfold_locales (auto simp: netw_write_def split: option.splits if_splits)

text \<open>\<^verbatim>\<open>bufio.Writer\<close>: buffer size, buffered bytes, sticky error, underlying writer.\<close>

record bufw =
  bw_size :: nat
  bw_buf :: bytes
  bw_err :: "goerr option"
  bw_wr :: netw

definition bufio_NewWriter :: "netw \<Rightarrow> bufw" where
  "bufio_NewWriter c = \<lparr>bw_size = 4096, bw_buf = [], bw_err = None, bw_wr = c\<rparr>"

definition bw_flush :: "bufw \<Rightarrow> bufw \<times> goerr option" where
  "bw_flush b =
     (if bw_err b \<noteq> None then (b, bw_err b)
      else if bw_buf b = [] then (b, None)
      else case netw_write (bw_wr b) (bw_buf b) of (c, n, err) \<Rightarrow>
        (let err = (if n < length (bw_buf b) \<and> err = None then Some ErrShortWrite else err) in
         if err \<noteq> None
         then (b\<lparr>bw_buf := drop n (bw_buf b), bw_err := err, bw_wr := c\<rparr>, err)
         else (b\<lparr>bw_buf := [], bw_wr := c\<rparr>, None)))"

text \<open>
  The loop of \<^verbatim>\<open>(*bufio.Writer).Write\<close>: while the rest does not fit the buffer, write it
  through (empty buffer) or fill the buffer and flush.
\<close>

definition bw_avail :: "bufw \<Rightarrow> nat" where
  "bw_avail b = bw_size b - length (bw_buf b)"

lemma netw_write_complete: "netw_write c p = (c', n, None) \<Longrightarrow> n = length p"
  by (drule nw.complete) simp

lemma bw_flush_empties:
  "bw_err (fst (bw_flush b)) = None \<Longrightarrow> bw_buf (fst (bw_flush b)) = []"
  by (auto simp: bw_flush_def Let_def split: if_splits prod.splits)

function bw_loop :: "bufw \<Rightarrow> bytes \<Rightarrow> nat \<Rightarrow> bufw \<times> bytes \<times> nat" where
  "bw_loop b p nn =
     (if length p > bw_avail b \<and> bw_err b = None
      then if bw_buf b = []
           then case netw_write (bw_wr b) p of (c, n, err) \<Rightarrow>
             bw_loop (b\<lparr>bw_wr := c, bw_err := err\<rparr>) (drop n p) (nn + n)
           else (let n = bw_avail b;
                     b1 = fst (bw_flush (b\<lparr>bw_buf := bw_buf b @ take n p\<rparr>)) in
                 bw_loop b1 (drop n p) (nn + n))
      else (b, p, nn))"
  by pat_completeness auto
termination
proof (relation "measures [\<lambda>(b, p, nn). if bw_err b = None then length p + 1 else 0,
      \<lambda>(b, p, nn). length (bw_buf b)]", goal_cases)
  case 1
  then show ?case by simp
next
  case (2 b p nn)
  then show ?case by (auto dest!: sym [of "(_, _)"] netw_write_complete)
next
  case (3 b p nn n b1)
  then show ?case by (auto simp: bw_flush_empties)
qed

declare bw_loop.simps [simp del]

definition bw_write :: "bufw write_op" where
  "bw_write b p =
     (case bw_loop b p 0 of (b, p, nn) \<Rightarrow>
        if bw_err b \<noteq> None then (b, nn, bw_err b)
        else (b\<lparr>bw_buf := bw_buf b @ p\<rparr>, nn + length p, None))"

text \<open>What the writer has accepted: the bytes sent and the bytes still buffered.\<close>

definition bw_accepted :: "bufw \<Rightarrow> bytes" where
  "bw_accepted b = nw_sent (bw_wr b) @ bw_buf b"

lemma bw_flush_accepted: "bw_accepted (fst (bw_flush b)) = bw_accepted b"
  by (auto simp: bw_flush_def bw_accepted_def Let_def dest: nw.accepts split: prod.splits)

lemma bw_flush_sent: "bw_flush b = (b', None) \<Longrightarrow> nw_sent (bw_wr b') = bw_accepted b"
  using bw_flush_accepted [of b]
  by (auto simp: bw_flush_def bw_accepted_def Let_def split: if_splits prod.splits)

lemma loop_step_accepted:
  assumes "nn + n \<le> nn'" "nn' - (nn + n) \<le> length p - n" "n \<le> length p"
    and "bw_accepted b' = (bw_accepted b @ take n p) @ take (nn' - (nn + n)) (drop n p)"
  shows "nn \<le> nn' \<and> nn' - nn \<le> length p \<and> drop (nn' - (nn + n)) (drop n p) = drop (nn' - nn) p \<and>
     bw_accepted b' = bw_accepted b @ take (nn' - nn) p"
proof -
  have "take n p @ take (nn' - (nn + n)) (drop n p) = take (n + (nn' - (nn + n))) p"
    by (simp add: take_add)
  with assms show ?thesis by auto
qed

lemma bw_loop_accepted:
  "bw_loop b p nn = (b', p', nn') \<Longrightarrow>
     nn \<le> nn' \<and> nn' - nn \<le> length p \<and> p' = drop (nn' - nn) p \<and>
     bw_accepted b' = bw_accepted b @ take (nn' - nn) p"
proof (induction b p nn arbitrary: b' p' nn' rule: bw_loop.induct)
  case (1 b p nn)
  show ?case
  proof (cases "length p > bw_avail b \<and> bw_err b = None")
    case False
    with "1.prems" show ?thesis by (auto simp: bw_loop.simps)
  next
    case guard: True
    show ?thesis
    proof (cases "bw_buf b = []")
      case True
      obtain c n err where w: "netw_write (bw_wr b) p = (c, n, err)"
        by (cases "netw_write (bw_wr b) p")
      let ?b = "b\<lparr>bw_wr := c, bw_err := err\<rparr>"
      from w True have acc: "bw_accepted ?b = bw_accepted b @ take n p" "n \<le> length p"
        by (auto simp: bw_accepted_def dest: nw.accepts nw.count)
      from "1.prems" guard True w have "bw_loop ?b (drop n p) (nn + n) = (b', p', nn')"
        by (simp add: bw_loop.simps [of b p nn])
      from "1.IH"(1) [OF guard True w [symmetric] refl this]
      show ?thesis using loop_step_accepted [of nn n nn' p b' b] acc by simp
    next
      case False
      let ?n = "bw_avail b"
      let ?b = "fst (bw_flush (b\<lparr>bw_buf := bw_buf b @ take ?n p\<rparr>))"
      have acc: "bw_accepted ?b = bw_accepted b @ take ?n p" "?n \<le> length p"
        using guard by (simp_all add: bw_flush_accepted) (simp add: bw_accepted_def)
      from "1.prems" guard False have "bw_loop ?b (drop ?n p) (nn + ?n) = (b', p', nn')"
        by (simp add: bw_loop.simps [of b p nn] Let_def)
      from "1.IH"(2) [OF guard False refl refl this]
      show ?thesis using loop_step_accepted [of nn ?n nn' p b' b] acc by simp
    qed
  qed
qed

lemma bw_accepted_append: "bw_accepted (b\<lparr>bw_buf := bw_buf b @ q\<rparr>) = bw_accepted b @ q"
  by (simp add: bw_accepted_def)

interpretation bw: io_writer bw_write bw_accepted
proof unfold_locales
  fix w b w' n err
  assume wr: "bw_write w b = (w', n, err)"
  obtain b1 p1 n1 where l: "bw_loop w b 0 = (b1, p1, n1)" by (cases "bw_loop w b 0")
  note a = bw_loop_accepted [OF l, simplified]
  show "n \<le> length b" and "bw_accepted w' = bw_accepted w @ take n b"
    and "n < length b \<Longrightarrow> err \<noteq> None"
    using wr l a by (cases "bw_err b1"; auto simp: bw_write_def bw_accepted_append)+
qed

text \<open>On a connection that takes every byte, a writer with no error pending never fails.\<close>

definition bw_healthy :: "bufw \<Rightarrow> bool" where
  "bw_healthy b \<longleftrightarrow> bw_err b = None \<and> nw_room (bw_wr b) = None"

lemma bw_flush_healthy:
  "bw_healthy b \<Longrightarrow> bw_healthy (fst (bw_flush b)) \<and> snd (bw_flush b) = None"
  by (auto simp: bw_healthy_def bw_flush_def netw_write_def)

lemma bw_loop_healthy: "bw_healthy b \<Longrightarrow> bw_healthy (fst (bw_loop b p nn))"
proof (induction b p nn rule: bw_loop.induct)
  case (1 b p nn)
  show ?case
  proof (cases "length p > bw_avail b \<and> bw_err b = None")
    case False
    with "1.prems" show ?thesis by (auto simp: bw_loop.simps [of b p nn])
  next
    case guard: True
    show ?thesis
    proof (cases "bw_buf b = []")
      case True
      obtain c n err where w: "netw_write (bw_wr b) p = (c, n, err)"
        by (cases "netw_write (bw_wr b) p")
      with "1.prems" have "bw_healthy (b\<lparr>bw_wr := c, bw_err := err\<rparr>)"
        by (auto simp: bw_healthy_def netw_write_def)
      from "1.IH"(1) [OF guard True w [symmetric] refl this] guard True w
      show ?thesis by (simp add: bw_loop.simps [of b p nn])
    next
      case False
      have "bw_healthy (fst (bw_flush (b\<lparr>bw_buf := bw_buf b @ take (bw_avail b) p\<rparr>)))"
        by (rule bw_flush_healthy [THEN conjunct1]) (use "1.prems" in \<open>simp add: bw_healthy_def\<close>)
      from "1.IH"(2) [OF guard False refl refl this] guard False
      show ?thesis by (simp add: bw_loop.simps [of b p nn] Let_def)
    qed
  qed
qed

lemma bw_write_healthy:
  assumes "bw_healthy b"
  shows "\<exists>b' n. bw_write b p = (b', n, None) \<and> bw_healthy b'"
  using bw_loop_healthy [OF assms, of p 0]
  by (auto simp: bw_write_def bw_healthy_def split: prod.split)

section \<open>Frames\<close>

lemma ReadFull_exact [simp]:
  "length xs = n \<Longrightarrow> ReadFull \<lparr>r_avail = xs @ ys, r_err = e\<rparr> n = (Inr xs, \<lparr>r_avail = ys, r_err = e\<rparr>)"
  by (simp add: ReadFull_def)

lemma ReadFull_short:
  "length (r_avail r) < n \<Longrightarrow> ReadFull r n =
     (Inl (if r_avail r \<noteq> [] \<and> r_err r = EOF then ErrUnexpectedEOF else r_err r), r\<lparr>r_avail := []\<rparr>)"
  by (simp add: ReadFull_def)

context bytesutil_spec
begin

lemma ReadSized_header:
  "ReadSized bu dst \<lparr>r_avail = be_put32 h @ xs, r_err = e\<rparr> maxn =
     (if unat h > maxn
      then (Inl (Errorf ''max is %d bytes, got %d bytes'' [ArgNat maxn, ArgNat (unat h)]),
            \<lparr>r_avail = xs, r_err = e\<rparr>)
      else ReadFull \<lparr>r_avail = xs, r_err = e\<rparr> (unat h))"
  by (auto simp: ReadSized_def Let_def length_ExtendSlice split: prod.splits sum.splits)

lemma ReadSized_frame:
  assumes "length buf \<le> maxn" and "length buf < 2 ^ 32"
  shows "ReadSized bu dst \<lparr>r_avail = frame buf @ rest, r_err = e\<rparr> maxn =
    (Inr buf, \<lparr>r_avail = rest, r_err = e\<rparr>)"
  using assms unat_len32 [of buf] by (simp add: frame_def ReadSized_header)

lemma WriteSized_healthy:
  assumes "bw_healthy w"
  shows "\<exists>w'. WriteSized bu bw_write w buf = (w', None) \<and> bw_healthy w'"
proof -
  obtain w1 n1 where "bw_write w (be_put32 (len32 buf)) = (w1, n1, None)" "bw_healthy w1"
    using bw_write_healthy [OF assms] by blast
  moreover obtain w2 n2 where "bw_write w1 buf = (w2, n2, None)" "bw_healthy w2"
    using bw_write_healthy [OF \<open>bw_healthy w1\<close>] by blast
  ultimately show ?thesis by (simp add: bw.WriteSized_unfold [OF bytesutil_spec_axioms])
qed

lemma ReadSized_short_header:
  assumes "length xs < 4"
  shows "fst (ReadSized bu dst \<lparr>r_avail = xs, r_err = EOF\<rparr> maxn) =
    Inl (if xs = [] then EOF else ErrUnexpectedEOF)"
  using assms by (simp add: ReadSized_def Let_def length_ExtendSlice ReadFull_short)

end

section \<open>Properties\<close>

text \<open>
  (C20) Framing round trip: if \<^verbatim>\<open>WriteSized\<close> on a buffered writer reports no error, then the
  bytes it put behind what the writer had already accepted are a frame from which
  \<^verbatim>\<open>ReadSized\<close>, given a limit that is large enough, returns exactly the payload and leaves
  whatever follows the frame unread. Neither the unspecified bytes of a grown slice nor the
  destination passed to \<^verbatim>\<open>ReadSized\<close> can be seen in the result.
\<close>

theorem WriteSized_ReadSized:
  assumes "bytesutil_spec bu"
    and "WriteSized bu bw_write w buf = (w', None)"
    and "length buf \<le> maxn" and "length buf < 2 ^ 32"
  shows "\<exists>fr. bw_accepted w' = bw_accepted w @ fr \<and>
    (\<forall>dst rest e. ReadSized bu dst \<lparr>r_avail = fr @ rest, r_err = e\<rparr> maxn =
       (Inr buf, \<lparr>r_avail = rest, r_err = e\<rparr>))"
  using bw.WriteSized_ok [OF assms(1,2)] bytesutil_spec.ReadSized_frame [OF assms(1,3,4)]
  by blast

definition example_bufw :: bufw where
  "example_bufw = bufio_NewWriter \<lparr>nw_sent = [9], nw_room = Some 100, nw_fail = EOF\<rparr>"

lemma example_WriteSized:
  "WriteSized (bytesutil_model 255) bw_write example_bufw [104, 105] =
     (example_bufw\<lparr>bw_buf := [0, 0, 0, 2, 104, 105]\<rparr>, None)"
  by code_simp

theorem WriteSized_ReadSized_witness:
  "\<exists>fr. bw_accepted (example_bufw\<lparr>bw_buf := [0, 0, 0, 2, 104, 105]\<rparr>) =
      bw_accepted example_bufw @ fr \<and>
    (\<forall>dst rest e. ReadSized (bytesutil_model 255) dst \<lparr>r_avail = fr @ rest, r_err = e\<rparr> 16 =
       (Inr [104, 105], \<lparr>r_avail = rest, r_err = e\<rparr>))"
  by (rule WriteSized_ReadSized [OF bm.bytesutil_spec_axioms example_WriteSized]) simp_all

text \<open>
  A frame cut short is never taken for a message: on a stream that ends after the first
  \<open>k\<close> bytes of a frame, \<^verbatim>\<open>ReadSized\<close> returns an error. The error is the clean
  \<^verbatim>\<open>io.EOF\<close> when the stream ended before the frame, and also when it ended between the
  length and a non-empty body; everywhere else it is \<^verbatim>\<open>io.ErrUnexpectedEOF\<close>.
\<close>

lemma ReadSized_truncated:
  assumes "bytesutil_spec bu" and "k < length (frame buf)"
    and "length buf \<le> maxn" and "length buf < 2 ^ 32"
  shows "fst (ReadSized bu dst \<lparr>r_avail = take k (frame buf), r_err = EOF\<rparr> maxn) =
    Inl (if k = 0 \<or> k = 4 then EOF else ErrUnexpectedEOF)"
proof (cases "k < 4")
  case True
  then show ?thesis
    using bytesutil_spec.ReadSized_short_header [OF assms(1), of "take k (frame buf)" dst maxn]
    by auto
next
  case False
  then obtain j where k: "k = 4 + j" by (metis le_Suc_ex not_less)
  have "take k (frame buf) = be_put32 (len32 buf) @ take j buf"
    by (simp add: frame_def k)
  moreover have "j < length buf" using assms(2) k by simp
  ultimately show ?thesis
    using assms(3,4) unat_len32 [of buf] k
    by (auto simp: bytesutil_spec.ReadSized_header [OF assms(1)] ReadFull_short)
qed

text \<open>
  The limit is checked before the body: a header that announces more than the limit is
  answered with an error that carries both numbers, and exactly the four header bytes have
  been consumed.
\<close>

lemma ReadSized_rejects_oversize:
  assumes "bytesutil_spec bu" and "unat h > maxn"
  shows "ReadSized bu dst \<lparr>r_avail = be_put32 h @ body, r_err = e\<rparr> maxn =
    (Inl (Errorf ''max is %d bytes, got %d bytes'' [ArgNat maxn, ArgNat (unat h)]),
     \<lparr>r_avail = body, r_err = e\<rparr>)"
  using assms(2) by (simp add: bytesutil_spec.ReadSized_header [OF assms(1)])

end
