(* ===== verification/Transmit_Pools.thy ===== *)
theory Transmit_Pools
  imports Carlo_Prelude
begin

text \<open>
  The object pools of \<^verbatim>\<open>streaming_transmit\<close> (\<^verbatim>\<open>pendingwritepool.go\<close>,
  \<^verbatim>\<open>pendingrequestpool.go\<close>, \<^verbatim>\<open>contextpool.go\<close>, \<^verbatim>\<open>timerpool.go\<close>) and their metrics
  (\<^verbatim>\<open>poolmetrics.go\<close>, \<^verbatim>\<open>pools.go\<close>). A \<^verbatim>\<open>sync.Pool\<close> is the list of objects put back;
  \<^verbatim>\<open>Get\<close> may return any of them or nil, so every acquire takes the choice as an argument. The
  locale \<open>object_pool\<close> is the contract of a pool: an object taken from it cannot be told
  from a newly allocated one.
\<close>

section \<open>Metrics\<close>

record PoolMetrics =
  pm_na :: u32
  pm_nr :: u32
  pm_np :: u32
  pm_naa :: u64
  pm_nra :: u64
  pm_npa :: u64
  pm_running :: nat    \<comment> \<open>goroutines started and waiting on \<^verbatim>\<open>done\<close>\<close>
  pm_closed :: bool    \<comment> \<open>whether \<^verbatim>\<open>done\<close> has been closed\<close>

definition newPoolMetrics :: PoolMetrics where
  "newPoolMetrics = \<lparr>pm_na = 0, pm_nr = 0, pm_np = 0, pm_naa = 0, pm_nra = 0, pm_npa = 0,
     pm_running = 0, pm_closed = False\<rparr>"

definition setMetrics :: "PoolMetrics \<Rightarrow> PoolMetrics" where
  "setMetrics p =
     (let p = p\<lparr>pm_naa := pm_naa p + ucast (pm_na p), pm_na := 0\<rparr>;
          p = p\<lparr>pm_nra := pm_nra p + ucast (pm_nr p), pm_nr := 0\<rparr>
      in p\<lparr>pm_npa := pm_npa p + ucast (pm_np p), pm_np := 0\<rparr>)"

definition PoolMetrics_start :: "PoolMetrics \<Rightarrow> PoolMetrics" where
  "PoolMetrics_start p = p\<lparr>pm_running := pm_running p + 1\<rparr>"

text \<open>One tick of a running goroutine's ticker.\<close>

definition PoolMetrics_tick :: "PoolMetrics \<Rightarrow> PoolMetrics" where
  "PoolMetrics_tick p = (if pm_running p = 0 then p else setMetrics p)"

text \<open>
  \<^verbatim>\<open>release\<close> sends on the unbuffered channel \<^verbatim>\<open>done\<close>: it panics when the channel is closed
  and never returns (\<open>None\<close>) when no goroutine receives. The goroutine that receives takes
  the last metrics and closes the channel; any other goroutine then receives from the closed
  channel and panics when it closes it again.
\<close>

definition PoolMetrics_release :: "PoolMetrics \<Rightarrow> PoolMetrics result option" where
  "PoolMetrics_release p =
     (if pm_closed p then Some (Panic ''send on closed channel'')
      else if pm_running p = 0 then None
      else if pm_running p = 1
      then Some (Ok ((setMetrics p)\<lparr>pm_running := 0, pm_closed := True\<rparr>))
      else Some (Panic ''close of closed channel''))"

section \<open>sync.Pool\<close>

record 'o pool =
  p_free :: "'o list"
  p_m :: PoolMetrics

definition new_pool :: "'o pool" where
  "new_pool = \<lparr>p_free = [], p_m = newPoolMetrics\<rparr>"

definition pool_Get :: "'o pool \<Rightarrow> nat option \<Rightarrow> 'o option \<times> 'o pool" where
  "pool_Get p pick =
     (case pick of
        None \<Rightarrow> (None, p)
      | Some i \<Rightarrow>
          if i < length (p_free p)
          then (Some (p_free p ! i),
                p\<lparr>p_free := take i (p_free p) @ drop (Suc i) (p_free p)\<rparr>)
          else (None, p))"

definition pool_Put :: "'o pool \<Rightarrow> 'o \<Rightarrow> 'o pool" where
  "pool_Put p x = p\<lparr>p_free := x # p_free p\<rparr>"

definition add_na :: "'o pool \<Rightarrow> 'o pool" where
  "add_na p = p\<lparr>p_m := (p_m p)\<lparr>pm_na := pm_na (p_m p) + 1\<rparr>\<rparr>"

definition add_nr :: "'o pool \<Rightarrow> 'o pool" where
  "add_nr p = p\<lparr>p_m := (p_m p)\<lparr>pm_nr := pm_nr (p_m p) + 1\<rparr>\<rparr>"

definition add_np :: "'o pool \<Rightarrow> 'o pool" where
  "add_np p = p\<lparr>p_m := (p_m p)\<lparr>pm_np := pm_np (p_m p) + 1\<rparr>\<rparr>"

lemmas pool_defs = pool_Get_def pool_Put_def add_na_def add_nr_def add_np_def

section \<open>The pools\<close>

text \<open>Wait groups are their counters.\<close>

record pendingWrite =
  pw_buf :: bytes
  pw_wait :: bool
  pw_err :: "goerr option"
  pw_wg :: int

definition PendingWritePool_acquire ::
  "bytes \<times> bool \<Rightarrow> pendingWrite pool \<Rightarrow> nat option \<Rightarrow> pendingWrite \<times> pendingWrite pool" where
  "PendingWritePool_acquire args p pick =
     (case args of (buf, wait) \<Rightarrow>
      case (case pool_Get p pick of
              (None, p) \<Rightarrow> (\<lparr>pw_buf = [], pw_wait = False, pw_err = None, pw_wg = 0\<rparr>, add_na p)
            | (Some v, p) \<Rightarrow> (v, add_nr p)) of
        (pw, p) \<Rightarrow> (pw\<lparr>pw_buf := buf, pw_wait := wait\<rparr>, p))"

definition PendingWritePool_release :: "pendingWrite \<Rightarrow> pendingWrite pool \<Rightarrow> pendingWrite pool" where
  "PendingWritePool_release pw p = add_np (pool_Put p (pw\<lparr>pw_err := None\<rparr>))"

record pendingRequest =
  pr_dst :: "bytes option"
  pr_err :: "goerr option"
  pr_wg :: int

definition PendingRequestPool_acquire ::
  "bytes option \<Rightarrow> pendingRequest pool \<Rightarrow> nat option \<Rightarrow> pendingRequest \<times> pendingRequest pool" where
  "PendingRequestPool_acquire dst p pick =
     (case (case pool_Get p pick of
              (None, p) \<Rightarrow> (\<lparr>pr_dst = None, pr_err = None, pr_wg = 0\<rparr>, add_na p)
            | (Some v, p) \<Rightarrow> (v, add_nr p)) of
        (pr, p) \<Rightarrow> (pr\<lparr>pr_dst := dst\<rparr>, p))"

definition PendingRequestPool_release ::
  "pendingRequest \<Rightarrow> pendingRequest pool \<Rightarrow> pendingRequest pool" where
  "PendingRequestPool_release pr p = add_np (pool_Put p (pr\<lparr>pr_dst := None, pr_err := None\<rparr>))"

text \<open>\<^verbatim>\<open>Context\<close> of \<^verbatim>\<open>context.go\<close>; a connection is its address.\<close>

record Context =
  cx_conn :: "nat option"
  cx_seq :: u32
  cx_buf :: bytes

definition ContextPool_acquire ::
  "nat option \<times> u32 \<times> bytes \<Rightarrow> Context pool \<Rightarrow> nat option \<Rightarrow> Context \<times> Context pool" where
  "ContextPool_acquire args p pick =
     (case args of (conn, seq, buf) \<Rightarrow>
      case (case pool_Get p pick of
              (None, p) \<Rightarrow> (\<lparr>cx_conn = None, cx_seq = 0, cx_buf = []\<rparr>, add_na p)
            | (Some v, p) \<Rightarrow> (v, add_nr p)) of
        (ctx, p) \<Rightarrow> (ctx\<lparr>cx_conn := conn, cx_seq := seq, cx_buf := buf\<rparr>, p))"

definition ContextPool_release :: "Context \<Rightarrow> Context pool \<Rightarrow> Context pool" where
  "ContextPool_release ctx p = add_np (pool_Put p ctx)"

text \<open>
  A timer: whether it is armed and for how long, and whether an expiry waits in its channel.
  \<^verbatim>\<open>Stop\<close> reports whether the timer was armed.
\<close>

record timer =
  tm_armed :: "nat option"
  tm_fired :: bool

definition timer_expire :: "timer \<Rightarrow> timer" where
  "timer_expire t = (case tm_armed t of None \<Rightarrow> t | Some _ \<Rightarrow> \<lparr>tm_armed = None, tm_fired = True\<rparr>)"

definition timer_receive :: "timer \<Rightarrow> timer" where
  "timer_receive t = t\<lparr>tm_fired := False\<rparr>"

definition TimerPool_acquire :: "nat \<Rightarrow> timer pool \<Rightarrow> nat option \<Rightarrow> timer \<times> timer pool" where
  "TimerPool_acquire timeout p pick =
     (case pool_Get p pick of
        (None, p) \<Rightarrow> (\<lparr>tm_armed = Some timeout, tm_fired = False\<rparr>, add_na p)
      | (Some t, p) \<Rightarrow> (t\<lparr>tm_armed := Some timeout\<rparr>, add_nr p))"

definition TimerPool_release :: "timer \<Rightarrow> timer pool \<Rightarrow> timer pool" where
  "TimerPool_release t p =
     (let t = (if tm_armed t \<noteq> None then t\<lparr>tm_armed := None\<rparr> else timer_receive t)
      in add_np (pool_Put p t))"

text \<open>The package's four pools, \<^verbatim>\<open>StartPoolMetrics\<close> and \<^verbatim>\<open>ReleasePoolMetrics\<close>.\<close>

record Pools =
  timerPool :: "timer pool"
  contextPool :: "Context pool"
  pendingRequestPool :: "pendingRequest pool"
  pendingWritePool :: "pendingWrite pool"

definition start_pool :: "'o pool \<Rightarrow> 'o pool" where
  "start_pool p = p\<lparr>p_m := PoolMetrics_start (p_m p)\<rparr>"

definition StartPoolMetrics :: "Pools \<Rightarrow> Pools" where
  "StartPoolMetrics ps = ps\<lparr>timerPool := start_pool (timerPool ps),
     contextPool := start_pool (contextPool ps),
     pendingRequestPool := start_pool (pendingRequestPool ps),
     pendingWritePool := start_pool (pendingWritePool ps)\<rparr>"

definition release_pool :: "('o pool \<Rightarrow> Pools) \<Rightarrow> 'o pool \<Rightarrow> Pools result option" where
  "release_pool upd p =
     (case PoolMetrics_release (p_m p) of
        None \<Rightarrow> None
      | Some (Ok m) \<Rightarrow> Some (Ok (upd (p\<lparr>p_m := m\<rparr>)))
      | Some (Err e) \<Rightarrow> Some (Err e)
      | Some (Panic s) \<Rightarrow> Some (Panic s))"

definition and_then :: "Pools result option \<Rightarrow> (Pools \<Rightarrow> Pools result option) \<Rightarrow> Pools result option" where
  "and_then r f = (case r of Some (Ok ps) \<Rightarrow> f ps | _ \<Rightarrow> r)"

definition ReleasePoolMetrics :: "Pools \<Rightarrow> Pools result option" where
  "ReleasePoolMetrics ps =
     and_then (release_pool (\<lambda>p. ps\<lparr>timerPool := p\<rparr>) (timerPool ps)) (\<lambda>ps.
     and_then (release_pool (\<lambda>p. ps\<lparr>contextPool := p\<rparr>) (contextPool ps)) (\<lambda>ps.
     and_then (release_pool (\<lambda>p. ps\<lparr>pendingRequestPool := p\<rparr>) (pendingRequestPool ps)) (\<lambda>ps.
     release_pool (\<lambda>p. ps\<lparr>pendingWritePool := p\<rparr>) (pendingWritePool ps))))"

section \<open>The contract of a pool\<close>

datatype ('a, 'o) pool_op = Acquire 'a "nat option" | Release 'o

text \<open>A history of the pool, each acquire with the choice the run time makes.\<close>

definition pool_step ::
  "('a \<Rightarrow> 'o pool \<Rightarrow> nat option \<Rightarrow> 'o \<times> 'o pool) \<Rightarrow> ('o \<Rightarrow> 'o pool \<Rightarrow> 'o pool) \<Rightarrow>
   'o pool \<Rightarrow> ('a, 'o) pool_op \<Rightarrow> 'o pool" where
  "pool_step acquire release p op =
     (case op of Acquire a pick \<Rightarrow> snd (acquire a p pick) | Release x \<Rightarrow> release x p)"

definition pool_run ::
  "('a \<Rightarrow> 'o pool \<Rightarrow> nat option \<Rightarrow> 'o \<times> 'o pool) \<Rightarrow> ('o \<Rightarrow> 'o pool \<Rightarrow> 'o pool) \<Rightarrow>
   'o pool \<Rightarrow> ('a, 'o) pool_op list \<Rightarrow> 'o pool" where
  "pool_run acquire release = foldl (pool_step acquire release)"

lemma pool_run_simps [simp]:
  "pool_run acquire release p [] = p"
  "pool_run acquire release p (op # ops) =
     pool_run acquire release (pool_step acquire release p op) ops"
  by (simp_all add: pool_run_def)

locale object_pool =
  fixes acquire :: "'a \<Rightarrow> 'o pool \<Rightarrow> nat option \<Rightarrow> 'o \<times> 'o pool"
    and release :: "'o \<Rightarrow> 'o pool \<Rightarrow> 'o pool"
    and fresh :: "'a \<Rightarrow> 'o"
    and clean :: "'o \<Rightarrow> bool"
    and idle :: "'o \<Rightarrow> bool"
  assumes acquire_new: "fst (acquire a p None) = fresh a"
    and acquire_reused: "\<forall>x \<in> set (p_free p). clean x \<Longrightarrow> fst (acquire a p pick) = fresh a"
    and acquire_free: "set (p_free (snd (acquire a p pick))) \<subseteq> set (p_free p)"
    and release_clean: "idle x \<Longrightarrow> \<forall>y \<in> set (p_free p). clean y \<Longrightarrow>
      \<forall>y \<in> set (p_free (release x p)). clean y"
    and acquire_counts: "pm_na (p_m (snd (acquire a p pick))) + pm_nr (p_m (snd (acquire a p pick))) =
      pm_na (p_m p) + pm_nr (p_m p) + 1"
    and release_counts: "pm_np (p_m (release x p)) = pm_np (p_m p) + 1"
begin

lemma run_clean:
  "\<forall>x \<in> set (p_free p). clean x \<Longrightarrow> \<forall>x. Release x \<in> set ops \<longrightarrow> idle x \<Longrightarrow>
     \<forall>x \<in> set (p_free (pool_run acquire release p ops)). clean x"
proof (induction ops arbitrary: p)
  case Nil
  then show ?case by simp
next
  case (Cons op ops)
  show ?case
  proof (cases op)
    case (Acquire a pick)
    have "\<forall>x \<in> set (p_free (snd (acquire a p pick))). clean x"
      using Cons.prems(1) acquire_free [of a p pick] by blast
    from Cons.IH [OF this] Cons.prems(2) Acquire show ?thesis by (simp add: pool_step_def)
  next
    case (Release x)
    have "\<forall>y \<in> set (p_free (release x p)). clean y"
      by (rule release_clean) (use Cons.prems Release in auto)
    from Cons.IH [OF this] Cons.prems(2) Release show ?thesis by (simp add: pool_step_def)
  qed
qed

lemma run_fresh:
  assumes "\<forall>x. Release x \<in> set ops \<longrightarrow> idle x"
  shows "fst (acquire a (pool_run acquire release new_pool ops) pick) = fresh a"
  by (rule acquire_reused, rule run_clean [OF _ assms]) (simp add: new_pool_def)

end

section \<open>Every pool meets the contract\<close>

lemma Get_free:
  "pool_Get p pick = (r, p') \<Longrightarrow> set (p_free p') \<subseteq> set (p_free p) \<and> p_m p' = p_m p \<and>
     (\<forall>x. r = Some x \<longrightarrow> x \<in> set (p_free p))"
  by (auto simp: pool_Get_def dest: in_set_takeD in_set_dropD split: option.splits if_splits)

lemma Get_None [simp]: "pool_Get p None = (None, p)"
  by (simp add: pool_Get_def)

lemma add_free [simp]:
  "p_free (add_na p) = p_free p" "p_free (add_nr p) = p_free p" "p_free (add_np p) = p_free p"
  "p_free (pool_Put p x) = x # p_free p" "p_m (pool_Put p x) = p_m p"
  by (simp_all add: pool_defs)

lemma add_counts [simp]:
  "pm_na (p_m (add_na p)) = pm_na (p_m p) + 1" "pm_nr (p_m (add_na p)) = pm_nr (p_m p)"
  "pm_na (p_m (add_nr p)) = pm_na (p_m p)" "pm_nr (p_m (add_nr p)) = pm_nr (p_m p) + 1"
  "pm_np (p_m (add_np p)) = pm_np (p_m p) + 1"
  by (simp_all add: pool_defs)

lemmas pool_contract = PendingWritePool_acquire_def PendingWritePool_release_def
  PendingRequestPool_acquire_def PendingRequestPool_release_def ContextPool_acquire_def
  ContextPool_release_def TimerPool_acquire_def TimerPool_release_def timer_receive_def

interpretation pwp: object_pool PendingWritePool_acquire PendingWritePool_release
  "\<lambda>(buf, wait). \<lparr>pw_buf = buf, pw_wait = wait, pw_err = None, pw_wg = 0\<rparr>"
  "\<lambda>pw. pw_err pw = None \<and> pw_wg pw = 0" "\<lambda>pw. pw_wg pw = 0"
  by unfold_locales
    (auto simp: pool_contract algebra_simps dest!: Get_free split: prod.splits option.splits)

interpretation prp: object_pool PendingRequestPool_acquire PendingRequestPool_release
  "\<lambda>dst. \<lparr>pr_dst = dst, pr_err = None, pr_wg = 0\<rparr>"
  "\<lambda>pr. pr_dst pr = None \<and> pr_err pr = None \<and> pr_wg pr = 0" "\<lambda>pr. pr_wg pr = 0"
  by unfold_locales
    (auto simp: pool_contract algebra_simps dest!: Get_free split: prod.splits option.splits)

interpretation cxp: object_pool ContextPool_acquire ContextPool_release
  "\<lambda>(conn, seq, buf). \<lparr>cx_conn = conn, cx_seq = seq, cx_buf = buf\<rparr>" "\<lambda>_. True" "\<lambda>_. True"
  by unfold_locales
    (auto simp: pool_contract algebra_simps dest!: Get_free split: prod.splits option.splits)

interpretation tmp: object_pool TimerPool_acquire TimerPool_release
  "\<lambda>timeout. \<lparr>tm_armed = Some timeout, tm_fired = False\<rparr>"
  "\<lambda>t. tm_armed t = None \<and> \<not> tm_fired t" "\<lambda>t. tm_armed t \<noteq> None \<longrightarrow> \<not> tm_fired t"
  by unfold_locales
    (auto simp: pool_contract algebra_simps dest!: Get_free split: prod.splits option.splits)

section \<open>Metrics as counters\<close>

text \<open>What happens to the metrics of a pool, and the counters it should show.\<close>

datatype metric_event = NewObject | Reuse | PutBack | Tick

definition metric_step :: "PoolMetrics \<Rightarrow> metric_event \<Rightarrow> PoolMetrics" where
  "metric_step p e =
     (case e of
        NewObject \<Rightarrow> p_m (add_na \<lparr>p_free = ([] :: unit list), p_m = p\<rparr>)
      | Reuse \<Rightarrow> p_m (add_nr \<lparr>p_free = ([] :: unit list), p_m = p\<rparr>)
      | PutBack \<Rightarrow> p_m (add_np \<lparr>p_free = ([] :: unit list), p_m = p\<rparr>)
      | Tick \<Rightarrow> PoolMetrics_tick p)"

definition metric_run :: "metric_event list \<Rightarrow> PoolMetrics" where
  "metric_run es = foldl metric_step (PoolMetrics_start newPoolMetrics) es"

text \<open>The events since the last tick.\<close>

definition since_tick :: "metric_event list \<Rightarrow> metric_event list" where
  "since_tick es = takeWhile (\<lambda>e. e \<noteq> Tick) (rev es)"

text \<open>Fewer than \<open>2 ^ 32\<close> events in every stretch without a tick.\<close>

fun ticks_often :: "metric_event list \<Rightarrow> bool" where
  "ticks_often es \<longleftrightarrow> (\<forall>n \<le> length es. length (since_tick (take n es)) < 2 ^ 32)"

lemma since_tick_snoc:
  "since_tick (es @ [e]) = (if e = Tick then [] else e # since_tick es)"
  by (simp add: since_tick_def)

lemma metric_run_snoc: "metric_run (es @ [e]) = metric_step (metric_run es) e"
  by (simp add: metric_run_def)

lemma metric_step_running: "pm_running (metric_step p e) = pm_running p"
  by (cases e) (simp_all add: metric_step_def add_na_def add_nr_def add_np_def
      PoolMetrics_tick_def setMetrics_def Let_def)

lemma metric_running: "pm_running (metric_run es) = 1"
  by (induction es rule: rev_induct)
    (simp_all add: metric_run_snoc metric_step_running, simp add: metric_run_def PoolMetrics_start_def
      newPoolMetrics_def)

lemma ucast_Suc32:
  assumes "unat (w :: u32) + 1 < 2 ^ 32"
  shows "(ucast (w + 1) :: u64) = ucast w + 1" and "unat (w + 1) = unat w + 1"
proof -
  from assms show *: "unat (w + 1) = unat w + 1" by (simp add: unat_word_ariths)
  then show "(ucast (w + 1) :: u64) = ucast w + 1" by (metis of_nat_1 of_nat_add of_nat_unat)
qed

text \<open>One counter of the metrics: a 32-bit part that ticks move into a 64-bit part.\<close>

locale metric_counter =
  fixes lo :: "PoolMetrics \<Rightarrow> u32" and hi :: "PoolMetrics \<Rightarrow> u64" and k :: metric_event
  assumes not_tick: "k \<noteq> Tick"
    and start: "lo (metric_run []) = 0" "hi (metric_run []) = 0"
    and hit: "lo (metric_step m k) = lo m + 1" "hi (metric_step m k) = hi m"
    and miss: "e \<noteq> k \<Longrightarrow> e \<noteq> Tick \<Longrightarrow> lo (metric_step m e) = lo m"
      "e \<noteq> k \<Longrightarrow> e \<noteq> Tick \<Longrightarrow> hi (metric_step m e) = hi m"
    and tick: "pm_running m = 1 \<Longrightarrow> lo (metric_step m Tick) = 0"
      "pm_running m = 1 \<Longrightarrow> hi (metric_step m Tick) = hi m + ucast (lo m)"
begin

lemma exact:
  "ticks_often es \<Longrightarrow>
     hi (metric_run es) + ucast (lo (metric_run es)) = of_nat (count_list es k) \<and>
     unat (lo (metric_run es)) = count_list (since_tick es) k"
proof (induction es rule: rev_induct)
  case Nil
  then show ?case by (simp add: start since_tick_def)
next
  case (snoc e es)
  have often: "ticks_often es"
    using snoc.prems by (auto simp: le_Suc_eq)
  note IH = snoc.IH [OF often]
  have "length (since_tick (es @ [e])) < 2 ^ 32"
    using snoc.prems by (auto dest: spec [of _ "length (es @ [e])"])
  then have bound: "e \<noteq> Tick \<Longrightarrow> count_list (since_tick es) k + 1 < 2 ^ 32"
    using count_le_length [of "since_tick es" k] by (simp add: since_tick_snoc)
  show ?case
  proof (cases "e = Tick")
    case True
    with IH metric_running [of es] not_tick show ?thesis
      by (simp add: metric_run_snoc tick since_tick_snoc)
  next
    case False
    with IH bound ucast_Suc32 [of "lo (metric_run es)"] show ?thesis
      by (cases "e = k") (auto simp: metric_run_snoc hit miss since_tick_snoc)
  qed
qed

end

lemmas metric_defs = metric_step_def metric_run_def add_na_def add_nr_def add_np_def
  PoolMetrics_tick_def setMetrics_def PoolMetrics_start_def newPoolMetrics_def

interpretation mna: metric_counter pm_na pm_naa NewObject
  by unfold_locales (auto simp: metric_defs split: metric_event.split)

interpretation mnr: metric_counter pm_nr pm_nra Reuse
  by unfold_locales (auto simp: metric_defs split: metric_event.split)

interpretation mnp: metric_counter pm_np pm_npa PutBack
  by unfold_locales (auto simp: metric_defs split: metric_event.split)

section \<open>Properties\<close>

text \<open>
  (C28) Reuse is invisible: after any history of a pool in which objects were put back only
  when nobody waits on them any more, whatever the run time hands out, an acquired pending
  write, pending request, context or timer is equal to a newly allocated one: no stale error,
  no stale destination, no expiry left in a timer's channel.
\<close>

theorem pools_hand_out_fresh_objects:
  assumes "\<forall>x. Release x \<in> set ws \<longrightarrow> pw_wg x = 0"
    and "\<forall>x. Release x \<in> set rs \<longrightarrow> pr_wg x = 0"
    and "\<forall>x. Release x \<in> set ts \<longrightarrow> tm_armed x \<noteq> None \<longrightarrow> \<not> tm_fired x"
  shows "fst (PendingWritePool_acquire (buf, wait)
        (pool_run PendingWritePool_acquire PendingWritePool_release new_pool ws) pick) =
      \<lparr>pw_buf = buf, pw_wait = wait, pw_err = None, pw_wg = 0\<rparr> \<and>
    fst (PendingRequestPool_acquire dst
        (pool_run PendingRequestPool_acquire PendingRequestPool_release new_pool rs) pick) =
      \<lparr>pr_dst = dst, pr_err = None, pr_wg = 0\<rparr> \<and>
    fst (ContextPool_acquire (conn, seq, body)
        (pool_run ContextPool_acquire ContextPool_release new_pool cs) pick) =
      \<lparr>cx_conn = conn, cx_seq = seq, cx_buf = body\<rparr> \<and>
    fst (TimerPool_acquire timeout
        (pool_run TimerPool_acquire TimerPool_release new_pool ts) pick) =
      \<lparr>tm_armed = Some timeout, tm_fired = False\<rparr>"
  using pwp.run_fresh [of ws "(buf, wait)" pick] prp.run_fresh [of rs dst pick]
    cxp.run_fresh [of cs "(conn, seq, body)" pick] tmp.run_fresh [of ts timeout pick] assms
  by simp

theorem pools_hand_out_fresh_objects_witness:
  "fst (PendingWritePool_acquire ([1], True)
      (pool_run PendingWritePool_acquire PendingWritePool_release new_pool
        [Release \<lparr>pw_buf = [2], pw_wait = True, pw_err = Some EOF, pw_wg = 0\<rparr>]) (Some 0)) =
    \<lparr>pw_buf = [1], pw_wait = True, pw_err = None, pw_wg = 0\<rparr> \<and>
   fst (TimerPool_acquire 3
      (pool_run TimerPool_acquire TimerPool_release new_pool
        [Release \<lparr>tm_armed = None, tm_fired = True\<rparr>]) (Some 0)) =
    \<lparr>tm_armed = Some 3, tm_fired = False\<rparr>"
  using pools_hand_out_fresh_objects
    [of "[Release \<lparr>pw_buf = [2], pw_wait = True, pw_err = Some EOF, pw_wg = 0\<rparr>]" "[]"
      "[Release \<lparr>tm_armed = None, tm_fired = True\<rparr>]" "[1]" True "Some 0" None None 0 "[]" "[]" 3]
  by simp

text \<open>
  The metrics count what they say: while the ticker runs often enough that fewer than
  \<open>2 ^ 32\<close> events happen between two ticks, the accumulated counter plus the current one is
  the number of new objects, of reuses and of objects put back, modulo \<open>2 ^ 64\<close>.
\<close>

lemma pool_metrics_exact:
  assumes "ticks_often es"
  shows "pm_naa (metric_run es) + ucast (pm_na (metric_run es)) = of_nat (count_list es NewObject) \<and>
    pm_nra (metric_run es) + ucast (pm_nr (metric_run es)) = of_nat (count_list es Reuse) \<and>
    pm_npa (metric_run es) + ucast (pm_np (metric_run es)) = of_nat (count_list es PutBack)"
  using mna.exact [OF assms] mnr.exact [OF assms] mnp.exact [OF assms] by simp

end
