(* ===== verification/Transmit_Conn.thy ===== *)
theory Transmit_Conn
  imports Transmit_IO Transmit_Pools
begin

text \<open>
  \<^verbatim>\<open>streaming_transmit/conn.go\<close>, the parts that do not depend on the scheduler: the
  configuration with its defaults, sequence numbers, the message format, and the operations
  that run under the connection's mutex. Pending writes and requests live in a store and are
  named by the call they belong to. The loops and their interleaving are in
  \<^verbatim>\<open>Conn_Machine\<close>.
\<close>

section \<open>Configuration\<close>

type_synonym Handler = "Context \<Rightarrow> goerr option"

definition DefaultHandler :: Handler where
  "DefaultHandler ctx = None"

record ConnConfig =
  cf_Handler :: "Handler option"
  cf_ReadBufferSize :: int
  cf_WriteBufferSize :: int
  cf_ReadTimeout :: int
  cf_WriteTimeout :: int
  cf_SeqOffset :: u32
  cf_SeqDelta :: u32

definition DefaultReadBufferSize :: int where "DefaultReadBufferSize = 4096"
definition DefaultWriteBufferSize :: int where "DefaultWriteBufferSize = 4096"
definition DefaultReadTimeout :: int where "DefaultReadTimeout = 3 * 10 ^ 9"
definition DefaultWriteTimeout :: int where "DefaultWriteTimeout = 3 * 10 ^ 9"
definition DefaultSeqOffset :: u32 where "DefaultSeqOffset = 1"
definition DefaultSeqDelta :: u32 where "DefaultSeqDelta = 2"

definition getHandler :: "ConnConfig \<Rightarrow> Handler" where
  "getHandler c = (case cf_Handler c of None \<Rightarrow> DefaultHandler | Some h \<Rightarrow> h)"

definition getReadBufferSize :: "ConnConfig \<Rightarrow> int" where
  "getReadBufferSize c =
     (if cf_ReadBufferSize c \<le> 0 then DefaultReadBufferSize else cf_ReadBufferSize c)"

definition getWriteBufferSize :: "ConnConfig \<Rightarrow> int" where
  "getWriteBufferSize c =
     (if cf_WriteBufferSize c \<le> 0 then DefaultWriteBufferSize else cf_WriteBufferSize c)"

definition getReadTimeout :: "ConnConfig \<Rightarrow> int" where
  "getReadTimeout c = (if cf_ReadTimeout c < 0 then DefaultReadTimeout else cf_ReadTimeout c)"

definition getWriteTimeout :: "ConnConfig \<Rightarrow> int" where
  "getWriteTimeout c = (if cf_WriteTimeout c < 0 then DefaultWriteTimeout else cf_WriteTimeout c)"

definition getSeqOffset :: "ConnConfig \<Rightarrow> u32" where
  "getSeqOffset c = (if cf_SeqOffset c = 0 then DefaultSeqOffset else cf_SeqOffset c)"

definition getSeqDelta :: "ConnConfig \<Rightarrow> u32" where
  "getSeqDelta c = (if cf_SeqDelta c = 0 then DefaultSeqDelta else cf_SeqDelta c)"

section \<open>State\<close>

text \<open>
  The mutable fields of \<^verbatim>\<open>Conn\<close> with the store of pending writes and requests that its
  queue and its request map point into, and whether some goroutine has panicked.
\<close>

record Conn =
  writerQueue :: "nat list"
  writerDone :: bool
  reqs :: "u32 \<rightharpoonup> nat"
  seq :: u32
  pws :: "nat \<Rightarrow> pendingWrite"
  prs :: "nat \<Rightarrow> pendingRequest"
  panicked :: bool

definition pw_init :: pendingWrite where
  "pw_init = \<lparr>pw_buf = [], pw_wait = False, pw_err = None, pw_wg = 0\<rparr>"

definition pr_init :: pendingRequest where
  "pr_init = \<lparr>pr_dst = None, pr_err = None, pr_wg = 0\<rparr>"

definition Conn_init :: Conn where
  "Conn_init = \<lparr>writerQueue = [], writerDone = False, reqs = Map.empty, seq = 0,
     pws = (\<lambda>_. pw_init), prs = (\<lambda>_. pr_init), panicked = False\<rparr>"

section \<open>Messages\<close>

text \<open>
  The buffer \<^verbatim>\<open>send\<close> and \<^verbatim>\<open>sendNoWait\<close> fill: \<open>B\<close> is what the pooled byte buffer held.
\<close>

definition send_buf :: "bytesutil \<Rightarrow> bytes \<Rightarrow> u32 \<Rightarrow> bytes \<Rightarrow> bytes" where
  "send_buf bu B sq payload =
     (let buf = ExtendSlice bu B (4 + length payload);
          buf = overlay buf 0 (be_put32 sq)
      in overlay buf 4 payload)"

text \<open>How \<^verbatim>\<open>readLoop\<close> takes a message apart.\<close>

definition parse_message :: "bytesutil \<Rightarrow> bytes \<Rightarrow> goerr + (u32 \<times> bytes)" where
  "parse_message bu data =
     (if length data < 4
      then Inl (Wrapf ''no sequence number to decode: %w'' [] ErrUnexpectedEOF)
      else Inr (Uint32BE bu data, drop 4 data))"

section \<open>Operations under the mutex\<close>

definition NumOfPendingWrites :: "Conn \<Rightarrow> nat" where
  "NumOfPendingWrites c = length (writerQueue c)"

definition Conn_next :: "ConnConfig \<Rightarrow> Conn \<Rightarrow> u32 \<times> Conn" where
  "Conn_next cf c =
     (let c = (if seq c = 0 then c\<lparr>seq := getSeqOffset cf\<rparr>
               else c\<lparr>seq := seq c + getSeqDelta cf\<rparr>)
      in (seq c, c))"

definition err_shutdown :: goerr where
  "err_shutdown = Wrapf ''node is shut down: %w'' [] EOF"

definition preparePendingWrite :: "Conn \<Rightarrow> nat \<Rightarrow> bytes \<Rightarrow> bool \<Rightarrow> goerr option \<times> Conn" where
  "preparePendingWrite c t buf wait =
     (if writerDone c then (Some err_shutdown, c)
      else
        (None, c\<lparr>pws := (pws c)(t := \<lparr>pw_buf = buf, pw_wait = wait, pw_err = None,
                                 pw_wg = (if wait then 1 else 0)\<rparr>),
                 writerQueue := writerQueue c @ [t]\<rparr>))"

definition closeWriter :: "Conn \<Rightarrow> Conn" where
  "closeWriter c = c\<lparr>writerDone := True\<rparr>"

text \<open>\<^verbatim>\<open>wg.Done()\<close> panics when the counter goes below zero.\<close>

definition pw_Done :: "nat \<Rightarrow> Conn \<Rightarrow> Conn" where
  "pw_Done t c = c\<lparr>pws := (pws c)(t := (pws c t)\<lparr>pw_wg := pw_wg (pws c t) - 1\<rparr>),
     panicked := (panicked c \<or> pw_wg (pws c t) \<le> 0)\<rparr>"

definition pr_Done :: "nat \<Rightarrow> Conn \<Rightarrow> Conn" where
  "pr_Done t c = c\<lparr>prs := (prs c)(t := (prs c t)\<lparr>pr_wg := pr_wg (prs c t) - 1\<rparr>),
     panicked := (panicked c \<or> pr_wg (prs c t) \<le> 0)\<rparr>"

text \<open>
  What the write loop and \<^verbatim>\<open>close\<close> do with one pending write once its outcome is known: a
  waiting caller gets the error and is woken; otherwise buffer and object go back to their
  pools.
\<close>

definition finish_write :: "goerr option \<Rightarrow> nat \<Rightarrow> Conn \<Rightarrow> Conn" where
  "finish_write err t c =
     (if pw_wait (pws c t)
      then pw_Done t (c\<lparr>pws := (pws c)(t := (pws c t)\<lparr>pw_err := err\<rparr>)\<rparr>)
      else c)"

definition fail_request :: "goerr \<Rightarrow> nat \<Rightarrow> Conn \<Rightarrow> Conn" where
  "fail_request err t c = pr_Done t (c\<lparr>prs := (prs c)(t := (prs c t)\<lparr>pr_err := Some err\<rparr>)\<rparr>)"

text \<open>
  \<^verbatim>\<open>close(err)\<close>; \<open>order\<close> is the order in which the run time iterates over the request map.
\<close>

definition close_requests :: "goerr \<Rightarrow> u32 list \<Rightarrow> Conn \<Rightarrow> Conn" where
  "close_requests err order c =
     fold (\<lambda>sq c. case reqs c sq of
                    None \<Rightarrow> c
                  | Some t \<Rightarrow> (fail_request err t c)\<lparr>reqs := (reqs c)(sq := None)\<rparr>) order c"

definition Conn_close :: "goerr \<Rightarrow> u32 list \<Rightarrow> Conn \<Rightarrow> Conn" where
  "Conn_close err order c =
     (let c = fold (finish_write (Some err)) (writerQueue c) c;
          c = c\<lparr>writerQueue := []\<rparr>;
          c = close_requests err order c
      in c\<lparr>seq := 0\<rparr>)"

text \<open>The critical section of \<^verbatim>\<open>writeLoop\<close>: take the whole queue.\<close>

definition take_queue :: "Conn \<Rightarrow> nat list \<times> bool \<times> Conn" where
  "take_queue c = (writerQueue c, writerDone c, c\<lparr>writerQueue := []\<rparr>)"

text \<open>The critical section of \<^verbatim>\<open>readLoop\<close>: look the sequence number up and remove it.\<close>

definition take_request :: "u32 \<Rightarrow> Conn \<Rightarrow> nat option \<times> Conn" where
  "take_request sq c =
     (case reqs c sq of
        None \<Rightarrow> (None, c)
      | Some t \<Rightarrow> (Some t, c\<lparr>reqs := (reqs c)(sq := None)\<rparr>))"

text \<open>Delivery of a response: copy the payload and wake the requester.\<close>

definition deliver_response :: "bytesutil \<Rightarrow> nat \<Rightarrow> bytes \<Rightarrow> Conn \<Rightarrow> Conn" where
  "deliver_response bu t data c =
     (let dst = (case pr_dst (prs c t) of None \<Rightarrow> [] | Some d \<Rightarrow> d);
          dst = overlay (ExtendSlice bu dst (length data)) 0 data
      in pr_Done t (c\<lparr>prs := (prs c)(t := (prs c t)\<lparr>pr_dst := Some dst\<rparr>)\<rparr>))"

section \<open>Lemmas on messages\<close>

context bytesutil_spec
begin

lemma send_buf_eq: "send_buf bu B sq payload = be_put32 sq @ payload"
  by (simp add: send_buf_def overlay_def length_ExtendSlice)

lemma parse_message_send_buf: "parse_message bu (send_buf bu B sq payload) = Inr (sq, payload)"
  by (simp add: send_buf_eq parse_message_def)

lemma overlay_extend_all: "overlay (ExtendSlice bu d (length data)) 0 data = data"
  by (simp add: length_ExtendSlice)

end

section \<open>Sequence numbers\<close>

text \<open>The numbers that \<open>n\<close> calls of \<^verbatim>\<open>next\<close> hand out.\<close>

fun next_seqs :: "ConnConfig \<Rightarrow> Conn \<Rightarrow> nat \<Rightarrow> u32 list" where
  "next_seqs cf c 0 = []"
| "next_seqs cf c (Suc n) = (case Conn_next cf c of (s, c) \<Rightarrow> s # next_seqs cf c n)"

text \<open>The configurations that \<^verbatim>\<open>Client\<close> and \<^verbatim>\<open>Server\<close> use by default.\<close>

definition client_seqs :: "ConnConfig \<Rightarrow> bool" where
  "client_seqs cf \<longleftrightarrow> getSeqOffset cf = 1 \<and> getSeqDelta cf = 2"

definition server_seqs :: "ConnConfig \<Rightarrow> bool" where
  "server_seqs cf \<longleftrightarrow> getSeqOffset cf = 2 \<and> getSeqDelta cf = 2"

lemma next_seqs_from:
  assumes "\<And>i. i < n \<Longrightarrow> s + of_nat i * getSeqDelta cf \<noteq> 0"
    and "seq c = s" "s \<noteq> 0"
  shows "next_seqs cf c n = map (\<lambda>i. s + of_nat (Suc i) * getSeqDelta cf) [0..<n]"
  using assms
proof (induction n arbitrary: c s)
  case 0
  then show ?case by simp
next
  case (Suc n)
  let ?c = "c\<lparr>seq := s + getSeqDelta cf\<rparr>"
  have st: "Conn_next cf c = (s + getSeqDelta cf, ?c)"
    using Suc.prems by (simp add: Conn_next_def)
  have "next_seqs cf ?c n = map (\<lambda>i. s + getSeqDelta cf + of_nat (Suc i) * getSeqDelta cf) [0..<n]"
  proof (cases n)
    case (Suc m)
    show ?thesis
    proof (rule Suc.IH)
      show "s + getSeqDelta cf + of_nat i * getSeqDelta cf \<noteq> 0" if "i < n" for i
        using Suc.prems(1) [of "Suc i"] that by (simp add: algebra_simps)
      then show "s + getSeqDelta cf \<noteq> 0" using Suc by force
    qed simp
  qed simp
  moreover have "[0..<Suc n] = 0 # map Suc [0..<n]"
    by (simp only: upt_conv_Cons map_Suc_upt zero_less_Suc)
  ultimately show ?case by (simp add: st o_def algebra_simps)
qed

lemma next_seqs_start:
  assumes "seq c = 0" and "getSeqOffset cf = of_nat k" and "getSeqDelta cf = 2"
    and "\<And>i. i < n \<Longrightarrow> (of_nat (2 * i + k) :: u32) \<noteq> 0"
  shows "next_seqs cf c n = map (\<lambda>i. of_nat (2 * i + k)) [0..<n]"
proof (cases n)
  case (Suc m)
  let ?c = "c\<lparr>seq := of_nat k\<rparr>"
  have "next_seqs cf ?c m = map (\<lambda>i. of_nat k + of_nat (Suc i) * getSeqDelta cf) [0..<m]"
  proof (rule next_seqs_from)
    show "of_nat k + of_nat i * getSeqDelta cf \<noteq> 0" if "i < m" for i
      using assms(4) [of i] that Suc assms(3) by (simp add: algebra_simps)
    show "(of_nat k :: u32) \<noteq> 0" using assms(4) [of 0] Suc by simp
  qed simp
  moreover have "[0..<Suc m] = 0 # map Suc [0..<m]"
    by (simp only: upt_conv_Cons map_Suc_upt zero_less_Suc)
  ultimately show ?thesis
    using assms(1-3) by (simp add: Suc Conn_next_def o_def algebra_simps)
qed simp

lemma client_next_seqs:
  assumes "client_seqs cf" and "seq c = 0"
  shows "next_seqs cf c n = map (\<lambda>i. of_nat (2 * i + 1)) [0..<n]"
proof -
  have "(of_nat (2 * i + 1) :: u32) \<noteq> 0" for i by (rule odd_not_0) simp
  then show ?thesis
    by (intro next_seqs_start) (use assms in \<open>auto simp: client_seqs_def\<close>)
qed

section \<open>Properties\<close>

text \<open>
  Messages round trip: whatever the pooled buffer held before, the bytes \<^verbatim>\<open>send\<close> and
  \<^verbatim>\<open>sendNoWait\<close> queue are taken apart by \<^verbatim>\<open>readLoop\<close> into the same sequence number and
  the same payload.
\<close>

lemma message_roundtrip:
  assumes "bytesutil_spec bu"
  shows "parse_message bu (send_buf bu B sq payload) = Inr (sq, payload)"
  by (rule bytesutil_spec.parse_message_send_buf [OF assms])

text \<open>
  The sequence numbers of a client: with offset 1 and step 2 the numbers are the odd
  numbers in order. None of them is 0, the number reserved for messages that expect no
  response, however many are handed out, and the first \<open>2 ^ 31\<close> are pairwise different.
\<close>

lemma client_sequence_numbers:
  assumes "client_seqs cf" and "seq c = 0"
  shows "next_seqs cf c n = map (\<lambda>i. of_nat (2 * i + 1)) [0..<n] \<and> 0 \<notin> set (next_seqs cf c n) \<and>
    (n \<le> 2 ^ 31 \<longrightarrow> distinct (next_seqs cf c n))"
proof -
  have nz: "(of_nat (2 * i + 1) :: u32) \<noteq> 0" for i by (rule odd_not_0) simp
  note client_next_seqs [OF assms, of n]
  moreover have "0 \<notin> set (map (\<lambda>i. of_nat (2 * i + 1) :: u32) [0..<n])"
    using nz by force
  moreover have "n \<le> 2 ^ 31 \<Longrightarrow> distinct (map (\<lambda>i. of_nat (2 * i + 1) :: u32) [0..<n])"
    by (auto simp: distinct_map inj_on_def u32_of_nat_inj simp del: of_nat_add of_nat_mult)
  ultimately show ?thesis by simp
qed

definition client_config :: ConnConfig where
  "client_config = \<lparr>cf_Handler = None, cf_ReadBufferSize = 0, cf_WriteBufferSize = 0,
     cf_ReadTimeout = 0, cf_WriteTimeout = 0, cf_SeqOffset = 1, cf_SeqDelta = 2\<rparr>"

text \<open>
  (C29) The sequence numbers of a server: with offset 2 and step 2, up to \<open>2 ^ 31 - 1\<close> calls
  hand out the even numbers from 2, pairwise different and never 0, so a request made by the
  server never carries a number that its peer, a client, uses for its own requests.
\<close>

theorem server_sequence_numbers:
  assumes "server_seqs cf" and "seq c = 0" and "n < 2 ^ 31"
    and "client_seqs cf'" and "seq c' = 0"
  shows "next_seqs cf c n = map (\<lambda>i. of_nat (2 * i + 2)) [0..<n] \<and> 0 \<notin> set (next_seqs cf c n) \<and>
    distinct (next_seqs cf c n) \<and> set (next_seqs cf c n) \<inter> set (next_seqs cf' c' m) = {}"
proof -
  have nz: "(of_nat (2 * i + 2) :: u32) \<noteq> 0" if "i < n" for i
    using that assms(3) u32_of_nat_inj [of "2 * i + 2" 0] by simp
  have eq: "next_seqs cf c n = map (\<lambda>i. of_nat (2 * i + 2)) [0..<n]"
    by (rule next_seqs_start) (use assms(1,2) nz in \<open>auto simp: server_seqs_def\<close>)
  note eq' = client_next_seqs [OF assms(4,5), of m]
  have "(of_nat (2 * i + 2) :: u32) \<noteq> of_nat (2 * j + 1)" for i j
    using u32_parity [of "2 * i + 2" "2 * j + 1"] by auto
  moreover have "distinct (map (\<lambda>i. of_nat (2 * i + 2) :: u32) [0..<n])"
    using assms(3)
    by (auto simp: distinct_map inj_on_def u32_of_nat_inj simp del: of_nat_add of_nat_mult of_nat_Suc)
  moreover have "0 \<notin> set (map (\<lambda>i. of_nat (2 * i + 2) :: u32) [0..<n])"
    using nz by force
  ultimately show ?thesis by (auto simp: eq eq' simp del: of_nat_add of_nat_mult)
qed

text \<open>
  Where the server's numbers run out: after \<open>2 ^ 31 - 1\<close> requests the next one gets the
  number 0, which the peer answers to as if it were no request, and the one after that starts
  over at 2.
\<close>

lemma server_sequence_wraps_to_0:
  assumes "server_seqs cf" and "seq c = 2 * (2 ^ 31 - 1)"
  shows "next_seqs cf c 2 = [0, 2]"
proof -
  have "next_seqs cf c (Suc (Suc 0)) = [0, 2]"
    using assms by (simp add: server_seqs_def Conn_next_def)
  then show ?thesis by (simp only: numeral_2_eq_2)
qed

definition server_config :: ConnConfig where
  "server_config = client_config\<lparr>cf_SeqOffset := 2\<rparr>"

lemma server_config_seqs: "server_seqs server_config"
  by (simp add: server_config_def client_config_def server_seqs_def getSeqOffset_def getSeqDelta_def)

lemma client_config_seqs: "client_seqs client_config"
  by (simp add: client_config_def client_seqs_def getSeqOffset_def getSeqDelta_def)

theorem server_sequence_numbers_witness:
  "next_seqs server_config Conn_init 2 = [2, 4] \<and>
   set (next_seqs server_config Conn_init 2) \<inter> set (next_seqs client_config Conn_init 5) = {}"
proof -
  have "seq Conn_init = 0" by (simp add: Conn_init_def)
  from server_sequence_numbers [OF server_config_seqs this _ client_config_seqs this, of 2 5]
  show ?thesis by (auto simp: upt_rec)
qed

end
