(* ===== verification/Conn_Machine.thy ===== *)
theory Conn_Machine
  imports Transmit_Conn "HOL-Library.Sublist"
begin

text \<open>
  \<^verbatim>\<open>streaming_transmit/conn.go\<close> as a machine: any number of calls of \<^verbatim>\<open>Send\<close>,
  \<^verbatim>\<open>Reply\<close>, \<^verbatim>\<open>SendNoWait\<close> and \<^verbatim>\<open>Request\<close> run beside \<^verbatim>\<open>writeLoop\<close>, \<^verbatim>\<open>readLoop\<close> and
  \<^verbatim>\<open>Handle\<close>, each between its critical sections. A step is one critical section, one
  operation on the connection, or one wake-up; what the connection, the peer and the handlers
  do is not determined. In particular an operation on the connection takes its step whenever it
  returns, which without a timeout may be never. Calls are numbered, and the number names the
  pending object of the call: the pools hand an object to one call at a time, and what a read loop
  writes into an object that its call has already given back is not followed. The last three fields of the state are ghosts: the calls whose message was accepted
  into the queue, those whose message was written, and the response each call received.
\<close>

datatype caller =
    Idle
  | SendWait
  | SendDone "goerr option"
  | NoWaitDone "goerr option"
  | ReqSeq u32
  | ReqReg u32
  | ReqFail u32 goerr
  | ReqUndo u32 goerr
  | ReqWait u32
  | ReqDone u32 "bytes option" "goerr option"

datatype wloop =
    WIdle
  | WDeadline "nat list"
  | WFail "nat list" goerr
  | WBatch "nat list" "goerr option"
  | WDone "goerr option"

datatype rloop = RIdle | RHandler u32 bytes | RDeliver nat u32 bytes | RDone goerr

datatype hstate =
    HSelect
  | HDrain
  | HShut "goerr option"
  | HWaitReader "goerr option"
  | HWaitWriter goerr
  | HShutLast goerr
  | HRet goerr
  | HClosed goerr

record sys =
  cn :: Conn
  pc :: "nat \<Rightarrow> caller"
  wl :: wloop
  rl :: rloop
  hp :: hstate
  sock_shut :: bool
  acc :: "nat list"
  sent :: "nat list"
  got :: "nat \<Rightarrow> (u32 \<times> bytes) option"

definition sys_init :: sys where
  "sys_init = \<lparr>cn = Conn_init, pc = (\<lambda>_. Idle), wl = WIdle, rl = RIdle, hp = HSelect,
     sock_shut = False, acc = [], sent = [], got = (\<lambda>_. None)\<rparr>"

section \<open>Calls\<close>

inductive call_step :: "bytesutil \<Rightarrow> ConnConfig \<Rightarrow> sys \<Rightarrow> sys \<Rightarrow> bool"
  for bu :: bytesutil and cf :: ConnConfig where
  send: "pc s t = Idle \<Longrightarrow>
     preparePendingWrite (cn s) t (send_buf bu B sq p) True = (None, c) \<Longrightarrow>
     call_step bu cf s (s\<lparr>cn := c, pc := (pc s)(t := SendWait), acc := acc s @ [t]\<rparr>)"
| send_refused: "pc s t = Idle \<Longrightarrow>
     preparePendingWrite (cn s) t (send_buf bu B sq p) True = (Some e, c) \<Longrightarrow>
     call_step bu cf s (s\<lparr>cn := c, pc := (pc s)(t := SendDone (Some e))\<rparr>)"
| send_return: "pc s t = SendWait \<Longrightarrow> pw_wg (pws (cn s) t) = 0 \<Longrightarrow>
     call_step bu cf s (s\<lparr>pc := (pc s)(t := SendDone (pw_err (pws (cn s) t)))\<rparr>)"
| nowait: "pc s t = Idle \<Longrightarrow>
     preparePendingWrite (cn s) t (send_buf bu B 0 p) False = (None, c) \<Longrightarrow>
     call_step bu cf s (s\<lparr>cn := c, pc := (pc s)(t := NoWaitDone None), acc := acc s @ [t]\<rparr>)"
| nowait_refused: "pc s t = Idle \<Longrightarrow>
     preparePendingWrite (cn s) t (send_buf bu B 0 p) False = (Some e, c) \<Longrightarrow>
     call_step bu cf s (s\<lparr>cn := c, pc := (pc s)(t := NoWaitDone (Some e))\<rparr>)"
| req_next: "pc s t = Idle \<Longrightarrow> Conn_next cf (cn s) = (sq, c) \<Longrightarrow>
     call_step bu cf s
       (s\<lparr>cn := c\<lparr>prs := (prs c)(t := \<lparr>pr_dst = dst, pr_err = None, pr_wg = 1\<rparr>)\<rparr>,
          pc := (pc s)(t := ReqSeq sq)\<rparr>)"
| req_register: "pc s t = ReqSeq sq \<Longrightarrow>
     call_step bu cf s
       (s\<lparr>cn := (cn s)\<lparr>reqs := (reqs (cn s))(sq \<mapsto> t)\<rparr>, pc := (pc s)(t := ReqReg sq)\<rparr>)"
| req_send: "pc s t = ReqReg sq \<Longrightarrow>
     preparePendingWrite (cn s) t (send_buf bu B sq p) False = (None, c) \<Longrightarrow>
     call_step bu cf s (s\<lparr>cn := c, pc := (pc s)(t := ReqWait sq), acc := acc s @ [t]\<rparr>)"
| req_refused: "pc s t = ReqReg sq \<Longrightarrow>
     preparePendingWrite (cn s) t (send_buf bu B sq p) False = (Some e, c) \<Longrightarrow>
     call_step bu cf s (s\<lparr>cn := c, pc := (pc s)(t := ReqFail sq e)\<rparr>)"
| req_fail_done: "pc s t = ReqFail sq e \<Longrightarrow>
     call_step bu cf s (s\<lparr>cn := pr_Done t (cn s), pc := (pc s)(t := ReqUndo sq e)\<rparr>)"
| req_fail_delete: "pc s t = ReqUndo sq e \<Longrightarrow>
     call_step bu cf s
       (s\<lparr>cn := (cn s)\<lparr>reqs := (reqs (cn s))(sq := None)\<rparr>,
          pc := (pc s)(t := ReqDone sq None (Some e))\<rparr>)"
| req_return: "pc s t = ReqWait sq \<Longrightarrow> pr_wg (prs (cn s) t) = 0 \<Longrightarrow>
     call_step bu cf s
       (s\<lparr>pc := (pc s)(t := ReqDone sq (pr_dst (prs (cn s) t)) (pr_err (prs (cn s) t)))\<rparr>)"

section \<open>The write loop\<close>

definition write_loop_err :: "goerr \<Rightarrow> goerr" where
  "write_loop_err e = Wrapf ''write_loop: %w'' [] e"

inductive write_step :: "ConnConfig \<Rightarrow> sys \<Rightarrow> sys \<Rightarrow> bool" for cf :: ConnConfig where
  w_take: "wl s = WIdle \<Longrightarrow> take_queue (cn s) = (q, done, c) \<Longrightarrow> done \<or> q \<noteq> [] \<Longrightarrow>
     write_step cf s (s\<lparr>cn := c, wl := (if done \<and> q = [] then WDone None else WDeadline q)\<rparr>)"
| w_deadline: "wl s = WDeadline q \<Longrightarrow> write_step cf s (s\<lparr>wl := WBatch q None\<rparr>)"
| w_deadline_err: "wl s = WDeadline q \<Longrightarrow> getWriteTimeout cf > 0 \<Longrightarrow>
     write_step cf s (s\<lparr>wl := WFail q e\<rparr>)"
| w_fail_item: "wl s = WFail (t # q) e \<Longrightarrow>
     write_step cf s (s\<lparr>cn := finish_write (Some e) t (cn s), wl := WFail q e\<rparr>)"
| w_fail_end: "wl s = WFail [] e \<Longrightarrow>
     write_step cf s (s\<lparr>wl := WDone (Some (write_loop_err e))\<rparr>)"
| w_write: "wl s = WBatch (t # q) None \<Longrightarrow>
     write_step cf s
       (s\<lparr>cn := finish_write None t (cn s), wl := WBatch q None, sent := sent s @ [t]\<rparr>)"
| w_write_err: "wl s = WBatch (t # q) None \<Longrightarrow>
     write_step cf s (s\<lparr>cn := finish_write (Some e) t (cn s), wl := WBatch q (Some e)\<rparr>)"
| w_skip: "wl s = WBatch (t # q) (Some e) \<Longrightarrow>
     write_step cf s (s\<lparr>cn := finish_write (Some e) t (cn s), wl := WBatch q (Some e)\<rparr>)"
| w_end_err: "wl s = WBatch [] (Some e) \<Longrightarrow>
     write_step cf s (s\<lparr>wl := WDone (Some (write_loop_err e))\<rparr>)"
| w_flush: "wl s = WBatch [] None \<Longrightarrow> write_step cf s (s\<lparr>wl := WIdle\<rparr>)"
| w_flush_err: "wl s = WBatch [] None \<Longrightarrow>
     write_step cf s (s\<lparr>wl := WDone (Some (write_loop_err e))\<rparr>)"

section \<open>The read loop\<close>

definition read_loop_err :: "goerr \<Rightarrow> goerr" where
  "read_loop_err e = Wrapf ''read_loop: %w'' [] e"

definition handler_err :: "goerr \<Rightarrow> goerr" where
  "handler_err e = Wrapf ''handler encountered an error: %w'' [] e"

inductive read_step :: "bytesutil \<Rightarrow> sys \<Rightarrow> sys \<Rightarrow> bool" for bu :: bytesutil where
  r_fail: "rl s = RIdle \<Longrightarrow> read_step bu s (s\<lparr>rl := RDone (read_loop_err e)\<rparr>)"
| r_short: "rl s = RIdle \<Longrightarrow> parse_message bu d = Inl e \<Longrightarrow>
     read_step bu s (s\<lparr>rl := RDone (read_loop_err e)\<rparr>)"
| r_message: "rl s = RIdle \<Longrightarrow> parse_message bu d = Inr (sq, data) \<Longrightarrow>
     take_request sq (cn s) = (pr, c) \<Longrightarrow>
     read_step bu s
       (s\<lparr>cn := c,
          rl := (case pr of
                   None \<Rightarrow> RHandler sq data
                 | Some t \<Rightarrow> if sq = 0 then RHandler sq data else RDeliver t sq data)\<rparr>)"
| r_deliver: "rl s = RDeliver t sq data \<Longrightarrow>
     read_step bu s
       (s\<lparr>cn := deliver_response bu t data (cn s), rl := RIdle,
          got := (got s)(t := Some (sq, data))\<rparr>)"
| r_handled: "rl s = RHandler sq data \<Longrightarrow> read_step bu s (s\<lparr>rl := RIdle\<rparr>)"
| r_handler_err: "rl s = RHandler sq data \<Longrightarrow>
     read_step bu s (s\<lparr>rl := RDone (read_loop_err (handler_err e))\<rparr>)"

section \<open>Handle and close\<close>

text \<open>
  The three branches of the select in \<^verbatim>\<open>Handle\<close>: the owner is done, the write loop has returned,
  or the read loop has. Each closes the writer and then, at its own place, the connection itself,
  which \<open>sock_shut\<close> records.
\<close>

inductive handle_step :: "sys \<Rightarrow> sys \<Rightarrow> bool" where
  h_done: "hp s = HSelect \<Longrightarrow>
     handle_step s (s\<lparr>cn := closeWriter (cn s), hp := HDrain\<rparr>)"
| h_drained: "hp s = HDrain \<Longrightarrow> wl s = WDone we \<Longrightarrow>
     handle_step s (s\<lparr>hp := HShut we\<rparr>)"
| h_writer: "hp s = HSelect \<Longrightarrow> wl s = WDone we \<Longrightarrow>
     handle_step s (s\<lparr>cn := closeWriter (cn s), hp := HShut we\<rparr>)"
| h_shut: "hp s = HShut we \<Longrightarrow> handle_step s (s\<lparr>sock_shut := True, hp := HWaitReader we\<rparr>)"
| h_wait_reader: "hp s = HWaitReader we \<Longrightarrow> rl s = RDone re \<Longrightarrow>
     handle_step s (s\<lparr>hp := HRet (case we of None \<Rightarrow> re | Some e \<Rightarrow> e)\<rparr>)"
| h_reader: "hp s = HSelect \<Longrightarrow> rl s = RDone re \<Longrightarrow>
     handle_step s (s\<lparr>cn := closeWriter (cn s), hp := HWaitWriter re\<rparr>)"
| h_wait_writer: "hp s = HWaitWriter re \<Longrightarrow> wl s = WDone we \<Longrightarrow>
     handle_step s (s\<lparr>hp := HShutLast re\<rparr>)"
| h_shut_last: "hp s = HShutLast re \<Longrightarrow> handle_step s (s\<lparr>sock_shut := True, hp := HRet re\<rparr>)"
| h_close: "hp s = HRet e \<Longrightarrow> distinct order \<Longrightarrow> set order = dom (reqs (cn s)) \<Longrightarrow>
     handle_step s (s\<lparr>cn := Conn_close e order (cn s), hp := HClosed e\<rparr>)"

section \<open>Runs\<close>

text \<open>A panic in any goroutine ends the process: nothing happens after it.\<close>

inductive conn_step :: "bytesutil \<Rightarrow> ConnConfig \<Rightarrow> sys \<Rightarrow> sys \<Rightarrow> bool"
  for bu :: bytesutil and cf :: ConnConfig where
  by_call: "\<not> panicked (cn s) \<Longrightarrow> call_step bu cf s s' \<Longrightarrow> conn_step bu cf s s'"
| by_writer: "\<not> panicked (cn s) \<Longrightarrow> write_step cf s s' \<Longrightarrow> conn_step bu cf s s'"
| by_reader: "\<not> panicked (cn s) \<Longrightarrow> read_step bu s s' \<Longrightarrow> conn_step bu cf s s'"
| by_handle: "\<not> panicked (cn s) \<Longrightarrow> handle_step s s' \<Longrightarrow> conn_step bu cf s s'"

inductive conn_reachable :: "bytesutil \<Rightarrow> ConnConfig \<Rightarrow> sys \<Rightarrow> bool"
  for bu :: bytesutil and cf :: ConnConfig where
  start: "conn_reachable bu cf sys_init"
| step: "conn_reachable bu cf s \<Longrightarrow> conn_step bu cf s s' \<Longrightarrow> conn_reachable bu cf s'"

section \<open>What the operations change\<close>

lemma finish_write_frame [simp]:
  "writerQueue (finish_write err t c) = writerQueue c"
  "writerDone (finish_write err t c) = writerDone c"
  "reqs (finish_write err t c) = reqs c" "seq (finish_write err t c) = seq c"
  "prs (finish_write err t c) = prs c"
  by (simp_all add: finish_write_def pw_Done_def)

lemma finish_write_pws:
  "pws (finish_write err t c) = (\<lambda>u. if u = t \<and> pw_wait (pws c t)
     then (pws c t)\<lparr>pw_err := err, pw_wg := pw_wg (pws c t) - 1\<rparr> else pws c u)"
  by (auto simp: finish_write_def pw_Done_def)

lemma finish_write_panicked:
  "panicked (finish_write err t c) \<longleftrightarrow> panicked c \<or> (pw_wait (pws c t) \<and> pw_wg (pws c t) \<le> 0)"
  by (auto simp: finish_write_def pw_Done_def)

lemma fold_finish_write_frame [simp]:
  "writerQueue (fold (finish_write err) q c) = writerQueue c"
  "writerDone (fold (finish_write err) q c) = writerDone c"
  "reqs (fold (finish_write err) q c) = reqs c" "prs (fold (finish_write err) q c) = prs c"
  by (induction q arbitrary: c) simp_all

section \<open>Invariants of the queue\<close>

fun batch :: "wloop \<Rightarrow> nat list" where
  "batch (WDeadline q) = q"
| "batch (WFail q e) = q"
| "batch (WBatch q e) = q"
| "batch w = []"

text \<open>The writes accepted and not finished: what the loop holds, then the queue.\<close>

definition pending :: "sys \<Rightarrow> nat list" where
  "pending s = batch (wl s) @ writerQueue (cn s)"

fun not_queued :: "caller \<Rightarrow> bool" where
  "not_queued Idle = True"
| "not_queued (ReqSeq _) = True"
| "not_queued (ReqReg _) = True"
| "not_queued _ = False"

text \<open>
  The ledger of writes, over the pending writes \<open>P\<close>, the calls \<open>C\<close>, the store \<open>W\<close> and the
  written messages \<open>S\<close>.
\<close>

definition ledger :: "nat list \<Rightarrow> (nat \<Rightarrow> caller) \<Rightarrow> (nat \<Rightarrow> pendingWrite) \<Rightarrow> nat list \<Rightarrow> bool" where
  "ledger P C W S \<longleftrightarrow> distinct P \<and>
     (\<forall>t. t \<in> set P \<longrightarrow> \<not> not_queued (C t) \<and> (pw_wait (W t) \<longleftrightarrow> C t = SendWait) \<and>
        (pw_wait (W t) \<longrightarrow> pw_wg (W t) = 1)) \<and>
     (\<forall>t. C t = SendWait \<and> t \<notin> set P \<longrightarrow>
        pw_wg (W t) = 0 \<and> (pw_err (W t) = None \<longrightarrow> t \<in> set S)) \<and>
     (\<forall>t. C t = SendDone None \<longrightarrow> t \<in> set S)"

definition writes_inv :: "sys \<Rightarrow> bool" where
  "writes_inv s \<longleftrightarrow> ledger (pending s) (pc s) (pws (cn s)) (sent s)"

lemma ledger_enqueue:
  assumes "ledger P C W S" "not_queued (C t)" "pw_wait w \<longleftrightarrow> p = SendWait"
    "pw_wait w \<longrightarrow> pw_wg w = 1" "\<not> not_queued p" "p \<noteq> SendDone None"
  shows "ledger (P @ [t]) (C(t := p)) (W(t := w)) S"
proof -
  have "t \<notin> set P" using assms(1,2) by (auto simp: ledger_def)
  with assms show ?thesis by (auto simp: ledger_def)
qed

lemma ledger_pc:
  assumes "ledger P C W S" "not_queued (C t) \<or> (\<not> not_queued p \<and> C t \<noteq> SendWait)"
    "p \<noteq> SendWait" "p \<noteq> SendDone None"
  shows "ledger P (C(t := p)) W S"
  using assms by (auto simp: ledger_def)

lemma ledger_return:
  assumes "ledger P C W S" "C t = SendWait" "pw_wg (W t) = 0"
  shows "ledger P (C(t := SendDone (pw_err (W t)))) W S"
proof -
  have "t \<notin> set P" using assms by (auto simp: ledger_def)
  with assms show ?thesis by (auto simp: ledger_def)
qed

lemma ledger_finish:
  assumes "ledger (t # P) C (pws c) S" "err = None \<longrightarrow> t \<in> set S'" "set S \<subseteq> set S'"
  shows "ledger P C (pws (finish_write err t c)) S'"
  using assms by (auto simp: ledger_def finish_write_pws)

lemma ledger_no_panic:
  "ledger P C (pws c) S \<Longrightarrow> t \<in> set P \<Longrightarrow> panicked (finish_write err t c) \<longleftrightarrow> panicked c"
  by (auto simp: ledger_def finish_write_panicked)

lemma writes_inv_init: "writes_inv sys_init"
  by (simp add: writes_inv_def ledger_def sys_init_def pending_def Conn_init_def)

lemma prepare_accepted:
  "preparePendingWrite c t buf w = (None, c') \<longleftrightarrow> \<not> writerDone c \<and>
     c' = c\<lparr>pws := (pws c)(t := \<lparr>pw_buf = buf, pw_wait = w, pw_err = None, pw_wg = (if w then 1 else 0)\<rparr>),
            writerQueue := writerQueue c @ [t]\<rparr>"
  by (auto simp: preparePendingWrite_def)

lemma prepare_refused:
  "preparePendingWrite c t buf w = (Some e, c') \<longleftrightarrow> writerDone c \<and> c' = c \<and> e = err_shutdown"
  by (auto simp: preparePendingWrite_def)

lemma next_changes:
  "Conn_next cf c = (sq, c') \<longleftrightarrow> sq = (if seq c = 0 then getSeqOffset cf else seq c + getSeqDelta cf) \<and>
     c' = c\<lparr>seq := sq\<rparr>"
  by (auto simp: Conn_next_def Let_def)

lemma pr_Done_frame [simp]:
  "writerQueue (pr_Done t c) = writerQueue c" "writerDone (pr_Done t c) = writerDone c"
  "reqs (pr_Done t c) = reqs c" "pws (pr_Done t c) = pws c" "seq (pr_Done t c) = seq c"
  by (simp_all add: pr_Done_def)

lemma deliver_frame [simp]:
  "writerQueue (deliver_response bu t d c) = writerQueue c"
  "writerDone (deliver_response bu t d c) = writerDone c"
  "reqs (deliver_response bu t d c) = reqs c" "pws (deliver_response bu t d c) = pws c"
  by (simp_all add: deliver_response_def Let_def)

lemma take_request_eq:
  "take_request sq c = (pr, c') \<longleftrightarrow> pr = reqs c sq \<and> c' = c\<lparr>reqs := (reqs c)(sq := None)\<rparr>"
proof -
  have "c\<lparr>reqs := (reqs c)(sq := None)\<rparr> = c" if "reqs c sq = None"
    using that by (simp add: fun_upd_idem)
  then show ?thesis by (auto simp: take_request_def split: option.splits)
qed

lemmas call_simps = prepare_accepted prepare_refused next_changes

lemma writes_inv_call: "call_step bu cf s s' \<Longrightarrow> writes_inv s \<Longrightarrow> writes_inv s'"
proof (induction rule: call_step.induct)
  case (send s t B sq p c)
  then show ?case
    using ledger_enqueue [where P = "pending s" and t = t and p = SendWait]
    by (simp add: writes_inv_def pending_def call_simps)
next
  case (nowait s t B p c)
  then show ?case
    using ledger_enqueue [where P = "pending s" and t = t and p = "NoWaitDone None"]
    by (simp add: writes_inv_def pending_def call_simps)
next
  case (req_send s t sq B p c)
  then show ?case
    using ledger_enqueue [where P = "pending s" and t = t and p = "ReqWait sq"]
    by (simp add: writes_inv_def pending_def call_simps)
qed (auto simp: writes_inv_def pending_def call_simps intro!: ledger_pc ledger_return)

lemma writes_inv_write: "write_step cf s s' \<Longrightarrow> writes_inv s \<Longrightarrow> writes_inv s'"
  by (induction rule: write_step.induct)
    (auto simp: writes_inv_def pending_def take_queue_def elim!: ledger_finish)

lemma writes_inv_read: "read_step bu s s' \<Longrightarrow> writes_inv s \<Longrightarrow> writes_inv s'"
  by (induction rule: read_step.induct)
    (auto simp: writes_inv_def pending_def take_request_eq)

section \<open>Closing\<close>

lemma close_requests_frame [simp]:
  "writerQueue (close_requests e order c) = writerQueue c"
  "writerDone (close_requests e order c) = writerDone c"
  "pws (close_requests e order c) = pws c"
proof -
  have "writerQueue (close_requests e order c) = writerQueue c \<and>
    writerDone (close_requests e order c) = writerDone c \<and> pws (close_requests e order c) = pws c"
    unfolding close_requests_def
    by (induction order arbitrary: c) (simp_all add: fail_request_def split: option.split)
  then show "writerQueue (close_requests e order c) = writerQueue c"
    "writerDone (close_requests e order c) = writerDone c"
    "pws (close_requests e order c) = pws c" by simp_all
qed

text \<open>
  What closing does to the requests, when no call is registered under two sequence numbers:
  every registered call gets the error and is woken, and the map ends empty.
\<close>

lemma close_requests_effect:
  assumes "distinct order" "dom (reqs c) = set order"
    and "\<And>a b t. reqs c a = Some t \<Longrightarrow> reqs c b = Some t \<Longrightarrow> a = b"
  shows "reqs (close_requests e order c) = Map.empty \<and>
    prs (close_requests e order c) = (\<lambda>t. if t \<in> ran (reqs c)
      then (prs c t)\<lparr>pr_err := Some e, pr_wg := pr_wg (prs c t) - 1\<rparr> else prs c t) \<and>
    (panicked (close_requests e order c) \<longleftrightarrow>
      panicked c \<or> (\<exists>t \<in> ran (reqs c). pr_wg (prs c t) \<le> 0))"
  using assms
proof (induction order arbitrary: c)
  case Nil
  then have "reqs c = Map.empty" by auto
  then show ?case by (simp add: close_requests_def)
next
  case (Cons a order)
  then obtain t where t: "reqs c a = Some t" by force
  let ?c = "(fail_request e t c)\<lparr>reqs := (reqs c)(a := None)\<rparr>"
  have cl: "close_requests e (a # order) c = close_requests e order ?c"
    by (simp add: close_requests_def t)
  have un: "b = a" if "reqs c b = Some t" for b using Cons.prems(3) that t by blast
  have rn: "ran (reqs c) = insert t (ran (reqs ?c))"
    using ran_map_upd [of "reqs ?c" a t] t by (simp add: fun_upd_idem)
  have nt: "t \<notin> ran (reqs ?c)" using un by (auto simp: ran_def split: if_splits)
  have "reqs (close_requests e order ?c) = Map.empty \<and>
    prs (close_requests e order ?c) = (\<lambda>t. if t \<in> ran (reqs ?c)
      then (prs ?c t)\<lparr>pr_err := Some e, pr_wg := pr_wg (prs ?c t) - 1\<rparr> else prs ?c t) \<and>
    (panicked (close_requests e order ?c) \<longleftrightarrow>
      panicked ?c \<or> (\<exists>t \<in> ran (reqs ?c). pr_wg (prs ?c t) \<le> 0))"
    using Cons.prems by (intro Cons.IH) (auto split: if_splits)
  moreover have "prs ?c u = prs c u" if "u \<in> ran (reqs ?c)" for u
    using that nt by (auto simp: fail_request_def pr_Done_def)
  moreover have "prs ?c t = (prs c t)\<lparr>pr_err := Some e, pr_wg := pr_wg (prs c t) - 1\<rparr>"
    "panicked ?c \<longleftrightarrow> panicked c \<or> pr_wg (prs c t) \<le> 0"
    "\<And>u. u \<noteq> t \<Longrightarrow> prs ?c u = prs c u"
    by (simp_all add: fail_request_def pr_Done_def)
  ultimately show ?case unfolding cl rn using nt by (auto simp: fun_eq_iff)
qed

lemma Conn_close_frame [simp]:
  "writerQueue (Conn_close e order c) = []"
  "writerDone (Conn_close e order c) = writerDone c"
  "seq (Conn_close e order c) = 0"
  "pws (Conn_close e order c) = pws (fold (finish_write (Some e)) (writerQueue c) c)"
  by (simp_all add: Conn_close_def Let_def)

lemma ledger_finish_all:
  "ledger (q @ P) C (pws c) S \<Longrightarrow> ledger P C (pws (fold (finish_write (Some e)) q c)) S"
proof (induction q arbitrary: c)
  case Nil
  then show ?case by simp
next
  case (Cons t q)
  then have "ledger (q @ P) C (pws (finish_write (Some e) t c)) S"
    by (intro ledger_finish [where S = S]) simp_all
  then show ?case by (simp add: Cons.IH)
qed

section \<open>Where Handle is\<close>

definition control_inv :: "sys \<Rightarrow> bool" where
  "control_inv s \<longleftrightarrow> (hp s \<noteq> HSelect \<longrightarrow> writerDone (cn s)) \<and>
     (\<forall>we. hp s = HShut we \<or> hp s = HWaitReader we \<longrightarrow> wl s = WDone we) \<and>
     (\<forall>re. hp s = HWaitWriter re \<or> hp s = HShutLast re \<longrightarrow> rl s = RDone re) \<and>
     (\<forall>re. hp s = HShutLast re \<longrightarrow> (\<exists>we. wl s = WDone we)) \<and>
     (sock_shut s \<longleftrightarrow> (\<exists>we e. hp s = HWaitReader we \<or> hp s = HRet e \<or> hp s = HClosed e)) \<and>
     ((\<exists>e. hp s = HRet e \<or> hp s = HClosed e) \<longrightarrow> (\<exists>we re. wl s = WDone we \<and> rl s = RDone re)) \<and>
     ((\<exists>e. hp s = HClosed e) \<longrightarrow> writerQueue (cn s) = []) \<and>
     (wl s = WDone None \<longrightarrow> writerDone (cn s) \<and> writerQueue (cn s) = [])"

lemma control_inv_init: "control_inv sys_init"
  by (simp add: control_inv_def sys_init_def)

lemma control_inv_call: "call_step bu cf s s' \<Longrightarrow> control_inv s \<Longrightarrow> control_inv s'"
  by (induction rule: call_step.induct) (auto simp: control_inv_def call_simps)

lemma control_inv_write: "write_step cf s s' \<Longrightarrow> control_inv s \<Longrightarrow> control_inv s'"
  by (induction rule: write_step.induct) (auto simp: control_inv_def take_queue_def)

lemma control_inv_read: "read_step bu s s' \<Longrightarrow> control_inv s \<Longrightarrow> control_inv s'"
  by (induction rule: read_step.induct) (auto simp: control_inv_def take_request_eq)

lemma control_inv_handle: "handle_step s s' \<Longrightarrow> control_inv s \<Longrightarrow> control_inv s'"
  by (induction rule: handle_step.induct) (auto simp: control_inv_def closeWriter_def)

lemma writes_inv_handle:
  "handle_step s s' \<Longrightarrow> control_inv s \<Longrightarrow> writes_inv s \<Longrightarrow> writes_inv s'"
proof (induction rule: handle_step.induct)
  case (h_close s e order)
  then obtain we where "wl s = WDone we" by (auto simp: control_inv_def)
  with h_close show ?case
    using ledger_finish_all [where P = "[]"] by (simp add: writes_inv_def pending_def)
qed (simp_all add: writes_inv_def pending_def closeWriter_def)

section \<open>Invariants of requests\<close>

text \<open>The request a call is still inside of, with a counter it may still wait for.\<close>

fun in_request :: "u32 \<Rightarrow> caller \<Rightarrow> bool" where
  "in_request sq (ReqReg a) \<longleftrightarrow> a = sq"
| "in_request sq (ReqWait a) \<longleftrightarrow> a = sq"
| "in_request sq (ReqFail a e) \<longleftrightarrow> a = sq"
| "in_request sq p \<longleftrightarrow> False"

fun undoing :: "u32 \<Rightarrow> caller \<Rightarrow> bool" where
  "undoing sq (ReqUndo a e) \<longleftrightarrow> a = sq"
| "undoing sq p \<longleftrightarrow> False"

fun undone :: "u32 \<Rightarrow> caller \<Rightarrow> bool" where
  "undone sq (ReqDone a None (Some e)) \<longleftrightarrow> a = sq"
| "undone sq p \<longleftrightarrow> undoing sq p"

definition registry ::
  "(u32 \<rightharpoonup> nat) \<Rightarrow> (nat \<Rightarrow> caller) \<Rightarrow> (nat \<Rightarrow> pendingRequest) \<Rightarrow> rloop \<Rightarrow> bool" where
  "registry R C Q D \<longleftrightarrow>
     (\<forall>sq t. R sq = Some t \<longrightarrow> in_request sq (C t) \<and> pr_wg (Q t) = 1 \<or> undoing sq (C t)) \<and>
     (\<forall>t sq d. D = RDeliver t sq d \<longrightarrow>
        t \<notin> ran R \<and> (in_request sq (C t) \<and> pr_wg (Q t) = 1 \<or> undone sq (C t))) \<and>
     (\<forall>t sq. C t = ReqSeq sq \<longrightarrow> pr_wg (Q t) = 1)"

definition registry_inv :: "sys \<Rightarrow> bool" where
  "registry_inv s \<longleftrightarrow> registry (reqs (cn s)) (pc s) (prs (cn s)) (rl s)"

lemma undone_undoing: "undoing sq p \<Longrightarrow> undone sq p"
  by (cases p) auto

lemma undone_failed: "undone sq p \<Longrightarrow> p \<noteq> ReqDone a r None"
  by (auto elim: undone.elims)

lemma undone_in_request: "undone sq p \<Longrightarrow> \<not> in_request a p"
  by (auto elim!: undone.elims)

lemma in_request_unique:
  "in_request a p \<or> undoing a p \<Longrightarrow> in_request b p \<or> undoing b p \<Longrightarrow> a = b"
  by (cases p) auto

lemma registry_at:
  "registry R C Q D \<Longrightarrow> R sq = Some t \<Longrightarrow>
     in_request sq (C t) \<and> pr_wg (Q t) = 1 \<or> undoing sq (C t)"
  by (simp add: registry_def)

lemma registry_injective:
  "registry R C Q D \<Longrightarrow> R a = Some t \<Longrightarrow> R b = Some t \<Longrightarrow> a = b"
  unfolding registry_def by (meson in_request_unique)

text \<open>A call outside of every request is not registered and gets no delivery.\<close>

lemma registry_unregistered:
  assumes "registry R C Q D" "\<And>sq. \<not> in_request sq (C t) \<and> \<not> undone sq (C t)"
  shows "t \<notin> ran R \<and> (\<forall>sq d. D \<noteq> RDeliver t sq d)"
  using assms undone_undoing unfolding registry_def ran_def by blast

lemma registry_pc:
  assumes "registry R C Q D"
    and "(\<forall>sq. \<not> in_request sq (C t) \<and> \<not> undone sq (C t)) \<or>
      (\<forall>sq. (in_request sq (C t) \<longrightarrow> in_request sq p) \<and> (undoing sq (C t) \<longrightarrow> undoing sq p) \<and>
            (undone sq (C t) \<longrightarrow> undone sq p))"
    and "\<forall>sq. p \<noteq> ReqSeq sq"
  shows "registry R (C(t := p)) Q D"
proof (cases "\<forall>sq. \<not> in_request sq (C t) \<and> \<not> undone sq (C t)")
  case True
  with registry_unregistered assms(1) have "t \<notin> ran R \<and> (\<forall>sq d. D \<noteq> RDeliver t sq d)" by metis
  with assms(1,3) show ?thesis by (auto simp: registry_def ran_def)
next
  case False
  with assms show ?thesis unfolding registry_def by auto
qed

lemma registry_fresh:
  assumes "registry R C Q D" "C t = Idle" "pr_wg q = 1"
  shows "registry R (C(t := ReqSeq sq)) (Q(t := q)) D"
proof -
  from registry_unregistered [OF assms(1), of t] assms(2)
  have "t \<notin> ran R \<and> (\<forall>sq d. D \<noteq> RDeliver t sq d)" by simp
  with assms show ?thesis by (auto simp: registry_def ran_def)
qed

lemma registry_register:
  assumes "registry R C Q D" "C t = ReqSeq sq"
  shows "registry (R(sq \<mapsto> t)) (C(t := ReqReg sq)) Q D"
proof -
  from registry_unregistered [OF assms(1), of t] assms(2)
  have "t \<notin> ran R \<and> (\<forall>sq d. D \<noteq> RDeliver t sq d)" by simp
  with assms show ?thesis by (auto simp: registry_def ran_def)
qed

lemma registry_delete: "registry R C Q D \<Longrightarrow> registry (R(sq := None)) C Q D"
  by (fastforce simp: registry_def ran_def)

lemma registry_idle: "registry R C Q D \<Longrightarrow> \<forall>t sq d. D' \<noteq> RDeliver t sq d \<Longrightarrow> registry R C Q D'"
  by (auto simp: registry_def)

lemma registry_take:
  assumes "registry R C Q D" "R sq = Some t"
  shows "registry (R(sq := None)) C Q (RDeliver t sq d)"
proof -
  have "t \<notin> ran (R(sq := None))"
    using registry_injective [OF assms(1)] assms(2) by (auto simp: ran_def split: if_splits)
  with registry_delete [OF assms(1), of sq] registry_at [OF assms] show ?thesis
    by (auto simp: registry_def dest: undone_undoing)
qed

lemma registry_done:
  assumes "registry R C Q D" "C t = ReqFail sq e"
  shows "registry R (C(t := ReqUndo sq e)) (Q(t := q)) D"
  using assms by (fastforce simp: registry_def)

lemma registry_undo:
  assumes "registry R C Q D" "C t = ReqUndo sq e"
  shows "registry (R(sq := None)) (C(t := ReqDone sq None (Some e))) Q D"
proof -
  have "a = sq" if "R a = Some t" for a
    using registry_at [OF assms(1) that] assms(2) by simp
  then have "t \<notin> ran (R(sq := None))" by (auto simp: ran_def split: if_splits)
  with registry_delete [OF assms(1), of sq] assms(2) show ?thesis
    by (auto simp: registry_def ran_def split: if_splits)
qed

lemma registry_delivered:
  assumes "registry R C Q (RDeliver t sq d)"
  shows "registry R C (Q(t := q)) RIdle"
proof -
  have "C t \<noteq> ReqSeq a" for a using assms by (auto simp: registry_def)
  with assms show ?thesis by (auto simp: registry_def ran_def)
qed

lemma registry_return:
  assumes "registry R C Q D" "C t = ReqWait sq" "pr_wg (Q t) = 0"
  shows "registry R (C(t := ReqDone sq r err)) Q D"
proof -
  have "R a \<noteq> Some t" for a using registry_at [OF assms(1), of a t] assms(2,3) by auto
  moreover have "D \<noteq> RDeliver t a d" for a d using assms by (auto simp: registry_def)
  ultimately have "t \<notin> ran R \<and> (\<forall>sq d. D \<noteq> RDeliver t sq d)" by (auto simp: ran_def)
  with assms show ?thesis by (auto simp: registry_def ran_def)
qed

lemma registry_inv_init: "registry_inv sys_init"
  by (simp add: registry_inv_def registry_def sys_init_def Conn_init_def)

lemma registry_inv_call: "call_step bu cf s s' \<Longrightarrow> registry_inv s \<Longrightarrow> registry_inv s'"
  by (induction rule: call_step.induct)
    (auto simp: registry_inv_def call_simps pr_Done_def
       intro!: registry_fresh registry_register registry_done registry_undo registry_return
       intro: registry_pc)

lemma registry_inv_write: "write_step cf s s' \<Longrightarrow> registry_inv s \<Longrightarrow> registry_inv s'"
  by (induction rule: write_step.induct) (auto simp: registry_inv_def take_queue_def)

lemma registry_inv_read: "read_step bu s s' \<Longrightarrow> registry_inv s \<Longrightarrow> registry_inv s'"
  by (induction rule: read_step.induct)
    (auto simp: registry_inv_def deliver_response_def pr_Done_def Let_def take_request_eq
       split: option.splits
       intro: registry_idle [OF registry_delete] registry_idle registry_take registry_delivered)

lemma Conn_close_requests:
  assumes "registry_inv s" "distinct order" "set order = dom (reqs (cn s))"
  shows "reqs (Conn_close e order (cn s)) = Map.empty"
    and "prs (Conn_close e order (cn s)) = (\<lambda>t. if t \<in> ran (reqs (cn s))
      then (prs (cn s) t)\<lparr>pr_err := Some e, pr_wg := pr_wg (prs (cn s) t) - 1\<rparr>
      else prs (cn s) t)"
proof -
  let ?c = "(fold (finish_write (Some e)) (writerQueue (cn s)) (cn s))\<lparr>writerQueue := []\<rparr>"
  have "a = b" if "reqs ?c a = Some t" "reqs ?c b = Some t" for a b t
    using that registry_injective assms(1) by (simp add: registry_inv_def)
  with assms(2,3) have "reqs (close_requests e order ?c) = Map.empty \<and>
    prs (close_requests e order ?c) = (\<lambda>t. if t \<in> ran (reqs ?c)
      then (prs ?c t)\<lparr>pr_err := Some e, pr_wg := pr_wg (prs ?c t) - 1\<rparr> else prs ?c t)"
    using close_requests_effect [of order ?c e] by simp
  then show "reqs (Conn_close e order (cn s)) = Map.empty"
    and "prs (Conn_close e order (cn s)) = (\<lambda>t. if t \<in> ran (reqs (cn s))
      then (prs (cn s) t)\<lparr>pr_err := Some e, pr_wg := pr_wg (prs (cn s) t) - 1\<rparr>
      else prs (cn s) t)"
    by (simp_all add: Conn_close_def Let_def fun_eq_iff)
qed

lemma registry_inv_handle:
  "handle_step s s' \<Longrightarrow> control_inv s \<Longrightarrow> registry_inv s \<Longrightarrow> registry_inv s'"
proof (induction rule: handle_step.induct)
  case (h_close s e order)
  note cl = Conn_close_requests [OF h_close(5) h_close(2,3), of e]
  from h_close obtain re where "rl s = RDone re" by (auto simp: control_inv_def)
  moreover have "t \<notin> ran (reqs (cn s))" if "pc s t = ReqSeq sq" for t sq
    using registry_unregistered h_close(5) that by (force simp: registry_inv_def)
  ultimately show ?case
    using h_close(5) by (auto simp: registry_inv_def registry_def cl)
qed (auto simp: registry_inv_def closeWriter_def)

subsection \<open>Answers\<close>

definition answered :: "u32 \<Rightarrow> pendingRequest \<Rightarrow> (u32 \<times> bytes) option \<Rightarrow> bool" where
  "answered sq q g \<longleftrightarrow> pr_err q \<noteq> None \<or> (\<exists>d. pr_dst q = Some d \<and> g = Some (sq, d))"

definition answers_inv :: "sys \<Rightarrow> bool" where
  "answers_inv s \<longleftrightarrow>
     (\<forall>t sq. in_request sq (pc s t) \<longrightarrow>
        pr_wg (prs (cn s) t) = 1 \<or>
        pr_wg (prs (cn s) t) = 0 \<and> answered sq (prs (cn s) t) (got s t)) \<and>
     (\<forall>t sq r. pc s t = ReqDone sq r None \<longrightarrow> (\<exists>d. r = Some d \<and> got s t = Some (sq, d)))"

lemma answers_inv_init: "answers_inv sys_init"
  by (simp add: answers_inv_def sys_init_def)

lemma answers_inv_call:
  "call_step bu cf s s' \<Longrightarrow> registry_inv s \<Longrightarrow> answers_inv s \<Longrightarrow> answers_inv s'"
proof (induction rule: call_step.induct)
  case (req_register s t sq)
  then show ?case by (auto simp: answers_inv_def registry_inv_def registry_def)
next
  case (req_return s t sq)
  then have "answered sq (prs (cn s) t) (got s t)" by (force simp: answers_inv_def)
  with req_return show ?case by (auto simp: answers_inv_def answered_def)
qed (auto simp: answers_inv_def call_simps pr_Done_def)

lemma answers_inv_write: "write_step cf s s' \<Longrightarrow> answers_inv s \<Longrightarrow> answers_inv s'"
  by (induction rule: write_step.induct) (auto simp: answers_inv_def take_queue_def)

lemma answers_inv_read:
  assumes "bytesutil_spec bu"
  shows "read_step bu s s' \<Longrightarrow> registry_inv s \<Longrightarrow> answers_inv s \<Longrightarrow> answers_inv s'"
proof (induction rule: read_step.induct)
  case (r_deliver s t sq data)
  have "in_request sq (pc s t) \<or> undone sq (pc s t)"
    using r_deliver by (auto simp: registry_inv_def registry_def)
  moreover have "\<not> in_request sq (ReqDone a r None)" for a r by simp
  ultimately have t: "in_request a (pc s t) \<Longrightarrow> a = sq" "pc s t \<noteq> ReqDone a r None" for a r
    using undone_failed in_request_unique undone_in_request by metis+
  have u: "prs (deliver_response bu t data (cn s)) = (prs (cn s))(t := (prs (cn s) t)
      \<lparr>pr_dst := Some data, pr_wg := pr_wg (prs (cn s) t) - 1\<rparr>)"
    by (simp add: deliver_response_def Let_def pr_Done_def
        bytesutil_spec.overlay_extend_all [OF assms])
  have "in_request a (pc s t) \<Longrightarrow> pr_wg (prs (cn s) t) = 1" for a
    using r_deliver(1,2) undone_in_request by (auto simp: registry_inv_def registry_def)
  with r_deliver(3) t show ?case by (simp add: answers_inv_def answered_def u)
qed (auto simp: answers_inv_def take_request_eq)

lemma answers_inv_handle:
  "handle_step s s' \<Longrightarrow> registry_inv s \<Longrightarrow> answers_inv s \<Longrightarrow> answers_inv s'"
proof (induction rule: handle_step.induct)
  case (h_close s e order)
  note cl = Conn_close_requests [OF h_close(4) h_close(2,3), of e]
  have "pr_wg (prs (cn s) t) = 1" if "in_request sq (pc s t)" "t \<in> ran (reqs (cn s))" for t sq
    using that registry_at [OF h_close(4) [unfolded registry_inv_def]] undone_in_request undone_undoing
    unfolding ran_def by blast
  with h_close(5) show ?case by (auto simp: answers_inv_def answered_def cl)
qed (auto simp: answers_inv_def closeWriter_def)

subsection \<open>Nobody fails before the writer is closed\<close>

definition down_inv :: "sys \<Rightarrow> bool" where
  "down_inv s \<longleftrightarrow>
     (\<forall>t sq e. pc s t = ReqFail sq e \<or> undone sq (pc s t) \<longrightarrow> writerDone (cn s)) \<and>
     (\<forall>t sq r e. pc s t = ReqDone sq r (Some e) \<longrightarrow> writerDone (cn s)) \<and>
     (\<forall>t. pr_err (prs (cn s) t) \<noteq> None \<longrightarrow> writerDone (cn s)) \<and>
     (panicked (cn s) \<longrightarrow> writerDone (cn s))"

lemma down_inv_init: "down_inv sys_init"
  by (simp add: down_inv_def sys_init_def Conn_init_def pr_init_def)

lemma down_inv_call: "call_step bu cf s s' \<Longrightarrow> down_inv s \<Longrightarrow> down_inv s'"
proof (induction rule: call_step.induct)
  case (req_return s t sq)
  then show ?case
    by (cases "pr_dst (prs (cn s) t)"; cases "pr_err (prs (cn s) t)") (auto simp: down_inv_def)
next
  case (req_fail_delete s t sq e)
  then have "undone sq (pc s t)" by simp
  with req_fail_delete(2) have "writerDone (cn s)" unfolding down_inv_def by blast
  then show ?case by (simp add: down_inv_def)
qed (auto simp: down_inv_def call_simps pr_Done_def)

lemma down_inv_write:
  assumes "write_step cf s s'" "writes_inv s" "down_inv s"
  shows "down_inv s'"
proof -
  have "panicked (finish_write err t (cn s)) \<longleftrightarrow> panicked (cn s)" if "t \<in> set (batch (wl s))" for t err
    using assms(2) that by (intro ledger_no_panic [where P = "pending s"])
      (auto simp: writes_inv_def pending_def)
  with assms(1,3) show ?thesis
    by (induction rule: write_step.induct) (auto simp: down_inv_def take_queue_def)
qed

lemma down_inv_read:
  "read_step bu s s' \<Longrightarrow> registry_inv s \<Longrightarrow> down_inv s \<Longrightarrow> down_inv s'"
proof (induction rule: read_step.induct)
  case (r_deliver s t sq data)
  then have "pr_wg (prs (cn s) t) = 1 \<or> undone sq (pc s t)"
    by (auto simp: registry_inv_def registry_def)
  with r_deliver show ?case
    by (auto simp: down_inv_def deliver_response_def Let_def pr_Done_def)
qed (auto simp: down_inv_def take_request_eq)

lemma down_inv_handle:
  "handle_step s s' \<Longrightarrow> control_inv s \<Longrightarrow> down_inv s \<Longrightarrow> down_inv s'"
  by (induction rule: handle_step.induct) (auto simp: down_inv_def control_inv_def closeWriter_def)

subsection \<open>A waiting request stays registered\<close>

text \<open>The sequence number of a call of \<^verbatim>\<open>Request\<close>, kept after the call has returned.\<close>

fun req_no :: "caller \<Rightarrow> u32 option" where
  "req_no (ReqSeq sq) = Some sq"
| "req_no (ReqReg sq) = Some sq"
| "req_no (ReqFail sq e) = Some sq"
| "req_no (ReqUndo sq e) = Some sq"
| "req_no (ReqWait sq) = Some sq"
| "req_no (ReqDone sq r e) = Some sq"
| "req_no p = None"

text \<open>The sequence number \<open>sq\<close> belongs to no other call than \<open>t\<close> and is not the reserved one.\<close>

definition own_seq :: "(nat \<Rightarrow> caller) \<Rightarrow> nat \<Rightarrow> u32 \<Rightarrow> bool" where
  "own_seq C t sq \<longleftrightarrow> sq \<noteq> 0 \<and> (\<forall>u. u \<noteq> t \<longrightarrow> req_no (C u) \<noteq> Some sq)"

definition kept ::
  "(u32 \<rightharpoonup> nat) \<Rightarrow> (nat \<Rightarrow> caller) \<Rightarrow> (nat \<Rightarrow> pendingRequest) \<Rightarrow> rloop \<Rightarrow> bool" where
  "kept R C Q D \<longleftrightarrow> (\<forall>t sq. (C t = ReqReg sq \<or> C t = ReqWait sq) \<and> own_seq C t sq \<and>
     pr_wg (Q t) = 1 \<longrightarrow> R sq = Some t \<or> (\<exists>d. D = RDeliver t sq d))"

definition kept_inv :: "sys \<Rightarrow> bool" where
  "kept_inv s \<longleftrightarrow> kept (reqs (cn s)) (pc s) (prs (cn s)) (rl s)"

lemma own_seq_pc:
  assumes "own_seq (C(u := p)) t sq" "req_no (C u) = None \<or> req_no p = req_no (C u)"
  shows "own_seq C t sq"
  unfolding own_seq_def
proof (intro conjI allI impI)
  show "sq \<noteq> 0" using assms(1) by (simp add: own_seq_def)
  fix v
  assume "v \<noteq> t"
  with assms(1) have "req_no ((C(u := p)) v) \<noteq> Some sq" by (simp add: own_seq_def)
  with assms(2) show "req_no (C v) \<noteq> Some sq" by (cases "v = u") auto
qed

text \<open>A call may move on, keeping its number, as long as it does not start to rely on more.\<close>

lemma kept_pc:
  assumes "kept R C Q D" "req_no (C u) = None \<or> req_no p = req_no (C u)"
    and "\<And>sq. p \<noteq> ReqReg sq" "\<And>sq. p = ReqWait sq \<Longrightarrow> C u = ReqReg sq"
    and "\<And>v. v \<noteq> u \<Longrightarrow> Q' v = Q v" "\<And>sq. p = ReqWait sq \<Longrightarrow> Q' u = Q u"
    and "\<And>v sq. v \<noteq> u \<Longrightarrow> own_seq C v sq \<Longrightarrow> R' sq = R sq" "\<And>sq. p = ReqWait sq \<Longrightarrow> R' sq = R sq"
  shows "kept R' (C(u := p)) Q' D"
  unfolding kept_def
proof (intro allI impI)
  fix t sq
  assume a: "((C(u := p)) t = ReqReg sq \<or> (C(u := p)) t = ReqWait sq) \<and> own_seq (C(u := p)) t sq \<and>
    pr_wg (Q' t) = 1"
  then have o: "own_seq C t sq" using own_seq_pc assms(2) by blast
  have c: "C t = ReqReg sq \<or> C t = ReqWait sq" "Q' t = Q t" "R' sq = R sq"
    using a o assms(3-8) by (cases "t = u"; auto)+
  show "R' sq = Some t \<or> (\<exists>d. D = RDeliver t sq d)"
    using assms(1) a c o unfolding kept_def by auto
qed

lemma kept_register:
  assumes "kept R C Q D" "C t = ReqSeq sq"
  shows "kept (R(sq \<mapsto> t)) (C(t := ReqReg sq)) Q D"
  unfolding kept_def
proof (intro allI impI)
  fix u a
  assume h: "((C(t := ReqReg sq)) u = ReqReg a \<or> (C(t := ReqReg sq)) u = ReqWait a) \<and>
    own_seq (C(t := ReqReg sq)) u a \<and> pr_wg (Q u) = 1"
  show "(R(sq \<mapsto> t)) a = Some u \<or> (\<exists>d. D = RDeliver u a d)"
  proof (cases "u = t")
    case True
    with h show ?thesis by simp
  next
    case False
    from h have o: "own_seq C u a" using own_seq_pc [of C t "ReqReg sq" u a] assms(2) by simp
    with False assms(2) have "a \<noteq> sq" by (auto simp: own_seq_def)
    with False h o assms(1) show ?thesis by (auto simp: kept_def)
  qed
qed

lemma kept_delivered:
  assumes "kept R C Q (RDeliver t sq d)" "registry R C Q (RDeliver t sq d)"
  shows "kept R C (Q(t := (Q t)\<lparr>pr_dst := x, pr_wg := pr_wg (Q t) - 1\<rparr>)) RIdle"
proof -
  have "pr_wg (Q t) = 1 \<or> (\<forall>a. C t \<noteq> ReqReg a \<and> C t \<noteq> ReqWait a)"
    using assms(2) by (auto simp: registry_def)
  with assms(1) show ?thesis by (auto simp: kept_def)
qed

lemma kept_idle:
  "kept R C Q D \<Longrightarrow> \<forall>t sq d. D \<noteq> RDeliver t sq d \<Longrightarrow> kept R C Q D'"
  by (auto simp: kept_def)

lemma kept_take:
  "kept R C Q RIdle \<Longrightarrow> R sq = Some t \<Longrightarrow> kept (R(sq := None)) C Q (RDeliver t sq d)"
  by (fastforce simp: kept_def)

lemma kept_take_none:
  "kept R C Q RIdle \<Longrightarrow> R sq = None \<or> sq = 0 \<Longrightarrow> kept (R(sq := None)) C Q D"
  by (fastforce simp: kept_def own_seq_def)

lemma kept_inv_init: "kept_inv sys_init"
  by (simp add: kept_inv_def kept_def sys_init_def)

lemma kept_inv_call: "call_step bu cf s s' \<Longrightarrow> kept_inv s \<Longrightarrow> kept_inv s'"
proof (induction rule: call_step.induct)
  case (req_fail_delete s t sq e)
  moreover have "\<not> own_seq (pc s) v sq" if "v \<noteq> t" for v
    using req_fail_delete that by (auto simp: own_seq_def intro!: exI [of _ t])
  ultimately show ?case by (auto simp: kept_inv_def elim!: kept_pc)
qed (auto simp: kept_inv_def call_simps pr_Done_def intro!: kept_register elim!: kept_pc)

lemma kept_inv_write: "write_step cf s s' \<Longrightarrow> kept_inv s \<Longrightarrow> kept_inv s'"
  by (induction rule: write_step.induct) (auto simp: kept_inv_def take_queue_def)

lemma kept_inv_read: "read_step bu s s' \<Longrightarrow> registry_inv s \<Longrightarrow> kept_inv s \<Longrightarrow> kept_inv s'"
  by (induction rule: read_step.induct)
    (auto simp: kept_inv_def registry_inv_def deliver_response_def pr_Done_def Let_def take_request_eq
       split: option.splits intro: kept_delivered kept_take kept_take_none elim: kept_idle)

text \<open>After closing, nobody with a number of its own is left waiting.\<close>

lemma close_wakes:
  assumes "handle_step s s'" "hp s' = HClosed e" "control_inv s" "registry_inv s" "kept_inv s"
    and "pc s' t = ReqWait sq \<or> pc s' t = ReqReg sq" "own_seq (pc s') t sq"
  shows "pr_wg (prs (cn s') t) \<noteq> 1"
  using assms(1)
proof cases
  case (h_close e order)
  note cl = Conn_close_requests [OF assms(4) h_close(3,4), of e]
  from h_close assms(3) obtain re where re: "rl s = RDone re" by (auto simp: control_inv_def)
  show ?thesis
  proof (cases "t \<in> ran (reqs (cn s))")
    case True
    then obtain a where "reqs (cn s) a = Some t" by (auto simp: ran_def)
    with assms(4,6) h_close have "pr_wg (prs (cn s) t) = 1"
      using registry_at [of "reqs (cn s)" "pc s" "prs (cn s)" "rl s" a t]
      by (auto simp: registry_inv_def)
    with True show ?thesis by (simp add: h_close cl)
  next
    case False
    then have "reqs (cn s) sq \<noteq> Some t" by (auto simp: ran_def)
    with False assms(5-7) re show ?thesis
      by (auto simp: h_close cl kept_inv_def kept_def)
  qed
qed (use assms(2) in simp_all)

lemma kept_inv_handle:
  assumes "handle_step s s'" "control_inv s" "registry_inv s" "kept_inv s"
  shows "kept_inv s'"
proof (cases "\<exists>e. hp s' = HClosed e")
  case True
  then show ?thesis using close_wakes [OF assms(1) _ assms(2-4)] by (auto simp: kept_inv_def kept_def)
next
  case False
  with assms show ?thesis
    by (induction rule: handle_step.induct) (auto simp: kept_inv_def closeWriter_def)
qed

end
