(* ===== verification/Conn_Properties.thy ===== *)
theory Conn_Properties
  imports Conn_Machine
begin

text \<open>
  What every run of a connection guarantees: accepted messages are written in order, a waiting
  \<^verbatim>\<open>Send\<close> always gets its outcome, \<^verbatim>\<open>Request\<close> returns the response to its own sequence
  number, the write loop ends once the writer is closed, and where the protocol of the wait
  groups breaks.
\<close>

section \<open>Order of writes\<close>

fun failing :: "wloop \<Rightarrow> bool" where
  "failing (WFail q e) = True"
| "failing (WBatch q (Some e)) = True"
| "failing (WDone (Some e)) = True"
| "failing w = False"

definition order_inv :: "sys \<Rightarrow> bool" where
  "order_inv s \<longleftrightarrow> prefix (sent s) (acc s) \<and> distinct (acc s) \<and>
     (\<forall>t \<in> set (acc s). \<not> not_queued (pc s t)) \<and>
     (\<not> failing (wl s) \<longrightarrow> acc s = sent s @ pending s)"

lemma order_inv_init: "order_inv sys_init"
  by (simp add: order_inv_def sys_init_def pending_def Conn_init_def)

lemma order_inv_call: "call_step bu cf s s' \<Longrightarrow> order_inv s \<Longrightarrow> order_inv s'"
  by (induction rule: call_step.induct)
    (auto simp: order_inv_def pending_def call_simps intro: prefix_prefix)

lemma order_inv_write: "write_step cf s s' \<Longrightarrow> order_inv s \<Longrightarrow> order_inv s'"
  by (induction rule: write_step.induct) (auto simp: order_inv_def pending_def take_queue_def)

lemma order_inv_read: "read_step bu s s' \<Longrightarrow> order_inv s \<Longrightarrow> order_inv s'"
  by (induction rule: read_step.induct) (auto simp: order_inv_def pending_def take_request_eq)

lemma order_inv_handle: "handle_step s s' \<Longrightarrow> control_inv s \<Longrightarrow> order_inv s \<Longrightarrow> order_inv s'"
proof (induction rule: handle_step.induct)
  case (h_close s e order)
  then obtain we where we: "wl s = WDone we" by (auto simp: control_inv_def)
  then have "\<not> failing (wl s) \<Longrightarrow> writerQueue (cn s) = []"
    using h_close by (cases we) (auto simp: control_inv_def)
  with h_close we show ?case by (auto simp: order_inv_def pending_def)
qed (auto simp: order_inv_def pending_def closeWriter_def)

section \<open>Invariants of every run\<close>

locale conn_invariant =
  fixes bu :: bytesutil and cf :: ConnConfig and I :: "sys \<Rightarrow> bool"
  assumes init: "I sys_init"
    and step: "I s \<Longrightarrow> conn_step bu cf s s' \<Longrightarrow> I s'"
begin

lemma always: "conn_reachable bu cf s \<Longrightarrow> I s"
  by (induction rule: conn_reachable.induct) (auto intro: init step)

end

definition conn_inv :: "sys \<Rightarrow> bool" where
  "conn_inv s \<longleftrightarrow> control_inv s \<and> writes_inv s \<and> order_inv s \<and> registry_inv s \<and> answers_inv s \<and>
     down_inv s \<and> kept_inv s"

lemmas inv_init = control_inv_init writes_inv_init order_inv_init registry_inv_init
  answers_inv_init down_inv_init kept_inv_init
lemmas inv_call = control_inv_call writes_inv_call order_inv_call registry_inv_call
  answers_inv_call down_inv_call kept_inv_call
lemmas inv_write = control_inv_write writes_inv_write order_inv_write registry_inv_write
  answers_inv_write down_inv_write kept_inv_write
lemmas inv_read = control_inv_read writes_inv_read order_inv_read registry_inv_read
  down_inv_read kept_inv_read
lemmas inv_handle = control_inv_handle writes_inv_handle order_inv_handle registry_inv_handle
  answers_inv_handle down_inv_handle kept_inv_handle

sublocale bytesutil_spec \<subseteq> conn: conn_invariant bu cf conn_inv for cf
proof
  show "conn_inv sys_init" by (simp add: conn_inv_def inv_init)
  fix s s'
  assume I: "conn_inv s" and st: "conn_step bu cf s s'"
  note inv = I [unfolded conn_inv_def]
  from st show "conn_inv s'"
  proof cases
    case by_call
    with inv show ?thesis unfolding conn_inv_def by (blast intro: inv_call)
  next
    case by_writer
    with inv show ?thesis unfolding conn_inv_def by (blast intro: inv_write)
  next
    case by_reader
    with inv show ?thesis unfolding conn_inv_def
      by (blast intro: inv_read answers_inv_read [OF bytesutil_spec_axioms])
  next
    case by_handle
    with inv show ?thesis unfolding conn_inv_def by (blast intro: inv_handle)
  qed
qed

context bytesutil_spec
begin

lemma always_inv: "conn_reachable bu cf s \<Longrightarrow> conn_inv s"
  by (rule conn.always)

end

lemmas reachable_inv = bytesutil_spec.always_inv

section \<open>Work left for the write loop\<close>

definition idle_work :: "nat \<Rightarrow> nat" where
  "idle_work n = (if n = 0 then 1 else n + 4)"

fun loop_work :: "nat \<Rightarrow> wloop \<Rightarrow> nat" where
  "loop_work n WIdle = idle_work n"
| "loop_work n (WDeadline q) = length q + 2 + idle_work n"
| "loop_work n (WBatch q e) = length q + 1 + idle_work n"
| "loop_work n (WFail q e) = length q + 1"
| "loop_work n (WDone e) = 0"

definition writer_work :: "sys \<Rightarrow> nat" where
  "writer_work s = loop_work (length (writerQueue (cn s))) (wl s)"

text \<open>A run from \<open>s\<close> to \<open>s'\<close> in which the write loop makes \<open>n\<close> steps.\<close>

inductive conn_run :: "bytesutil \<Rightarrow> ConnConfig \<Rightarrow> sys \<Rightarrow> nat \<Rightarrow> sys \<Rightarrow> bool"
  for bu :: bytesutil and cf :: ConnConfig and s :: sys where
  run_start: "conn_run bu cf s 0 s"
| run_writer: "conn_run bu cf s n s' \<Longrightarrow> write_step cf s' s'' \<Longrightarrow> conn_run bu cf s (Suc n) s''"
| run_other: "conn_run bu cf s n s' \<Longrightarrow> call_step bu cf s' s'' \<or> read_step bu s' s'' \<or> handle_step s' s'' \<Longrightarrow>
     conn_run bu cf s n s''"

lemma writer_work_write: "write_step cf s s' \<Longrightarrow> writer_work s' < writer_work s"
  by (induction rule: write_step.induct)
    (auto simp: writer_work_def take_queue_def idle_work_def)

lemma writerDone_write: "write_step cf s s' \<Longrightarrow> writerDone (cn s') = writerDone (cn s)"
  by (induction rule: write_step.induct) (auto simp: take_queue_def)

lemma writer_work_call:
  "call_step bu cf s s' \<Longrightarrow> writerDone (cn s) \<Longrightarrow> writer_work s' = writer_work s \<and> writerDone (cn s')"
  by (induction rule: call_step.induct) (auto simp: writer_work_def call_simps)

lemma writer_work_read:
  "read_step bu s s' \<Longrightarrow> writerDone (cn s) \<Longrightarrow> writer_work s' = writer_work s \<and> writerDone (cn s')"
  by (induction rule: read_step.induct) (auto simp: writer_work_def take_request_eq)

lemma loop_work_mono: "loop_work 0 w \<le> loop_work n w"
  by (cases w) (simp_all add: idle_work_def)

lemma writer_work_handle:
  "handle_step s s' \<Longrightarrow> writerDone (cn s) \<Longrightarrow> writer_work s' \<le> writer_work s \<and> writerDone (cn s')"
  by (induction rule: handle_step.induct)
    (auto simp: writer_work_def closeWriter_def loop_work_mono)

lemma writer_enabled:
  assumes "writerDone (cn s)" "\<And>e. wl s \<noteq> WDone e"
  shows "\<exists>s'. write_step cf s s'"
proof (cases "wl s")
  case WIdle
  then show ?thesis
    using w_take [of s "writerQueue (cn s)" True] assms(1) by (auto simp: take_queue_def)
next
  case (WFail q e)
  then show ?thesis by (cases q) (auto intro: write_step.intros)
next
  case (WBatch q e)
  then show ?thesis by (cases q; cases e) (auto intro: write_step.intros)
qed (use assms in \<open>auto intro: write_step.intros\<close>)

section \<open>Properties\<close>

text \<open>
  Accepted messages are written in the order in which they were accepted, each at most
  once, in every run: the messages written are a prefix of the messages accepted. When the
  write loop has returned without an error, it has written all of them: a graceful shutdown
  drains the queue.
\<close>

lemma writes_in_order:
  assumes "bytesutil_spec bu" and "conn_reachable bu cf s"
  shows "prefix (sent s) (acc s) \<and> distinct (acc s) \<and> (wl s = WDone None \<longrightarrow> sent s = acc s)"
  using reachable_inv [OF assms] by (auto simp: conn_inv_def order_inv_def control_inv_def pending_def)

text \<open>
  (C2) No \<^verbatim>\<open>Send\<close> or \<^verbatim>\<open>Reply\<close> waits forever, and none lies: once \<^verbatim>\<open>Handle\<close> has
  returned and \<^verbatim>\<open>close\<close> has run, every call still in \<^verbatim>\<open>pw.wg.Wait()\<close> has a counter of 0,
  so it returns; and in every run a call that returned no error had its message written.
\<close>

theorem sends_complete:
  assumes "bytesutil_spec bu" and "conn_reachable bu cf s"
  shows "(hp s = HClosed e \<longrightarrow> pc s t = SendWait \<longrightarrow> pw_wg (pws (cn s) t) = 0) \<and>
    (pc s t = SendWait \<longrightarrow> 0 \<le> pw_wg (pws (cn s) t) \<and> pw_wg (pws (cn s) t) \<le> 1) \<and>
    (pc s t = SendDone None \<longrightarrow> t \<in> set (sent s))"
proof -
  from reachable_inv [OF assms]
  have w: "ledger (pending s) (pc s) (pws (cn s)) (sent s)" and c: "control_inv s"
    by (auto simp: conn_inv_def writes_inv_def)
  have "hp s = HClosed e \<Longrightarrow> pending s = []" using c by (auto simp: control_inv_def pending_def)
  with w show ?thesis by (cases "t \<in> set (pending s)") (auto simp: ledger_def)
qed


text \<open>
  (C12) Closing wakes every request: when \<^verbatim>\<open>close\<close> runs after \<^verbatim>\<open>Handle\<close> has returned, a call
  of \<^verbatim>\<open>Request\<close> that waits under a sequence number of its own, other than 0, has a counter of
  0 afterwards and carries an error or the response it got.
\<close>

theorem close_wakes_requests:
  assumes "bytesutil_spec bu" and "conn_reachable bu cf s" and "\<not> panicked (cn s)"
    and "handle_step s s'" and "hp s' = HClosed e"
    and "pc s' t = ReqWait sq" and "own_seq (pc s') t sq"
  shows "pr_wg (prs (cn s') t) = 0 \<and> answered sq (prs (cn s') t) (got s' t)"
proof -
  have "conn_reachable bu cf s'"
    using assms(2-4) by (blast intro: conn_reachable.step by_handle)
  then have "conn_inv s'" by (rule reachable_inv [OF assms(1)])
  moreover have "pr_wg (prs (cn s') t) \<noteq> 1"
    using reachable_inv [OF assms(1,2)] close_wakes [OF assms(4,5)] assms(6,7)
    by (simp add: conn_inv_def)
  moreover have "in_request sq (pc s' t)" by (simp add: assms(6))
  ultimately show ?thesis unfolding conn_inv_def answers_inv_def by blast
qed

text \<open>
  (C24) The write loop ends: once the writer is closed, in any interleaving with callers, reader
  and \<^verbatim>\<open>Handle\<close>, the write loop makes at most \<open>writer_work s\<close> more steps, a bound linear in what
  is queued, and while it has not returned it has a step to make.
\<close>

theorem writer_terminates:
  assumes "writerDone (cn s)" and "conn_run bu cf s n s'"
  shows "n + writer_work s' \<le> writer_work s \<and> ((\<exists>e. wl s' = WDone e) \<or> (\<exists>s''. write_step cf s' s''))"
proof -
  from assms(2) have "n + writer_work s' \<le> writer_work s \<and> writerDone (cn s')"
  proof (induction rule: conn_run.induct)
    case (run_writer n s' s'')
    then show ?case using writer_work_write [of cf s' s''] by (simp add: writerDone_write)
  next
    case (run_other n s' s'')
    then show ?case
      using writer_work_call [of bu cf s' s''] writer_work_read [of bu s' s'']
        writer_work_handle [of s' s''] by fastforce
  qed (simp add: assms(1))
  with writer_enabled show ?thesis by blast
qed

text \<open>
  No wait group goes negative while a connection is open: a panic can only happen once the
  writer is closed.
\<close>

lemma no_panic_while_open:
  assumes "bytesutil_spec bu" and "conn_reachable bu cf s" and "\<not> writerDone (cn s)"
  shows "\<not> panicked (cn s)"
  using reachable_inv [OF assms(1,2)] assms(3) by (auto simp: conn_inv_def down_inv_def)

section \<open>Runs\<close>

lemma reach_call:
  "conn_reachable bu cf s \<Longrightarrow> call_step bu cf s s' \<Longrightarrow> \<not> panicked (cn s) \<Longrightarrow> conn_reachable bu cf s'"
  by (blast intro: conn_reachable.step by_call)


lemma reach_handle:
  "conn_reachable bu cf s \<Longrightarrow> handle_step s s' \<Longrightarrow> \<not> panicked (cn s) \<Longrightarrow> conn_reachable bu cf s'"
  by (blast intro: conn_reachable.step by_handle)

text \<open>Steps that a connection makes while its owner is not done.\<close>

definition own_step :: "bytesutil \<Rightarrow> ConnConfig \<Rightarrow> sys \<Rightarrow> sys \<Rightarrow> bool" where
  "own_step bu cf s s' \<longleftrightarrow> conn_step bu cf s s' \<and> (hp s = HSelect \<longrightarrow> hp s' \<noteq> HDrain)"

lemma own_reach:
  assumes "conn_reachable bu cf s" and "(own_step bu cf)\<^sup>*\<^sup>* s s'"
  shows "conn_reachable bu cf s'"
  using assms(2,1) by (induction rule: rtranclp_induct) (auto simp: own_step_def intro: conn_reachable.step)

lemma hp_call: "call_step bu cf s s' \<Longrightarrow> hp s' = hp s"
  by (induction rule: call_step.induct) simp_all

lemma hp_write: "write_step cf s s' \<Longrightarrow> hp s' = hp s"
  by (induction rule: write_step.induct) simp_all

lemma hp_read: "read_step bu s s' \<Longrightarrow> hp s' = hp s"
  by (induction rule: read_step.induct) simp_all

lemma own_steps:
  assumes "(own_step bu cf)\<^sup>*\<^sup>* r s"
  shows "call_step bu cf s s' \<Longrightarrow> \<not> panicked (cn s) \<Longrightarrow> (own_step bu cf)\<^sup>*\<^sup>* r s'"
    "write_step cf s s' \<Longrightarrow> \<not> panicked (cn s) \<Longrightarrow> (own_step bu cf)\<^sup>*\<^sup>* r s'"
    "read_step bu s s' \<Longrightarrow> \<not> panicked (cn s) \<Longrightarrow> (own_step bu cf)\<^sup>*\<^sup>* r s'"
    "handle_step s s' \<Longrightarrow> \<not> panicked (cn s) \<Longrightarrow> hp s' \<noteq> HDrain \<Longrightarrow> (own_step bu cf)\<^sup>*\<^sup>* r s'"
proof -
  have *: "(own_step bu cf)\<^sup>*\<^sup>* r s'" if "conn_step bu cf s s'" "hp s' = hp s \<or> hp s' \<noteq> HDrain"
    using assms that by (auto simp: own_step_def intro: rtranclp.rtrancl_into_rtrancl)
  show "call_step bu cf s s' \<Longrightarrow> \<not> panicked (cn s) \<Longrightarrow> (own_step bu cf)\<^sup>*\<^sup>* r s'"
    using * hp_call by_call by blast
  show "write_step cf s s' \<Longrightarrow> \<not> panicked (cn s) \<Longrightarrow> (own_step bu cf)\<^sup>*\<^sup>* r s'"
    using * hp_write by_writer by blast
  show "read_step bu s s' \<Longrightarrow> \<not> panicked (cn s) \<Longrightarrow> (own_step bu cf)\<^sup>*\<^sup>* r s'"
    using * hp_read by_reader by blast
  show "handle_step s s' \<Longrightarrow> \<not> panicked (cn s) \<Longrightarrow> hp s' \<noteq> HDrain \<Longrightarrow> (own_step bu cf)\<^sup>*\<^sup>* r s'"
    using * by_handle by blast
qed

text \<open>A call of \<^verbatim>\<open>Request\<close> up to its registration, and the reader failing with \<^verbatim>\<open>io.EOF\<close>.\<close>

definition run_registered :: "ConnConfig \<Rightarrow> sys" where
  "run_registered cf = sys_init\<lparr>
     cn := Conn_init\<lparr>seq := getSeqOffset cf, prs := (prs Conn_init)(0 := \<lparr>pr_dst = None, pr_err = None, pr_wg = 1\<rparr>),
       reqs := [getSeqOffset cf \<mapsto> 0]\<rparr>,
     pc := (\<lambda>_. Idle)(0 := ReqReg (getSeqOffset cf))\<rparr>"

lemma run_registered: "conn_reachable bu cf (run_registered cf)"
proof -
  let ?sq = "getSeqOffset cf"
  let ?q = "\<lparr>pr_dst = None, pr_err = None, pr_wg = 1\<rparr>"
  let ?s1 = "sys_init\<lparr>cn := (Conn_init\<lparr>seq := ?sq\<rparr>)\<lparr>prs := (prs (Conn_init\<lparr>seq := ?sq\<rparr>))(0 := ?q)\<rparr>,
    pc := (pc sys_init)(0 := ReqSeq ?sq)\<rparr>"
  have "conn_reachable bu cf ?s1"
    by (rule reach_call [OF conn_reachable.start call_step.req_next])
      (simp_all add: sys_init_def next_changes Conn_init_def)
  from reach_call [OF this call_step.req_register [where t = 0 and sq = ?sq]]
  show ?thesis by (simp add: run_registered_def sys_init_def Conn_init_def)
qed

text \<open>The reader has failed, the write loop has ended, and Handle has returned.\<close>

definition run_down :: "goerr \<Rightarrow> sys \<Rightarrow> sys" where
  "run_down e s = s\<lparr>cn := closeWriter (cn s), rl := RDone (read_loop_err e), wl := WDone None,
     hp := HRet (read_loop_err e), sock_shut := True\<rparr>"

lemma run_down_steps:
  assumes "(own_step bu cf)\<^sup>*\<^sup>* r s" "\<not> panicked (cn s)" "rl s = RIdle" "wl s = WIdle" "hp s = HSelect"
    "writerQueue (cn s) = []"
  shows "(own_step bu cf)\<^sup>*\<^sup>* r (run_down e s)"
proof -
  let ?e = "read_loop_err e"
  let ?s1 = "s\<lparr>rl := RDone ?e\<rparr>"
  let ?s2 = "?s1\<lparr>cn := closeWriter (cn s), hp := HWaitWriter ?e\<rparr>"
  let ?s3 = "?s2\<lparr>wl := WDone None\<rparr>"
  have "(own_step bu cf)\<^sup>*\<^sup>* r ?s1" using assms by (intro own_steps(3) [OF _ r_fail]) auto
  then have "(own_step bu cf)\<^sup>*\<^sup>* r ?s2"
    by (rule own_steps(4)) (use assms h_reader [of ?s1 ?e] in simp_all)
  then have "(own_step bu cf)\<^sup>*\<^sup>* r ?s3"
    by (rule own_steps(2))
      (use assms w_take [of ?s2 "[]" True "closeWriter (cn s)" cf] in
        \<open>cases s, simp_all add: take_queue_def closeWriter_def\<close>)
  then have "(own_step bu cf)\<^sup>*\<^sup>* r (?s3\<lparr>hp := HShutLast ?e\<rparr>)"
    by (rule own_steps(4))
      (use assms h_wait_writer [of ?s3 ?e None] in \<open>simp_all add: closeWriter_def\<close>)
  from own_steps(4) [OF this h_shut_last [of _ ?e]] show ?thesis
    using assms(2) by (cases s) (simp add: run_down_def closeWriter_def)
qed

lemma run_down:
  assumes "conn_reachable bu cf s" "\<not> panicked (cn s)" "rl s = RIdle" "wl s = WIdle" "hp s = HSelect"
    "writerQueue (cn s) = []"
  shows "conn_reachable bu cf (run_down e s)"
  using own_reach [OF assms(1) run_down_steps [OF rtranclp.rtrancl_refl assms(2-)]] .


text \<open>The write loop takes a single message, writes it and flushes.\<close>

definition run_flush :: "nat \<Rightarrow> sys \<Rightarrow> sys" where
  "run_flush t s = s\<lparr>cn := finish_write None t ((cn s)\<lparr>writerQueue := []\<rparr>), sent := sent s @ [t]\<rparr>"

lemma run_flush_steps:
  assumes "(own_step bu cf)\<^sup>*\<^sup>* r s" "\<not> panicked (cn s)" "wl s = WIdle" "writerQueue (cn s) = [t]"
    "\<not> panicked (finish_write None t ((cn s)\<lparr>writerQueue := []\<rparr>))"
  shows "(own_step bu cf)\<^sup>*\<^sup>* r (run_flush t s)"
proof -
  let ?c = "(cn s)\<lparr>writerQueue := []\<rparr>"
  let ?s1 = "s\<lparr>cn := ?c, wl := WDeadline [t]\<rparr>"
  let ?s2 = "?s1\<lparr>wl := WBatch [t] None\<rparr>"
  let ?s3 = "?s2\<lparr>cn := finish_write None t ?c, wl := WBatch [] None, sent := sent s @ [t]\<rparr>"
  have "(own_step bu cf)\<^sup>*\<^sup>* r ?s1"
    by (rule own_steps(2) [OF assms(1)])
      (use assms w_take [of s "[t]" "writerDone (cn s)" ?c cf] in \<open>simp_all add: take_queue_def\<close>)
  then have "(own_step bu cf)\<^sup>*\<^sup>* r ?s2"
    by (rule own_steps(2)) (use assms w_deadline [of ?s1 "[t]" cf] in simp_all)
  then have "(own_step bu cf)\<^sup>*\<^sup>* r ?s3"
    by (rule own_steps(2)) (use assms w_write [of ?s2 t "[]" cf] in simp_all)
  then have "(own_step bu cf)\<^sup>*\<^sup>* r (?s3\<lparr>wl := WIdle\<rparr>)"
    by (rule own_steps(2) [OF _ w_flush]) (use assms in simp_all)
  then show ?thesis using assms(3) by (cases s) (simp add: run_flush_def)
qed

lemma run_flush:
  assumes "conn_reachable bu cf s" "\<not> panicked (cn s)" "wl s = WIdle" "writerQueue (cn s) = [t]"
    "\<not> panicked (finish_write None t ((cn s)\<lparr>writerQueue := []\<rparr>))"
  shows "conn_reachable bu cf (run_flush t s)"
  using own_reach [OF assms(1) run_flush_steps [OF rtranclp.rtrancl_refl assms(2-)]] .

text \<open>
  (C19) The wait group of a request can go negative: \<^verbatim>\<open>Request\<close> registers itself, the
  connection fails and \<^verbatim>\<open>close\<close> wakes the registered request, and only then the request finds
  the writer closed and calls \<^verbatim>\<open>pr.wg.Done()\<close> once more, which panics. This run exists for
  every configuration.
\<close>

theorem request_close_race_panics:
  "\<exists>s. conn_reachable bu cf s \<and> panicked (cn s) \<and> pc s 0 = ReqUndo (getSeqOffset cf) err_shutdown"
proof -
  let ?sq = "getSeqOffset cf"
  let ?s1 = "run_down EOF (run_registered cf)"
  let ?s2 = "?s1\<lparr>cn := Conn_close (read_loop_err EOF) [?sq] (cn ?s1), hp := HClosed (read_loop_err EOF)\<rparr>"
  let ?s3 = "?s2\<lparr>cn := cn ?s2, pc := (pc ?s2)(0 := ReqFail ?sq err_shutdown)\<rparr>"
  let ?s4 = "?s3\<lparr>cn := pr_Done 0 (cn ?s3), pc := (pc ?s3)(0 := ReqUndo ?sq err_shutdown)\<rparr>"
  note defs = run_down_def run_registered_def sys_init_def Conn_init_def closeWriter_def
    Conn_close_def close_requests_def fail_request_def pr_Done_def Let_def
  have "conn_reachable bu cf ?s1"
    by (rule run_down [OF run_registered]) (simp_all add: run_registered_def sys_init_def Conn_init_def)
  then have "conn_reachable bu cf ?s2"
    by (rule reach_handle [OF _ h_close]) (simp_all add: defs)
  then have "conn_reachable bu cf ?s3"
    by (rule reach_call [OF _ call_step.req_refused]) (simp_all add: defs prepare_refused)
  then have "conn_reachable bu cf ?s4"
    by (rule reach_call [OF _ call_step.req_fail_done]) (simp_all add: defs)
  moreover have "panicked (cn ?s4)" by (simp add: defs)
  moreover have "pc ?s4 0 = ReqUndo ?sq err_shutdown" by simp
  ultimately show ?thesis by blast
qed


section \<open>Witnesses\<close>

text \<open>Call 0 sends one message, which is written; then the connection goes down and is closed.\<close>

definition run_sent :: sys where
  "run_sent = run_down EOF (run_flush 0 (sys_init\<lparr>
     cn := snd (preparePendingWrite Conn_init 0 (send_buf (bytesutil_model 3) [] 0 [7]) True),
     pc := (pc sys_init)(0 := SendWait), acc := acc sys_init @ [0]\<rparr>))"

definition run_sent_closed :: sys where
  "run_sent_closed = run_sent\<lparr>cn := Conn_close (read_loop_err EOF) [] (cn run_sent),
     hp := HClosed (read_loop_err EOF)\<rparr>"

lemmas run_defs = run_down_def run_flush_def run_registered_def sys_init_def Conn_init_def
  closeWriter_def preparePendingWrite_def finish_write_def pw_Done_def

lemma run_sent_steps: "(own_step (bytesutil_model 3) cf)\<^sup>*\<^sup>* sys_init run_sent"
proof -
  let ?bu = "bytesutil_model 3"
  have "(own_step ?bu cf)\<^sup>*\<^sup>* sys_init (sys_init\<lparr>
     cn := snd (preparePendingWrite Conn_init 0 (send_buf ?bu [] 0 [7]) True),
     pc := (pc sys_init)(0 := SendWait), acc := acc sys_init @ [0]\<rparr>)"
    by (rule own_steps(1) [OF rtranclp.rtrancl_refl call_step.send [where B = "[]" and sq = 0 and p = "[7]"]])
      (simp_all add: run_defs)
  from run_flush_steps [OF this, of 0] show ?thesis
    unfolding run_sent_def by (intro run_down_steps) (simp_all add: run_defs)
qed

lemma run_sent: "conn_reachable (bytesutil_model 3) cf run_sent"
  by (rule own_reach [OF conn_reachable.start run_sent_steps])

lemma run_sent_close: "handle_step run_sent run_sent_closed"
  unfolding run_sent_closed_def by (rule h_close) (simp_all add: run_sent_def run_defs)

lemma run_closed_steps: "(own_step (bytesutil_model 3) cf)\<^sup>*\<^sup>* sys_init run_sent_closed"
  by (rule own_steps(4) [OF run_sent_steps run_sent_close]) (simp_all add: run_sent_closed_def run_sent_def run_defs)

lemma run_sent_closed: "conn_reachable (bytesutil_model 3) cf run_sent_closed"
  by (rule own_reach [OF conn_reachable.start run_closed_steps])

lemma run_closed_fields:
  "pc run_sent_closed 0 = SendWait" "hp run_sent_closed = HClosed (read_loop_err EOF)" "sock_shut run_sent_closed"
  "\<not> panicked (cn run_sent_closed)" "pws (cn run_sent_closed) 0 = \<lparr>pw_buf = send_buf (bytesutil_model 3) [] 0 [7],
     pw_wait = True, pw_err = None, pw_wg = 0\<rparr>" "sent run_sent_closed = [0]"
  by (simp_all add: run_sent_closed_def run_sent_def run_defs Conn_close_def close_requests_def)

theorem sends_complete_witness:
  "pc run_sent_closed 0 = SendWait \<and> pw_wg (pws (cn run_sent_closed) 0) = 0"
proof -
  show ?thesis
    using sends_complete [OF bm.bytesutil_spec_axioms run_sent_closed] run_closed_fields(1,2) by blast
qed


text \<open>Call 0 requests under the number 1 and waits, its message written.\<close>

definition run_waiting :: sys where
  "run_waiting = run_flush 0 ((run_registered client_config)\<lparr>
     cn := snd (preparePendingWrite (cn (run_registered client_config)) 0
       (send_buf (bytesutil_model 3) [] 1 [7]) False),
     pc := (pc (run_registered client_config))(0 := ReqWait 1),
     acc := acc (run_registered client_config) @ [0]\<rparr>)"

lemma client_offset: "getSeqOffset client_config = 1"
  by (simp add: getSeqOffset_def client_config_def)

lemma run_waiting: "conn_reachable (bytesutil_model 3) client_config run_waiting"
  unfolding run_waiting_def
  by (rule run_flush [OF reach_call [OF run_registered
        call_step.req_send [where B = "[]" and sq = 1 and p = "[7]"]]])
    (simp_all add: run_defs client_offset)

lemma run_waiting_fields:
  "pc run_waiting = (\<lambda>_. Idle)(0 := ReqWait 1)" "rl run_waiting = RIdle" "wl run_waiting = WIdle"
  "hp run_waiting = HSelect" "writerQueue (cn run_waiting) = []" "\<not> panicked (cn run_waiting)"
  "reqs (cn run_waiting) = [1 \<mapsto> 0]"
  "prs (cn run_waiting) 0 = \<lparr>pr_dst = None, pr_err = None, pr_wg = 1\<rparr>"
  by (simp_all add: run_waiting_def run_defs client_offset)




text \<open>The connection goes down instead.\<close>

definition run_cut :: sys where
  "run_cut = run_down EOF run_waiting"

definition run_cut_closed :: sys where
  "run_cut_closed = run_cut\<lparr>cn := Conn_close (read_loop_err EOF) [1] (cn run_cut),
     hp := HClosed (read_loop_err EOF)\<rparr>"

theorem close_wakes_requests_witness:
  "pc run_cut_closed 0 = ReqWait 1 \<and> pr_wg (prs (cn run_cut_closed) 0) = 0"
proof -
  have r: "conn_reachable (bytesutil_model 3) client_config run_cut"
    unfolding run_cut_def by (rule run_down [OF run_waiting]) (simp_all add: run_waiting_fields)
  have f: "hp run_cut = HRet (read_loop_err EOF)" "\<not> panicked (cn run_cut)"
    "pc run_cut_closed = (\<lambda>_. Idle)(0 := ReqWait 1)" "reqs (cn run_cut) = [1 \<mapsto> 0]"
    by (simp_all add: run_cut_def run_cut_closed_def run_down_def closeWriter_def run_waiting_fields)
  have "handle_step run_cut run_cut_closed"
    unfolding run_cut_closed_def by (rule h_close) (simp_all add: f)
  moreover have "hp run_cut_closed = HClosed (read_loop_err EOF)" by (simp add: run_cut_closed_def)
  moreover have "own_seq (pc run_cut_closed) 0 1" by (simp add: f own_seq_def)
  moreover have "pc run_cut_closed 0 = ReqWait 1" by (simp add: f)
  ultimately show ?thesis
    using close_wakes_requests [OF bm.bytesutil_spec_axioms r f(2)] by blast
qed

text \<open>A closed writer with an empty queue: one step, and the loop has returned.\<close>

definition run_idle_closed :: sys where
  "run_idle_closed = sys_init\<lparr>cn := closeWriter Conn_init\<rparr>"

theorem writer_terminates_witness:
  "1 + writer_work (run_idle_closed\<lparr>wl := WDone None\<rparr>) \<le> writer_work run_idle_closed"
proof -
  have "write_step client_config run_idle_closed
      (run_idle_closed\<lparr>cn := closeWriter Conn_init, wl := if True \<and> ([] :: nat list) = [] then WDone None else WDeadline []\<rparr>)"
    by (rule w_take) (simp_all add: run_idle_closed_def run_defs take_queue_def)
  then have "conn_run (bytesutil_model 3) client_config run_idle_closed (Suc 0)
      (run_idle_closed\<lparr>wl := WDone None\<rparr>)"
    by (intro run_writer [OF run_start]) (simp add: run_idle_closed_def)
  from writer_terminates [OF _ this] show ?thesis by (simp add: run_idle_closed_def closeWriter_def)
qed

end
