(* ===== verification/Transmit_Session.thy ===== *)
theory Transmit_Session
  imports Transmit_IO
begin

text \<open>
  \<^verbatim>\<open>streaming_transmit/session.go\<close> and the default handshakers of \<^verbatim>\<open>net.go\<close>: the
  encrypted connection (\<^verbatim>\<open>SessionConn\<close>) and the key exchange (\<^verbatim>\<open>Session\<close>). The cipher
  suite is the interface \<^verbatim>\<open>cipher.AEAD\<close>, a record of functions with the laws
  \<open>aead_spec\<close>; the key-exchange packages are the record \<open>keyx\<close> with the laws
  \<open>keyx_spec\<close>. Random keys are arguments. \<^verbatim>\<open>Close\<close>, addresses and deadlines only forward to
  the wrapped connection and are not modelled.
\<close>

section \<open>The cipher suite\<close>

record aead =
  NonceSize :: nat
  Overhead :: nat
  Seal :: "bytes \<Rightarrow> bytes \<Rightarrow> bytes \<Rightarrow> bytes \<Rightarrow> bytes"
  Open :: "bytes \<Rightarrow> bytes \<Rightarrow> bytes \<Rightarrow> bytes \<Rightarrow> bytes result"

text \<open>
  The contract of an AEAD suite: sealing adds \<open>Overhead\<close> bytes, opening inverts sealing
  under the same nonce and accepts nothing that sealing does not produce.
\<close>

locale aead_spec =
  fixes suite :: aead
  assumes nonce_size: "8 \<le> NonceSize suite"
    and seal_length: "length n = NonceSize suite \<Longrightarrow>
      length (Seal suite [] n p ad) = length p + Overhead suite"
    and open_seal: "length n = NonceSize suite \<Longrightarrow>
      Open suite [] n (Seal suite [] n p ad) ad = Ok p"
    and open_sealed: "length n = NonceSize suite \<Longrightarrow>
      Open suite [] n c ad = Ok p \<Longrightarrow> c = Seal suite [] n p ad"

section \<open>SessionConn\<close>

record SessionConn =
  sc_suite :: aead
  sc_bw :: bufw
  sc_br :: reader
  sc_rb :: bytes
  sc_wb :: bytes
  sc_wn :: u64
  sc_rn :: u64

record netconn =
  nc_w :: netw
  nc_r :: reader

definition NewSessionConn :: "aead \<Rightarrow> netconn \<Rightarrow> SessionConn" where
  "NewSessionConn suite c = \<lparr>sc_suite = suite, sc_bw = bufio_NewWriter (nc_w c), sc_br = nc_r c,
     sc_rb = [], sc_wb = [], sc_wn = 0, sc_rn = 0\<rparr>"

text \<open>
  \<^verbatim>\<open>(*SessionConn).Read(b)\<close> with \<open>blen = len(b)\<close> and \<open>bcap = cap(b)\<close>; the result is
  what was copied into \<open>b\<close>.
\<close>

definition SessionConn_Read ::
  "bytesutil \<Rightarrow> SessionConn \<Rightarrow> nat \<Rightarrow> nat \<Rightarrow> bytes result \<times> SessionConn" where
  "SessionConn_Read bu s blen bcap =
     (case ReadSized bu [] (sc_br s) bcap of
        (Inl e, r) \<Rightarrow> (Err e, s\<lparr>sc_br := r, sc_rb := []\<rparr>)
      | (Inr rb, r) \<Rightarrow>
          (let ns = NonceSize (sc_suite s);
               rb = ExtendSlice bu rb (length rb + ns);
               i = length rb - ns;
               rb = overlay rb i (replicate ns 0) in
           if ns < 8 then (Panic ''index out of range'', s\<lparr>sc_br := r, sc_rb := rb\<rparr>)
           else
             (let rb = overlay rb i (be_put64 (sc_rn s));
                  s = s\<lparr>sc_br := r, sc_rn := sc_rn s + 1\<rparr> in
              case Open (sc_suite s) (take 0 rb) (drop i rb) (take i rb) [] of
                Ok rb \<Rightarrow> (Ok (take blen rb), s\<lparr>sc_rb := rb\<rparr>)
              | Err e \<Rightarrow> (Err e, s\<lparr>sc_rb := []\<rparr>)
              | Panic m \<Rightarrow> (Panic m, s\<lparr>sc_rb := rb\<rparr>))))"

text \<open>\<^verbatim>\<open>(*SessionConn).Write(b)\<close>; the count returned is that of the sealed message.\<close>

definition SessionConn_Write ::
  "bytesutil \<Rightarrow> SessionConn \<Rightarrow> bytes \<Rightarrow> nat result \<times> SessionConn" where
  "SessionConn_Write bu s b =
     (let suite = sc_suite s; ns = NonceSize suite;
          wb = ExtendSlice bu (sc_wb s) (ns + length b + Overhead suite) in
      if length wb < 8 then (Panic ''slice bounds out of range'', s\<lparr>sc_wb := wb\<rparr>)
      else
        (let wb = overlay wb 0 (be_put64 (sc_wn s));
             wb = overlay wb 8 (replicate (ns - 8) 0);
             wb = Seal suite [] (take ns wb) b [] in
         case WriteSized bu bw_write (sc_bw s) wb of
           (w, Some e) \<Rightarrow> (Err e, s\<lparr>sc_wn := sc_wn s + 1, sc_wb := wb, sc_bw := w\<rparr>)
         | (w, None) \<Rightarrow>
             (Ok (length wb), s\<lparr>sc_wn := sc_wn s + 1, sc_wb := wb, sc_bw := w\<rparr>)))"

definition SessionConn_Flush :: "SessionConn \<Rightarrow> SessionConn \<times> goerr option" where
  "SessionConn_Flush s = (case bw_flush (sc_bw s) of (w, e) \<Rightarrow> (s\<lparr>sc_bw := w\<rparr>, e))"

section \<open>The key exchange\<close>

record keyx =
  EdPublicKeyToX25519 :: "bytes \<Rightarrow> bytes option"
  EdPrivateKeyToX25519 :: "bytes \<Rightarrow> bytes"
  X25519 :: "bytes \<Rightarrow> bytes \<Rightarrow> goerr + bytes"
  PointSize :: nat
  Sum256 :: "bytes \<Rightarrow> bytes"
  aes_NewCipher :: "bytes \<Rightarrow> goerr + bytes"
  cipher_NewGCM :: "bytes \<Rightarrow> goerr + aead"

record Session =
  ss_suite :: "aead option"
  ss_theirPub :: "bytes option"
  ss_sharedKey :: "bytes option"

definition new_Session :: Session where
  "new_Session = \<lparr>ss_suite = None, ss_theirPub = None, ss_sharedKey = None\<rparr>"

definition Session_Write :: "netconn \<Rightarrow> bytes \<Rightarrow> netconn \<times> goerr option" where
  "Session_Write c ourPub =
     (case Write netw_write (nc_w c) ourPub of
        (w, Some err) \<Rightarrow>
          (c\<lparr>nc_w := w\<rparr>, Some (Wrapf ''failed to write session public key: %w'' [] err))
      | (w, None) \<Rightarrow> (c\<lparr>nc_w := w\<rparr>, None))"

definition Session_Read :: "keyx \<Rightarrow> Session \<Rightarrow> netconn \<Rightarrow> Session \<times> netconn \<times> goerr option" where
  "Session_Read ks s c =
     (case Read (replicate (PointSize ks) 0) (nc_r c) of
        (Inr publicKey, r) \<Rightarrow> (s\<lparr>ss_theirPub := Some publicKey\<rparr>, c\<lparr>nc_r := r\<rparr>, None)
      | (Inl err, r) \<Rightarrow>
          (s, c\<lparr>nc_r := r\<rparr>, Some (Wrapf ''failed to read peer session public key: %w'' [] err)))"

definition Session_Establish :: "keyx \<Rightarrow> Session \<Rightarrow> bytes \<Rightarrow> Session \<times> goerr option" where
  "Session_Establish ks s ourPriv =
     (case ss_theirPub s of
        None \<Rightarrow> (s, Some (ErrNew ''did not read peer session public key yet''))
      | Some theirPub \<Rightarrow>
          (case X25519 ks ourPriv theirPub of
             Inl err \<Rightarrow> (s, Some (Wrapf ''failed to derive shared session key: %w'' [] err))
           | Inr sharedKey \<Rightarrow>
               (let derivedKey = Sum256 ks sharedKey in
                case aes_NewCipher ks derivedKey of
                  Inl err \<Rightarrow> (s, Some (Wrapf ''failed to init aes cipher: %w'' [] err))
                | Inr block \<Rightarrow>
                    (case cipher_NewGCM ks block of
                       Inl err \<Rightarrow> (s, Some (Wrapf ''failed to init aead suite: %w'' [] err))
                     | Inr suite \<Rightarrow>
                         (s\<lparr>ss_sharedKey := Some derivedKey, ss_suite := Some suite\<rparr>, None)))))"

text \<open>\<^verbatim>\<open>gen\<close> is the outcome of \<^verbatim>\<open>ed25519.GenerateKey(nil)\<close>: a key pair or an error.\<close>

definition GenerateEphemeralKeys :: "keyx \<Rightarrow> (goerr + (bytes \<times> bytes)) \<Rightarrow> goerr + (bytes \<times> bytes)" where
  "GenerateEphemeralKeys ks gen =
     (case gen of
        Inl err \<Rightarrow> Inl err
      | Inr (publicKey, privateKey) \<Rightarrow>
          (case EdPublicKeyToX25519 ks publicKey of
             None \<Rightarrow> Inl (ErrNew ''unable to derive ed25519 key to x25519 key'')
           | Some ourPub \<Rightarrow> Inr (ourPub, EdPrivateKeyToX25519 ks privateKey)))"

definition DoClient ::
  "keyx \<Rightarrow> (goerr + (bytes \<times> bytes)) \<Rightarrow> Session \<Rightarrow> netconn \<Rightarrow> Session \<times> netconn \<times> goerr option" where
  "DoClient ks gen s c =
     (case GenerateEphemeralKeys ks gen of
        Inl err \<Rightarrow> (s, c, Some err)
      | Inr (ourPub, ourPriv) \<Rightarrow>
          (case Session_Write c ourPub of
             (c, Some err) \<Rightarrow> (s, c, Some err)
           | (c, None) \<Rightarrow>
               (case Session_Read ks s c of
                  (s, c, Some err) \<Rightarrow> (s, c, Some err)
                | (s, c, None) \<Rightarrow>
                    (case Session_Establish ks s ourPriv of (s, err) \<Rightarrow> (s, c, err)))))"

definition DoServer ::
  "keyx \<Rightarrow> (goerr + (bytes \<times> bytes)) \<Rightarrow> Session \<Rightarrow> netconn \<Rightarrow> Session \<times> netconn \<times> goerr option" where
  "DoServer ks gen s c =
     (case GenerateEphemeralKeys ks gen of
        Inl err \<Rightarrow> (s, c, Some err)
      | Inr (ourPub, ourPriv) \<Rightarrow>
          (case Session_Read ks s c of
             (s, c, Some err) \<Rightarrow> (s, c, Some err)
           | (s, c, None) \<Rightarrow>
               (case Session_Write c ourPub of
                  (c, Some err) \<Rightarrow> (s, c, Some err)
                | (c, None) \<Rightarrow>
                    (case Session_Establish ks s ourPriv of (s, err) \<Rightarrow> (s, c, err)))))"

text \<open>
  The default handshakers of \<^verbatim>\<open>net.go\<close>. A session that reports no error has set its suite
  (lemma \<open>Do_suite\<close>), so the branch without one is never taken.
\<close>

definition session_conn :: "Session \<times> netconn \<times> goerr option \<Rightarrow> SessionConn result" where
  "session_conn x =
     (case x of
        (s, c, Some err) \<Rightarrow> Err err
      | (s, c, None) \<Rightarrow>
          (case ss_suite s of
             None \<Rightarrow> Panic ''nil suite''
           | Some suite \<Rightarrow> Ok (NewSessionConn suite c)))"

definition DefaultClientHandshaker ::
  "keyx \<Rightarrow> (goerr + (bytes \<times> bytes)) \<Rightarrow> netconn \<Rightarrow> SessionConn result" where
  "DefaultClientHandshaker ks gen c = session_conn (DoClient ks gen new_Session c)"

definition DefaultServerHandshaker ::
  "keyx \<Rightarrow> (goerr + (bytes \<times> bytes)) \<Rightarrow> netconn \<Rightarrow> SessionConn result" where
  "DefaultServerHandshaker ks gen c = session_conn (DoServer ks gen new_Session c)"

lemma Do_suite:
  "DoClient ks gen s c = (s', c', None) \<Longrightarrow> ss_suite s' \<noteq> None"
  "DoServer ks gen s c = (s', c', None) \<Longrightarrow> ss_suite s' \<noteq> None"
  by (auto simp: DoClient_def DoServer_def Session_Establish_def Let_def
      split: sum.splits prod.splits option.splits)

section \<open>Sequences of messages\<close>

fun write_all :: "bytesutil \<Rightarrow> SessionConn \<Rightarrow> bytes list \<Rightarrow> SessionConn result" where
  "write_all bu s [] = Ok s"
| "write_all bu s (m # ms) =
     (case SessionConn_Write bu s m of
        (Ok _, s) \<Rightarrow> write_all bu s ms
      | (Err e, _) \<Rightarrow> Err e
      | (Panic p, _) \<Rightarrow> Panic p)"

fun read_all :: "bytesutil \<Rightarrow> SessionConn \<Rightarrow> nat \<Rightarrow> nat \<Rightarrow> bytes list result" where
  "read_all bu s n 0 = Ok []"
| "read_all bu s n (Suc k) =
     (case SessionConn_Read bu s n n of
        (Ok m, s) \<Rightarrow>
          (case read_all bu s n k of Ok ms \<Rightarrow> Ok (m # ms) | Err e \<Rightarrow> Err e | Panic p \<Rightarrow> Panic p)
      | (Err e, _) \<Rightarrow> Err e
      | (Panic p, _) \<Rightarrow> Panic p)"

section \<open>Lemmas\<close>

definition nonce :: "nat \<Rightarrow> u64 \<Rightarrow> bytes" where
  "nonce ns n = be_put64 n @ replicate (ns - 8) 0"

lemma length_nonce [simp]: "8 \<le> ns \<Longrightarrow> length (nonce ns n) = ns"
  by (simp add: nonce_def)

lemma nonce_inj [simp]: "nonce ns a = nonce ns b \<longleftrightarrow> a = b"
  by (simp add: nonce_def)

lemma nonce_step_inj:
  assumes "i < 2 ^ 64" and "j < 2 ^ 64"
  shows "nonce ns (n + of_nat i) = nonce ns (n + of_nat j) \<longleftrightarrow> i = j"
  using assms take_bit_nat_eq_self [of i 64] take_bit_nat_eq_self [of j 64]
  by (simp add: word_of_nat_eq_iff)

definition sealed :: "aead \<Rightarrow> u64 \<Rightarrow> bytes \<Rightarrow> bytes" where
  "sealed suite n m = Seal suite [] (nonce (NonceSize suite) n) m []"

fun wire :: "aead \<Rightarrow> u64 \<Rightarrow> bytes list \<Rightarrow> bytes" where
  "wire suite n [] = []"
| "wire suite n (m # ms) = frame (sealed suite n m) @ wire suite (n + 1) ms"

lemma overlay_nonce:
  assumes "8 \<le> ns" and "ns \<le> length wb"
  shows "take ns (overlay (overlay wb 0 (be_put64 n)) 8 (replicate (ns - 8) 0)) = nonce ns n"
  using assms by (simp add: overlay_def nonce_def)

lemma overlay_nonce_tail:
  assumes "8 \<le> ns" and "length xs = i + ns"
  shows "overlay (overlay xs i (replicate ns 0)) i (be_put64 n) = take i xs @ nonce ns n"
  using assms by (simp add: overlay_def nonce_def)

lemma wire_concat:
  "wire suite n ms = concat (map (\<lambda>i. frame (sealed suite (n + of_nat i) (ms ! i))) [0..<length ms])"
proof (induction ms arbitrary: n)
  case Nil
  then show ?case by simp
next
  case (Cons m ms)
  have "[0..<length (m # ms)] = 0 # map Suc [0..<length ms]"
    by (simp only: length_Cons upt_conv_Cons map_Suc_upt zero_less_Suc)
  with Cons show ?case by (simp add: o_def add.assoc)
qed

locale channel = bytesutil_spec bu + aead_spec suite for bu suite
begin

lemma sealed_length [simp]: "length (sealed suite n m) = length m + Overhead suite"
  by (simp add: sealed_def seal_length nonce_size)

lemma Write_unfold:
  assumes "sc_suite s = suite"
  shows "SessionConn_Write bu s b =
    (case WriteSized bu bw_write (sc_bw s) (sealed suite (sc_wn s) b) of
       (w, e) \<Rightarrow> (case e of Some e \<Rightarrow> Err e | None \<Rightarrow> Ok (length b + Overhead suite),
                s\<lparr>sc_wn := sc_wn s + 1, sc_wb := sealed suite (sc_wn s) b, sc_bw := w\<rparr>))"
proof -
  let ?wb = "ExtendSlice bu (sc_wb s) (NonceSize suite + length b + Overhead suite)"
  have "take (NonceSize suite) (overlay (overlay ?wb 0 (be_put64 (sc_wn s))) 8
      (replicate (NonceSize suite - 8) 0)) = nonce (NonceSize suite) (sc_wn s)"
    by (rule overlay_nonce) (use nonce_size in \<open>simp_all add: length_ExtendSlice\<close>)
  moreover have "\<not> length ?wb < 8"
    using nonce_size by (simp add: length_ExtendSlice)
  ultimately show ?thesis
    using assms sealed_length [of "sc_wn s" b]
    by (simp add: SessionConn_Write_def Let_def sealed_def split: prod.split option.split)
qed

lemma Read_unfold:
  assumes "sc_suite s = suite"
  shows "SessionConn_Read bu s blen bcap =
    (case ReadSized bu [] (sc_br s) bcap of
       (Inl e, r) \<Rightarrow> (Err e, s\<lparr>sc_br := r, sc_rb := []\<rparr>)
     | (Inr c, r) \<Rightarrow>
         (case Open suite [] (nonce (NonceSize suite) (sc_rn s)) c [] of
            Ok p \<Rightarrow> (Ok (take blen p), s\<lparr>sc_br := r, sc_rn := sc_rn s + 1, sc_rb := p\<rparr>)
          | Err e \<Rightarrow> (Err e, s\<lparr>sc_br := r, sc_rn := sc_rn s + 1, sc_rb := []\<rparr>)
          | Panic m \<Rightarrow> (Panic m, s\<lparr>sc_br := r, sc_rn := sc_rn s + 1,
              sc_rb := c @ nonce (NonceSize suite) (sc_rn s)\<rparr>)))"
proof -
  have "overlay (overlay (ExtendSlice bu c (length c + NonceSize suite)) (length c)
      (replicate (NonceSize suite) 0)) (length c) (be_put64 n) = c @ nonce (NonceSize suite) n"
    for c n
    using overlay_nonce_tail [OF nonce_size, of "ExtendSlice bu c (length c + NonceSize suite)"]
      take_ExtendSlice [of c "length c + NonceSize suite"]
    by (simp add: length_ExtendSlice)
  then show ?thesis
    using assms nonce_size
    by (simp add: SessionConn_Read_def Let_def length_ExtendSlice split: prod.split sum.split result.split)
qed

lemma Write_ok:
  assumes "sc_suite s = suite" and "SessionConn_Write bu s b = (Ok k, s')"
  shows "bw_accepted (sc_bw s') = bw_accepted (sc_bw s) @ frame (sealed suite (sc_wn s) b)"
    and "sc_suite s' = suite" and "sc_wn s' = sc_wn s + 1" and "k = length b + Overhead suite"
  using assms bw.WriteSized_ok [OF bytesutil_spec_axioms]
  by (auto simp: Write_unfold [OF assms(1)] split: prod.splits option.splits)

lemma write_all_wire:
  assumes "sc_suite s = suite" and "write_all bu s ms = Ok s'"
  shows "bw_accepted (sc_bw s') = bw_accepted (sc_bw s) @ wire suite (sc_wn s) ms \<and>
    sc_suite s' = suite \<and> sc_wn s' = sc_wn s + of_nat (length ms)"
  using assms
proof (induction ms arbitrary: s)
  case Nil
  then show ?case by simp
next
  case (Cons m ms)
  from Cons.prems(2) obtain k s1 where w: "SessionConn_Write bu s m = (Ok k, s1)"
    and rest: "write_all bu s1 ms = Ok s'"
    by (auto split: prod.splits result.splits)
  from Cons.IH [OF Write_ok(2) [OF Cons.prems(1) w] rest] Write_ok [OF Cons.prems(1) w]
  show ?case by (simp add: add.assoc)
qed

lemma write_all_healthy:
  assumes "sc_suite s = suite" and "bw_healthy (sc_bw s)"
  shows "\<exists>s'. write_all bu s ms = Ok s' \<and> bw_healthy (sc_bw s')"
  using assms
proof (induction ms arbitrary: s)
  case Nil
  then show ?case by simp
next
  case (Cons m ms)
  obtain w where w: "WriteSized bu bw_write (sc_bw s) (sealed suite (sc_wn s) m) = (w, None)" "bw_healthy w"
    using WriteSized_healthy [OF Cons.prems(2)] by blast
  let ?s = "s\<lparr>sc_wn := sc_wn s + 1, sc_wb := sealed suite (sc_wn s) m, sc_bw := w\<rparr>"
  have "SessionConn_Write bu s m = (Ok (length m + Overhead suite), ?s)"
    by (simp add: Write_unfold [OF Cons.prems(1)] w)
  moreover have "\<exists>s'. write_all bu ?s ms = Ok s' \<and> bw_healthy (sc_bw s')"
    by (rule Cons.IH) (simp_all add: Cons.prems w)
  ultimately show ?case by simp
qed

lemma Read_frame:
  assumes "sc_suite s = suite" and "sc_br s = \<lparr>r_avail = frame (sealed suite (sc_rn s) m) @ rest, r_err = e\<rparr>"
    and "length m + Overhead suite \<le> bcap" and "length m \<le> blen" and "bcap < 2 ^ 32"
  shows "SessionConn_Read bu s blen bcap =
    (Ok m, s\<lparr>sc_br := \<lparr>r_avail = rest, r_err = e\<rparr>, sc_rn := sc_rn s + 1, sc_rb := m\<rparr>)"
  using assms nonce_size
  by (simp add: Read_unfold ReadSized_frame open_seal [folded sealed_def, OF length_nonce])
    (simp add: sealed_def open_seal)

lemma read_all_wire:
  assumes "sc_suite s = suite" and "sc_br s = \<lparr>r_avail = wire suite (sc_rn s) ms @ rest, r_err = e\<rparr>"
    and "\<forall>m \<in> set ms. length m + Overhead suite \<le> cap" and "cap < 2 ^ 32"
  shows "read_all bu s cap (length ms) = Ok ms"
  using assms
proof (induction ms arbitrary: s)
  case Nil
  then show ?case by simp
next
  case (Cons m ms)
  let ?s = "s\<lparr>sc_br := \<lparr>r_avail = wire suite (sc_rn s + 1) ms @ rest, r_err = e\<rparr>,
    sc_rn := sc_rn s + 1, sc_rb := m\<rparr>"
  have "SessionConn_Read bu s cap cap = (Ok m, ?s)"
    using Cons.prems by (intro Read_frame) auto
  moreover have "read_all bu ?s cap (length ms) = Ok ms"
    using Cons.prems by (intro Cons.IH) auto
  ultimately show ?case by simp
qed

text \<open>
  A fresh connection on a writer that already sent \<open>A\<close>: the messages written and flushed
  are what the peer reads behind \<open>A\<close>.
\<close>

lemma delivers:
  assumes "nw_room wc = None" and "nw_sent wc = []"
    and "\<forall>m \<in> set ms. length m + Overhead suite \<le> cap" and "cap < 2 ^ 32"
  shows "\<exists>c1 c2. write_all bu (NewSessionConn suite \<lparr>nc_w = wc\<lparr>nw_sent := A\<rparr>, nc_r = rc\<rparr>) ms = Ok c1 \<and>
    SessionConn_Flush c1 = (c2, None) \<and> (\<exists>ys. nw_sent (bw_wr (sc_bw c2)) = A @ ys \<and>
      (\<forall>ws f. read_all bu (NewSessionConn suite \<lparr>nc_w = ws, nc_r = \<lparr>r_avail = ys, r_err = f\<rparr>\<rparr>)
        cap (length ms) = Ok ms))"
proof -
  let ?c0 = "NewSessionConn suite \<lparr>nc_w = wc\<lparr>nw_sent := A\<rparr>, nc_r = rc\<rparr>"
  have su: "sc_suite ?c0 = suite" and wn: "sc_wn ?c0 = 0" and he: "bw_healthy (sc_bw ?c0)"
    and acc: "bw_accepted (sc_bw ?c0) = A"
    using assms(1)
    by (simp_all add: NewSessionConn_def bw_accepted_def bufio_NewWriter_def bw_healthy_def)
  obtain c1 where c1: "write_all bu ?c0 ms = Ok c1" "bw_healthy (sc_bw c1)"
    using write_all_healthy [OF su he] by blast
  obtain w where w: "bw_flush (sc_bw c1) = (w, None)"
    using bw_flush_healthy [OF c1(2)] by (cases "bw_flush (sc_bw c1)") auto
  have "nw_sent (bw_wr w) = A @ wire suite 0 ms"
    using bw_flush_sent [OF w] write_all_wire [OF su c1(1)] acc wn by simp
  moreover have "read_all bu (NewSessionConn suite \<lparr>nc_w = ws, nc_r = \<lparr>r_avail = wire suite 0 ms, r_err = f\<rparr>\<rparr>)
      cap (length ms) = Ok ms" for ws f
    by (rule read_all_wire [where rest = "[]"])
      (use assms(3,4) in \<open>simp_all add: NewSessionConn_def\<close>)
  ultimately show ?thesis
    using c1(1) w by (auto simp: SessionConn_Flush_def)
qed

lemma Read_authentic:
  assumes "sc_suite s = suite" and "SessionConn_Read bu s blen bcap = (Ok p, s')"
  shows "\<exists>m. ReadSized bu [] (sc_br s) bcap = (Inr (sealed suite (sc_rn s) m), sc_br s') \<and>
    p = take blen m \<and> sc_rn s' = sc_rn s + 1"
proof -
  let ?n = "nonce (NonceSize suite) (sc_rn s)"
  from assms(2) obtain c m where "ReadSized bu [] (sc_br s) bcap = (Inr c, sc_br s')"
    and op: "Open suite [] ?n c [] = Ok m" and "p = take blen m" and "sc_rn s' = sc_rn s + 1"
    by (auto simp: Read_unfold [OF assms(1)] split: prod.splits sum.splits result.splits)
  moreover have "c = sealed suite (sc_rn s) m"
    using open_sealed [OF _ op] nonce_size by (simp add: sealed_def)
  ultimately show ?thesis by blast
qed

lemma Read_oversize:
  assumes "sc_suite s = suite" and "length m + Overhead suite < 2 ^ 32" and "bcap < length m + Overhead suite"
    and "sc_br s = \<lparr>r_avail = frame (sealed suite n m) @ rest, r_err = e\<rparr>"
  shows "SessionConn_Read bu s blen bcap =
    (Err (Errorf ''max is %d bytes, got %d bytes'' [ArgNat bcap, ArgNat (length m + Overhead suite)]),
     s\<lparr>sc_br := \<lparr>r_avail = sealed suite n m @ rest, r_err = e\<rparr>, sc_rb := []\<rparr>)"
  using assms unat_len32 [of "sealed suite n m"]
  by (simp add: Read_unfold frame_def ReadSized_header)

end

section \<open>The laws of the key exchange\<close>

text \<open>
  \<open>edpair a x\<close> says that \<open>a\<close> and \<open>x\<close> are a key pair of \<^verbatim>\<open>ed25519.GenerateKey\<close>. The
  laws: two pairs derive the same secret, a converted public key has the size of a point, the
  hash has 32 bytes, AES takes a 32-byte key, and GCM over it is an AEAD suite.
\<close>

locale keyx_spec =
  fixes ks :: keyx and edpair :: "bytes \<Rightarrow> bytes \<Rightarrow> bool"
  assumes agree: "edpair a x \<Longrightarrow> edpair b y \<Longrightarrow> EdPublicKeyToX25519 ks a = Some A \<Longrightarrow>
      EdPublicKeyToX25519 ks b = Some B \<Longrightarrow>
      X25519 ks (EdPrivateKeyToX25519 ks x) B = X25519 ks (EdPrivateKeyToX25519 ks y) A"
    and point_size: "EdPublicKeyToX25519 ks a = Some A \<Longrightarrow> length A = PointSize ks"
    and hash_size: "length (Sum256 ks k) = 32"
    and aes_key: "length k = 32 \<Longrightarrow> \<exists>b. aes_NewCipher ks k = Inr b"
    and gcm: "aes_NewCipher ks k = Inr b \<Longrightarrow>
      \<exists>suite. cipher_NewGCM ks b = Inr suite \<and> aead_spec suite"
begin

lemma Establish_ok:
  assumes "ss_theirPub s = Some P" and "X25519 ks priv P = Inr k"
  shows "\<exists>suite. aead_spec suite \<and> Session_Establish ks s priv =
    (s\<lparr>ss_sharedKey := Some (Sum256 ks k), ss_suite := Some suite\<rparr>, None) \<and>
    (\<exists>b. aes_NewCipher ks (Sum256 ks k) = Inr b \<and> cipher_NewGCM ks b = Inr suite)"
proof -
  obtain b where b: "aes_NewCipher ks (Sum256 ks k) = Inr b"
    using aes_key [OF hash_size] by blast
  with gcm obtain suite where "cipher_NewGCM ks b = Inr suite" "aead_spec suite" by blast
  with assms b show ?thesis by (simp add: Session_Establish_def)
qed

lemma Read_point:
  assumes "length P = PointSize ks"
  shows "Session_Read ks s \<lparr>nc_w = w, nc_r = \<lparr>r_avail = P @ xs, r_err = e\<rparr>\<rparr> =
    (s\<lparr>ss_theirPub := Some P\<rparr>, \<lparr>nc_w = w, nc_r = \<lparr>r_avail = xs, r_err = e\<rparr>\<rparr>, None)"
  using assms by (simp add: Session_Read_def Read_def)

lemma Write_point:
  assumes "nw_room w = None"
  shows "Session_Write \<lparr>nc_w = w, nc_r = r\<rparr> P =
    (\<lparr>nc_w = w\<lparr>nw_sent := nw_sent w @ P\<rparr>, nc_r = r\<rparr>, None)"
  using assms by (simp add: Session_Write_def Write_def netw_write_def)

lemma handshakers_agree:
  assumes pairs: "edpair a x" "edpair b y"
    and pubs: "EdPublicKeyToX25519 ks a = Some A" "EdPublicKeyToX25519 ks b = Some B"
    and secret: "X25519 ks (EdPrivateKeyToX25519 ks x) B = Inr k"
    and room: "nw_room wc = None" "nw_room ws = None"
  shows "\<exists>suite. aead_spec suite \<and> (\<forall>xs e ys f.
    DefaultClientHandshaker ks (Inr (a, x)) \<lparr>nc_w = wc, nc_r = \<lparr>r_avail = B @ xs, r_err = e\<rparr>\<rparr> =
      Ok (NewSessionConn suite
        \<lparr>nc_w = wc\<lparr>nw_sent := nw_sent wc @ A\<rparr>, nc_r = \<lparr>r_avail = xs, r_err = e\<rparr>\<rparr>) \<and>
    DefaultServerHandshaker ks (Inr (b, y)) \<lparr>nc_w = ws, nc_r = \<lparr>r_avail = A @ ys, r_err = f\<rparr>\<rparr> =
      Ok (NewSessionConn suite
        \<lparr>nc_w = ws\<lparr>nw_sent := nw_sent ws @ B\<rparr>, nc_r = \<lparr>r_avail = ys, r_err = f\<rparr>\<rparr>))"
proof -
  have secret': "X25519 ks (EdPrivateKeyToX25519 ks y) A = Inr k"
    using agree [OF pairs pubs] secret by simp
  note len = point_size [OF pubs(1)] point_size [OF pubs(2)]
  note simps = DefaultClientHandshaker_def DefaultServerHandshaker_def DoClient_def DoServer_def
    GenerateEphemeralKeys_def pubs Read_point len Write_point room session_conn_def
  obtain suite where s: "aead_spec suite" "Session_Establish ks
      (new_Session\<lparr>ss_theirPub := Some B\<rparr>) (EdPrivateKeyToX25519 ks x) =
      (new_Session\<lparr>ss_theirPub := Some B, ss_sharedKey := Some (Sum256 ks k), ss_suite := Some suite\<rparr>, None)"
    "\<exists>b. aes_NewCipher ks (Sum256 ks k) = Inr b \<and> cipher_NewGCM ks b = Inr suite"
    using Establish_ok [of "new_Session\<lparr>ss_theirPub := Some B\<rparr>" B, OF _ secret] by auto
  moreover have "Session_Establish ks
      (new_Session\<lparr>ss_theirPub := Some A\<rparr>) (EdPrivateKeyToX25519 ks y) =
      (new_Session\<lparr>ss_theirPub := Some A, ss_sharedKey := Some (Sum256 ks k), ss_suite := Some suite\<rparr>, None)"
    using Establish_ok [of "new_Session\<lparr>ss_theirPub := Some A\<rparr>" A, OF _ secret'] s(3) by auto
  ultimately show ?thesis by (intro exI [of _ suite]) (simp add: simps)
qed

end

section \<open>Concrete suites and keys\<close>

text \<open>
  An AEAD suite whose ciphertext is the plaintext followed by the nonce as its tag, and a key
  exchange over one-byte secrets under addition, to show that the laws can hold.
\<close>

definition aead_model :: aead where
  "aead_model = \<lparr>NonceSize = 12, Overhead = 12,
     Seal = (\<lambda>dst n p ad. dst @ p @ n),
     Open = (\<lambda>dst n c ad.
       if length n \<le> length c \<and> drop (length c - length n) c = n
       then Ok (dst @ take (length c - length n) c)
       else Err (ErrNew ''cipher: message authentication failed''))\<rparr>"

lemma open_model_sealed:
  "Open aead_model [] n c ad = Ok p \<Longrightarrow> c = p @ n"
  by (auto simp: aead_model_def split: if_splits) (metis append_take_drop_id)

interpretation am: aead_spec aead_model
proof unfold_locales
  show "Open aead_model [] n c ad = Ok p \<Longrightarrow> c = Seal aead_model [] n p ad" for n c ad p
    by (drule open_model_sealed) (simp add: aead_model_def)
qed (auto simp: aead_model_def)

interpretation cm: channel "bytesutil_model j" aead_model for j
  by unfold_locales

definition keyx_model :: keyx where
  "keyx_model = \<lparr>EdPublicKeyToX25519 = (\<lambda>a. if length a = 1 then Some a else None),
     EdPrivateKeyToX25519 = (\<lambda>x. x),
     X25519 = (\<lambda>x P. if length x = 1 \<and> length P = 1 then Inr [hd x + hd P] else Inl (ErrNew ''bad point'')),
     PointSize = 1,
     Sum256 = (\<lambda>k. take 32 (k @ replicate 32 0)),
     aes_NewCipher = (\<lambda>k. if length k = 32 then Inr k else Inl (ErrNew ''bad key size'')),
     cipher_NewGCM = (\<lambda>b. Inr aead_model)\<rparr>"

interpretation xm: keyx_spec keyx_model "\<lambda>a x. a = x"
  by unfold_locales
    (auto simp: keyx_model_def am.aead_spec_axioms add.commute split: if_splits)

section \<open>Properties\<close>

text \<open>
  The encrypted channel, end to end: two peers with honest key pairs run the default
  handshakers against each other over a connection that loses nothing. Both handshakes
  succeed, every write of the client and its flush succeed, and the server, reading from
  exactly the bytes the client sent, receives the client's messages in order, for every list
  of messages that fit the reader's buffer together with the overhead of the suite.
\<close>

lemma secure_channel:
  assumes "bytesutil_spec bu" and "keyx_spec ks edpair"
    and "edpair a x" and "edpair b y"
    and "EdPublicKeyToX25519 ks a = Some A" and "EdPublicKeyToX25519 ks b = Some B"
    and "X25519 ks (EdPrivateKeyToX25519 ks x) B = Inr k"
    and "nw_room wc = None" and "nw_room ws = None" and "nw_sent wc = []"
  shows "\<exists>c0. DefaultClientHandshaker ks (Inr (a, x))
      \<lparr>nc_w = wc, nc_r = \<lparr>r_avail = B @ zs, r_err = e\<rparr>\<rparr> = Ok c0 \<and>
    (\<forall>ms cap. (\<forall>m \<in> set ms. length m + Overhead (sc_suite c0) \<le> cap) \<and> cap < 2 ^ 32 \<longrightarrow>
      (\<exists>c1 c2 s0. write_all bu c0 ms = Ok c1 \<and> SessionConn_Flush c1 = (c2, None) \<and>
        DefaultServerHandshaker ks (Inr (b, y))
          \<lparr>nc_w = ws, nc_r = \<lparr>r_avail = nw_sent (bw_wr (sc_bw c2)), r_err = f\<rparr>\<rparr> = Ok s0 \<and>
        read_all bu s0 cap (length ms) = Ok ms))"
proof -
  obtain suite where ae: "aead_spec suite"
    and cl: "DefaultClientHandshaker ks (Inr (a, x)) \<lparr>nc_w = wc, nc_r = \<lparr>r_avail = B @ zs, r_err = e\<rparr>\<rparr> =
      Ok (NewSessionConn suite
        \<lparr>nc_w = wc\<lparr>nw_sent := nw_sent wc @ A\<rparr>, nc_r = \<lparr>r_avail = zs, r_err = e\<rparr>\<rparr>)"
    and srv: "\<And>ys. DefaultServerHandshaker ks (Inr (b, y))
        \<lparr>nc_w = ws, nc_r = \<lparr>r_avail = A @ ys, r_err = f\<rparr>\<rparr> =
      Ok (NewSessionConn suite
        \<lparr>nc_w = ws\<lparr>nw_sent := nw_sent ws @ B\<rparr>, nc_r = \<lparr>r_avail = ys, r_err = f\<rparr>\<rparr>)"
    using keyx_spec.handshakers_agree [OF assms(2-9)] by blast
  have ch: "channel bu suite" using assms(1) ae by (rule channel.intro)
  show ?thesis
  proof (rule exI [of _ "NewSessionConn suite \<lparr>nc_w = wc\<lparr>nw_sent := A\<rparr>,
      nc_r = \<lparr>r_avail = zs, r_err = e\<rparr>\<rparr>"], intro conjI allI impI)
    fix ms :: "bytes list" and cap :: nat
    assume "(\<forall>m \<in> set ms. length m + Overhead (sc_suite (NewSessionConn suite
        \<lparr>nc_w = wc\<lparr>nw_sent := A\<rparr>, nc_r = \<lparr>r_avail = zs, r_err = e\<rparr>\<rparr>)) \<le> cap) \<and> cap < 2 ^ 32"
    then show "\<exists>c1 c2 s0. write_all bu (NewSessionConn suite \<lparr>nc_w = wc\<lparr>nw_sent := A\<rparr>,
          nc_r = \<lparr>r_avail = zs, r_err = e\<rparr>\<rparr>) ms = Ok c1 \<and>
        SessionConn_Flush c1 = (c2, None) \<and>
        DefaultServerHandshaker ks (Inr (b, y))
          \<lparr>nc_w = ws, nc_r = \<lparr>r_avail = nw_sent (bw_wr (sc_bw c2)), r_err = f\<rparr>\<rparr> = Ok s0 \<and>
        read_all bu s0 cap (length ms) = Ok ms"
      using channel.delivers [OF ch assms(8,10), of ms cap A "\<lparr>r_avail = zs, r_err = e\<rparr>"] srv
      by (fastforce simp: NewSessionConn_def)
  qed (use cl assms(10) in simp)
qed

definition example_netw :: netw where
  "example_netw = \<lparr>nw_sent = [], nw_room = None, nw_fail = EOF\<rparr>"

text \<open>
  What a sequence of successful writes puts on the wire: one length-prefixed frame per
  message, sealed under the write counter, which goes up by one per message; the nonces of up
  to \<open>2 ^ 64\<close> writes are pairwise different.
\<close>

lemma session_writes_wire:
  assumes "bytesutil_spec bu" and "aead_spec (sc_suite s)" and "write_all bu s ms = Ok s'"
    and "length ms \<le> 2 ^ 64"
  shows "bw_accepted (sc_bw s') = bw_accepted (sc_bw s) @
      concat (map (\<lambda>i. frame (sealed (sc_suite s) (sc_wn s + of_nat i) (ms ! i))) [0..<length ms])
    \<and> distinct (map (\<lambda>i. nonce (NonceSize (sc_suite s)) (sc_wn s + of_nat i)) [0..<length ms])"
proof -
  have "channel bu (sc_suite s)" using assms(1,2) by (rule channel.intro)
  from channel.write_all_wire [OF this refl assms(3)]
  have "bw_accepted (sc_bw s') = bw_accepted (sc_bw s) @ wire (sc_suite s) (sc_wn s) ms" by simp
  moreover have "distinct (map (\<lambda>i. nonce (NonceSize (sc_suite s)) (sc_wn s + of_nat i)) [0..<length ms])"
    using assms(4) nonce_step_inj by (auto simp: distinct_map inj_on_def)
  ultimately show ?thesis by (simp add: wire_concat)
qed

definition example_conn :: SessionConn where
  "example_conn = NewSessionConn aead_model
     \<lparr>nc_w = example_netw, nc_r = \<lparr>r_avail = frame (sealed aead_model 0 [7]), r_err = EOF\<rparr>\<rparr>"

lemma example_conn_suite [simp]: "sc_suite example_conn = aead_model" "sc_rn example_conn = 0"
  by (simp_all add: example_conn_def NewSessionConn_def)

text \<open>
  (C21) What a successful read proves: the bytes taken from the connection are one frame whose
  body is the returned plaintext sealed under the reader's current counter, so a frame that
  was altered, replayed or taken out of turn is not accepted as anything it is not, and the
  counter moves on.
\<close>

theorem session_read_authentic:
  assumes "bytesutil_spec bu" and "aead_spec (sc_suite s)"
    and "SessionConn_Read bu s blen bcap = (Ok p, s')"
  shows "\<exists>m. ReadSized bu [] (sc_br s) bcap = (Inr (sealed (sc_suite s) (sc_rn s) m), sc_br s') \<and>
    p = take blen m \<and> sc_rn s' = sc_rn s + 1"
  using channel.Read_authentic [OF channel.intro [OF assms(1,2)] refl assms(3)] .

lemma example_conn_reads:
  "SessionConn_Read (bytesutil_model 9) example_conn 64 64 =
     (Ok [7], example_conn\<lparr>sc_br := \<lparr>r_avail = [], r_err = EOF\<rparr>, sc_rn := sc_rn example_conn + 1, sc_rb := [7]\<rparr>)"
  by (rule cm.Read_frame) (simp_all add: example_conn_def NewSessionConn_def aead_model_def)

theorem session_read_authentic_witness:
  "\<exists>m. ReadSized (bytesutil_model 9) [] (sc_br example_conn) 64 =
      (Inr (sealed (sc_suite example_conn) (sc_rn example_conn) m), \<lparr>r_avail = [], r_err = EOF\<rparr>) \<and>
    [7] = take 64 m"
  using session_read_authentic [OF bm.bytesutil_spec_axioms _ example_conn_reads]
    am.aead_spec_axioms by auto

text \<open>
  The count \<^verbatim>\<open>Write\<close> reports is the length of the sealed message, larger by the overhead
  than the number of bytes it was given.
\<close>

lemma session_write_count:
  assumes "bytesutil_spec bu" and "aead_spec (sc_suite s)"
    and "SessionConn_Write bu s b = (Ok k, s')"
  shows "k = length b + Overhead (sc_suite s)"
  using channel.Write_ok(4) [OF channel.intro [OF assms(1,2)] refl assms(3)] .

text \<open>
  The limit on a message is on its sealed form: a message that fits the reader's buffer
  but not together with the overhead is refused with an error, and its body is left in the
  stream.
\<close>

lemma session_read_oversize:
  assumes "bytesutil_spec bu" and "aead_spec (sc_suite s)"
    and "length m + Overhead (sc_suite s) < 2 ^ 32" and "bcap < length m + Overhead (sc_suite s)"
    and "sc_br s = \<lparr>r_avail = frame (sealed (sc_suite s) (sc_rn s) m) @ rest, r_err = e\<rparr>"
  shows "SessionConn_Read bu s blen bcap =
    (Err (Errorf ''max is %d bytes, got %d bytes'' [ArgNat bcap, ArgNat (length m + Overhead (sc_suite s))]),
     s\<lparr>sc_br := \<lparr>r_avail = sealed (sc_suite s) (sc_rn s) m @ rest, r_err = e\<rparr>, sc_rb := []\<rparr>)"
  using channel.Read_oversize [OF channel.intro [OF assms(1,2)] refl assms(3-5)] .

end
