(* ===== verification/Carlo_Systems.thy ===== *)
theory Carlo_Systems
  imports Main
begin

text \<open>
  Transition systems and refinement between them. A component that runs concurrently is an
  initial predicate and a step relation; \<open>simulation\<close> is the contract under which it implements
  an abstract system: an abstraction function that maps every step from a reachable state to some
  number of abstract steps. What an invariant says about the abstract system then holds of the
  component. The components interpret both locales.
\<close>

locale transition_system =
  fixes initial :: "'s \<Rightarrow> bool" and step :: "'s \<Rightarrow> 's \<Rightarrow> bool"
begin

definition reach :: "'s \<Rightarrow> bool" where
  "reach s \<longleftrightarrow> (\<exists>s0. initial s0 \<and> step\<^sup>*\<^sup>* s0 s)"

lemma reach_initial: "initial s \<Longrightarrow> reach s"
  by (auto simp: reach_def)

lemma reach_step: "reach s \<Longrightarrow> step s s' \<Longrightarrow> reach s'"
  by (auto simp: reach_def intro: rtranclp.rtrancl_into_rtrancl)

lemma reach_steps: "reach s \<Longrightarrow> step\<^sup>*\<^sup>* s s' \<Longrightarrow> reach s'"
  by (auto simp: reach_def)

lemma invariant [consumes 1, case_names initial step]:
  assumes "reach s" and "\<And>s. initial s \<Longrightarrow> I s"
    and "\<And>s s'. reach s \<Longrightarrow> I s \<Longrightarrow> step s s' \<Longrightarrow> I s'"
  shows "I s"
proof -
  from assms(1) obtain s0 where s0: "initial s0" and "step\<^sup>*\<^sup>* s0 s" by (auto simp: reach_def)
  from this(2) have "reach s \<and> I s"
  proof (induction rule: rtranclp_induct)
    case base
    with s0 show ?case by (simp add: reach_initial assms(2))
  next
    case (step s s')
    with assms(3) show ?case by (blast intro: reach_step)
  qed
  then show ?thesis ..
qed

end

locale simulation =
  conc: transition_system initial step + abst: transition_system ainitial astep
  for initial :: "'s \<Rightarrow> bool" and step :: "'s \<Rightarrow> 's \<Rightarrow> bool"
    and ainitial :: "'a \<Rightarrow> bool" and astep :: "'a \<Rightarrow> 'a \<Rightarrow> bool" +
  fixes abs :: "'s \<Rightarrow> 'a"
  assumes abs_initial: "initial s \<Longrightarrow> ainitial (abs s)"
    and abs_step: "conc.reach s \<Longrightarrow> step s s' \<Longrightarrow> astep\<^sup>*\<^sup>* (abs s) (abs s')"
begin

lemma abs_steps:
  assumes "conc.reach s" and "step\<^sup>*\<^sup>* s s'"
  shows "astep\<^sup>*\<^sup>* (abs s) (abs s')"
  using assms(2,1)
proof (induction rule: converse_rtranclp_induct)
  case (step s t)
  then show ?case using abs_step [of s t] conc.reach_step [of s t] by (auto intro: rtranclp_trans)
qed simp

lemma abs_reach: "conc.reach s \<Longrightarrow> abst.reach (abs s)"
  unfolding conc.reach_def abst.reach_def
  using abs_initial abs_steps conc.reach_initial by blast

lemma abs_invariant:
  assumes "\<And>a. abst.reach a \<Longrightarrow> I a" and "conc.reach s"
  shows "I (abs s)"
  by (rule assms(1) [OF abs_reach [OF assms(2)]])

end

end
