(* ===== verification/Conn_Channel.thy ===== *)
theory Conn_Channel
  imports Conn_Properties Transmit_Session Carlo_Systems
begin

text \<open>
  What the sending side of a connection promises: a first-in first-out channel of messages that
  can be closed and can break. The machine of \<^verbatim>\<open>conn.go\<close> with all its calls, queues and loops
  implements it, one step of the machine being at most one step of the channel. Over two
  encrypted sessions whose handshakes succeeded the channel reaches the peer's \<^verbatim>\<open>readLoop\<close>.
\<close>

section \<open>The channel\<close>

text \<open>
  The messages accepted, those handed to the connection's buffered writer, whether messages are
  still accepted, and whether a write, a flush or a deadline has failed.
\<close>

record chan =
  ch_in :: "(u32 \<times> bytes) list"
  ch_out :: "(u32 \<times> bytes) list"
  ch_open :: bool
  ch_broken :: bool

definition chan_init :: chan where
  "chan_init = \<lparr>ch_in = [], ch_out = [], ch_open = True, ch_broken = False\<rparr>"

inductive chan_step :: "chan \<Rightarrow> chan \<Rightarrow> bool" where
  ch_put: "ch_open c \<Longrightarrow> chan_step c (c\<lparr>ch_in := ch_in c @ [m]\<rparr>)"
| ch_get: "\<not> ch_broken c \<Longrightarrow> ch_in c = ch_out c @ m # rest \<Longrightarrow> chan_step c (c\<lparr>ch_out := ch_out c @ [m]\<rparr>)"
| ch_close: "ch_open c \<Longrightarrow> chan_step c (c\<lparr>ch_open := False\<rparr>)"
| ch_break: "\<not> ch_broken c \<Longrightarrow> chan_step c (c\<lparr>ch_broken := True\<rparr>)"

inductive_simps chan_step_iff: "chan_step c c'"

interpretation chan: transition_system "\<lambda>c. c = chan_init" chan_step .

lemma chan_fifo: "chan.reach c \<Longrightarrow> prefix (ch_out c) (ch_in c)"
proof (induction rule: chan.invariant)
  case (step c c')
  then show ?case by (auto simp: chan_step_iff)
qed (simp add: chan_init_def)

text \<open>Closing and breaking are final, and nothing is accepted or written after them.\<close>

lemma chan_final:
  "chan_step c c' \<Longrightarrow> (\<not> ch_open c \<longrightarrow> \<not> ch_open c' \<and> ch_in c' = ch_in c) \<and>
     (ch_broken c \<longrightarrow> ch_broken c' \<and> ch_out c' = ch_out c) \<and>
     prefix (ch_in c) (ch_in c') \<and> prefix (ch_out c) (ch_out c')"
  by (auto simp: chan_step_iff)

section \<open>The abstraction\<close>

definition message_of :: "bytes \<Rightarrow> u32 \<times> bytes" where
  "message_of b = (be_get32 b, drop 4 b)"

definition written :: "sys \<Rightarrow> nat list \<Rightarrow> bytes list" where
  "written s ts = map (\<lambda>t. pw_buf (pws (cn s) t)) ts"

definition channel_of :: "sys \<Rightarrow> chan" where
  "channel_of s = \<lparr>ch_in = map message_of (written s (acc s)), ch_out = map message_of (written s (sent s)),
     ch_open = (\<not> writerDone (cn s)), ch_broken = failing (wl s)\<rparr>"

text \<open>A step that leaves the buffers of the accepted messages alone.\<close>

definition buffers_kept :: "sys \<Rightarrow> sys \<Rightarrow> bool" where
  "buffers_kept s s' \<longleftrightarrow> (\<forall>t \<in> set (acc s). pw_buf (pws (cn s') t) = pw_buf (pws (cn s) t))"

lemma finish_write_buf [simp]: "pw_buf (pws (finish_write err t c) u) = pw_buf (pws c u)"
  by (simp add: finish_write_pws)

lemma fold_finish_write_buf [simp]: "pw_buf (pws (fold (finish_write err) q c) u) = pw_buf (pws c u)"
  by (induction q arbitrary: c) simp_all

lemma Conn_close_buf [simp]: "pw_buf (pws (Conn_close e order c) u) = pw_buf (pws c u)"
  by (simp add: Conn_close_def Let_def)

lemma written_append [simp]: "written s (xs @ ys) = written s xs @ written s ys"
  by (simp add: written_def)

lemma written_kept: "\<forall>t \<in> set ts. pw_buf (pws (cn s') t) = pw_buf (pws (cn s) t) \<Longrightarrow> written s' ts = written s ts"
  by (simp add: written_def)

lemma channel_call:
  assumes "call_step bu cf s s'" "order_inv s"
  shows "channel_of s' = channel_of s \<or> chan_step (channel_of s) (channel_of s')"
proof -
  have sub: "set (sent s) \<subseteq> set (acc s)" using assms(2) by (auto simp: order_inv_def dest: set_mono_prefix)
  have put: "chan_step (channel_of s) (channel_of s')"
    if acc: "preparePendingWrite (cn s) t b w = (None, c)" and t: "not_queued (pc s t)"
      and s': "s' = s\<lparr>cn := c, pc := pc', acc := acc s @ [t]\<rparr>" for t b w c pc'
  proof -
    have "t \<notin> set (acc s)" using t assms(2) by (auto simp: order_inv_def)
    then have "written s' (acc s) = written s (acc s)" "written s' (sent s) = written s (sent s)"
      using acc sub by (auto simp: s' prepare_accepted intro!: written_kept)
    then have eq: "channel_of s' = (channel_of s)\<lparr>ch_in := ch_in (channel_of s) @ [message_of b]\<rparr>"
      using acc by (simp add: channel_of_def s' prepare_accepted written_def)
    have "ch_open (channel_of s)" using acc by (simp add: channel_of_def prepare_accepted)
    then show ?thesis unfolding eq by (rule ch_put)
  qed
  from assms(1) show ?thesis
  proof cases
    case (send t B sq p c)
    then show ?thesis using put [OF send(3) _ send(1)] by simp
  next
    case (nowait t B p c)
    then show ?thesis using put [OF nowait(3) _ nowait(1)] by simp
  next
    case (req_send t sq B p c)
    then show ?thesis using put [OF req_send(3) _ req_send(1)] by simp
  qed (simp_all add: channel_of_def written_def call_simps)
qed

lemma channel_frame:
  assumes "acc s' = acc s" "sent s' = sent s" "writerDone (cn s') = writerDone (cn s)"
    "failing (wl s') = failing (wl s)" "\<And>t. pw_buf (pws (cn s') t) = pw_buf (pws (cn s) t)"
  shows "channel_of s' = channel_of s"
  using assms by (simp add: channel_of_def written_def)

lemma channel_breaks:
  assumes "acc s' = acc s" "sent s' = sent s" "writerDone (cn s') = writerDone (cn s)"
    "\<not> failing (wl s)" "failing (wl s')" "\<And>t. pw_buf (pws (cn s') t) = pw_buf (pws (cn s) t)"
  shows "chan_step (channel_of s) (channel_of s')"
proof -
  have "channel_of s' = (channel_of s)\<lparr>ch_broken := True\<rparr>" using assms by (simp add: channel_of_def written_def)
  then show ?thesis using ch_break [of "channel_of s"] assms(4) by (simp add: channel_of_def)
qed

lemma channel_closes:
  assumes "acc s' = acc s" "sent s' = sent s" "wl s' = wl s" "cn s' = closeWriter (cn s)"
  shows "channel_of s' = channel_of s \<or> chan_step (channel_of s) (channel_of s')"
proof (cases "writerDone (cn s)")
  case True
  then show ?thesis using assms by (simp add: channel_of_def written_def closeWriter_def)
next
  case False
  have eq: "channel_of s' = (channel_of s)\<lparr>ch_open := False\<rparr>"
    using assms by (simp add: channel_of_def written_def closeWriter_def)
  have "ch_open (channel_of s)" using False by (simp add: channel_of_def)
  then show ?thesis unfolding eq by (blast intro: ch_close)
qed

lemma channel_write:
  assumes "write_step cf s s'" "order_inv s"
  shows "channel_of s' = channel_of s \<or> chan_step (channel_of s) (channel_of s')"
  using assms(1)
proof cases
  case (w_write t q)
  then have acc: "acc s = sent s @ t # q @ writerQueue (cn s)"
    using assms(2) by (simp add: order_inv_def pending_def)
  have "channel_of s' = (channel_of s)\<lparr>ch_out := ch_out (channel_of s) @ [message_of (pw_buf (pws (cn s) t))]\<rparr>"
    by (simp add: channel_of_def written_def w_write)
  moreover have "chan_step (channel_of s)
      ((channel_of s)\<lparr>ch_out := ch_out (channel_of s) @ [message_of (pw_buf (pws (cn s) t))]\<rparr>)"
    by (rule ch_get) (simp_all add: channel_of_def acc w_write, simp add: written_def)
  ultimately show ?thesis by simp
next
  case (w_deadline_err q e)
  then show ?thesis by (intro disjI2 channel_breaks) simp_all
next
  case (w_write_err t q e)
  then show ?thesis by (intro disjI2 channel_breaks) simp_all
next
  case (w_flush_err e)
  then show ?thesis by (intro disjI2 channel_breaks) simp_all
qed (auto simp: take_queue_def intro!: channel_frame disjI1)

lemma channel_read:
  assumes "read_step bu s s'"
  shows "channel_of s' = channel_of s"
  using assms by cases (auto simp: take_request_eq intro!: channel_frame)

lemma channel_handle:
  assumes "handle_step s s'"
  shows "channel_of s' = channel_of s \<or> chan_step (channel_of s) (channel_of s')"
  using assms
proof cases
  case h_done
  then show ?thesis by (intro channel_closes) simp_all
next
  case (h_writer we)
  then show ?thesis by (intro channel_closes) simp_all
next
  case (h_reader re)
  then show ?thesis by (intro channel_closes) simp_all
qed (auto intro!: channel_frame)

lemma channel_step:
  assumes "conn_step bu cf s s'" "order_inv s"
  shows "channel_of s' = channel_of s \<or> chan_step (channel_of s) (channel_of s')"
  using assms(1)
  by cases (use assms(2) channel_call channel_write channel_read channel_handle in blast)+

section \<open>The simulation\<close>

interpretation conn: transition_system "\<lambda>s. s = sys_init" "conn_step bu cf" for bu cf .

lemma conn_reach: "conn.reach bu cf s \<longleftrightarrow> conn_reachable bu cf s"
proof
  assume "conn.reach bu cf s"
  then show "conn_reachable bu cf s"
    by (induction rule: conn.invariant) (auto intro: conn_reachable.intros)
next
  assume "conn_reachable bu cf s"
  then show "conn.reach bu cf s"
    by (induction rule: conn_reachable.induct) (auto intro: conn.reach_initial conn.reach_step)
qed

lemma channel_simulation:
  assumes "bytesutil_spec bu"
  shows "simulation (\<lambda>s. s = sys_init) (conn_step bu cf) (\<lambda>c. c = chan_init) chan_step channel_of"
proof
  show "channel_of s = chan_init" if "s = sys_init" for s
    using that by (simp add: channel_of_def sys_init_def Conn_init_def chan_init_def written_def)
  show "chan_step\<^sup>*\<^sup>* (channel_of s) (channel_of s')" if "conn.reach bu cf s" "conn_step bu cf s s'" for s s'
    using that reachable_inv [OF assms] channel_step [of bu cf s s']
    by (auto simp: conn_reach conn_inv_def)
qed

interpretation cs: simulation "\<lambda>s. s = sys_init" "conn_step (bytesutil_model j) cf" "\<lambda>c. c = chan_init" chan_step channel_of
  for j cf
  by (rule channel_simulation [OF bm.bytesutil_spec_axioms])

text \<open>Every accepted message is one that the peer's reader takes apart.\<close>

definition framed_inv :: "sys \<Rightarrow> bool" where
  "framed_inv s \<longleftrightarrow> (\<forall>t \<in> set (acc s). 4 \<le> length (pw_buf (pws (cn s) t)))"

lemma framed_kept: "framed_inv s \<Longrightarrow> acc s' = acc s \<Longrightarrow>
    (\<And>t. pw_buf (pws (cn s') t) = pw_buf (pws (cn s) t)) \<Longrightarrow> framed_inv s'"
  by (simp add: framed_inv_def)

lemma framed_step:
  assumes "conn_step bu cf s s'" "bytesutil_spec bu" "framed_inv s"
  shows "framed_inv s'"
proof -
  have len: "4 \<le> length (send_buf bu B sq p)" for B sq p
    by (simp add: bytesutil_spec.send_buf_eq [OF assms(2)])
  from assms(1) show ?thesis
  proof cases
    case by_call
    from by_call(2) assms(3) len show ?thesis by cases (auto simp: framed_inv_def call_simps)
  next
    case by_writer
    from by_writer(2) assms(3) show ?thesis by cases (auto simp: take_queue_def intro: framed_kept)
  next
    case by_reader
    from by_reader(2) assms(3) show ?thesis by cases (auto simp: take_request_eq intro: framed_kept)
  next
    case by_handle
    from by_handle(2) assms(3) show ?thesis by cases (auto simp: closeWriter_def intro: framed_kept)
  qed
qed

lemma framed_always:
  assumes "bytesutil_spec bu" "conn_reachable bu cf s"
  shows "framed_inv s"
  using assms(2)
proof (induction rule: conn_reachable.induct)
  case start
  then show ?case by (simp add: framed_inv_def sys_init_def)
next
  case (step s s')
  then show ?case using framed_step assms(1) by blast
qed

lemma parse_framed: "bytesutil_spec bu \<Longrightarrow> 4 \<le> length b \<Longrightarrow> parse_message bu b = Inr (message_of b)"
  by (simp add: parse_message_def message_of_def bytesutil_spec.Uint32BE)

lemma parse_written:
  assumes "bytesutil_spec bu" "conn_reachable bu cf s" "set ts \<subseteq> set (acc s)"
  shows "map (parse_message bu) (written s ts) = map Inr (map message_of (written s ts))"
  using framed_always [OF assms(1,2)] assms(3)
  by (simp add: written_def framed_inv_def parse_framed [OF assms(1)] subset_iff)

section \<open>Properties\<close>

text \<open>
  (C1) A connection is a first-in first-out channel of messages: every step that its callers,
  its write loop, its read loop and \<^verbatim>\<open>Handle\<close> make in any interleaving is a step of the channel
  or none at all, so every run of the connection is a run of the channel. What has been written
  is a prefix of what has been accepted, sequence numbers and payloads included, and is all of
  it once the write loop has returned without an error; once the writer is closed nothing more
  is accepted, and once a write has failed nothing more is written.
\<close>

theorem connection_refines_channel:
  assumes "bytesutil_spec bu" and "conn_reachable bu cf s" and "conn_step bu cf s s'"
  shows "(channel_of s' = channel_of s \<or> chan_step (channel_of s) (channel_of s')) \<and>
    chan_step\<^sup>*\<^sup>* chan_init (channel_of s') \<and> prefix (ch_out (channel_of s')) (ch_in (channel_of s')) \<and>
    (wl s' = WDone None \<longrightarrow> ch_out (channel_of s') = ch_in (channel_of s')) \<and>
    (writerDone (cn s) \<longrightarrow> ch_in (channel_of s') = ch_in (channel_of s)) \<and>
    (failing (wl s) \<longrightarrow> ch_out (channel_of s') = ch_out (channel_of s))"
proof -
  note inv = reachable_inv [OF assms(1,2), unfolded conn_inv_def]
  have s': "conn_reachable bu cf s'" using assms(2,3) by (rule conn_reachable.step)
  then have reach: "chan.reach (channel_of s')"
    using simulation.abs_reach [OF channel_simulation [OF assms(1)]] conn_reach by blast
  have one: "channel_of s' = channel_of s \<or> chan_step (channel_of s) (channel_of s')"
    using channel_step [OF assms(3)] inv by blast
  have fin: "(writerDone (cn s) \<longrightarrow> ch_in (channel_of s') = ch_in (channel_of s)) \<and>
      (failing (wl s) \<longrightarrow> ch_out (channel_of s') = ch_out (channel_of s))"
    using one chan_final [of "channel_of s" "channel_of s'"] by (auto simp: channel_of_def)
  have "wl s' = WDone None \<Longrightarrow> sent s' = acc s'"
    using reachable_inv [OF assms(1) s'] by (auto simp: conn_inv_def order_inv_def control_inv_def pending_def)
  then have all: "wl s' = WDone None \<Longrightarrow> ch_out (channel_of s') = ch_in (channel_of s')"
    by (simp add: channel_of_def)
  from one reach fin all chan_fifo [OF reach] show ?thesis by (auto simp: chan.reach_def)
qed

text \<open>
  (C6) The connection end to end: in any run of the sender's connection, what its write loop
  has written goes over two encrypted sessions set up by the default handshakers, is flushed,
  and comes out of the peer's session in order; the peer's read loop takes every message apart
  into the sequence number and the payload that the caller sent. So the peer receives a prefix
  of the messages the connection accepted, and all of them when the write loop has drained its
  queue, for messages that fit the reader's buffer together with the overhead of the suite.
\<close>

theorem connection_end_to_end:
  assumes "bytesutil_spec bu" and "keyx_spec ks edpair"
    and "edpair a x" and "edpair b y"
    and "EdPublicKeyToX25519 ks a = Some A" and "EdPublicKeyToX25519 ks b = Some B"
    and "X25519 ks (EdPrivateKeyToX25519 ks x) B = Inr k"
    and "nw_room wc = None" and "nw_room ws = None" and "nw_sent wc = []"
    and "conn_reachable bu cf s"
  shows "\<exists>c0. DefaultClientHandshaker ks (Inr (a, x))
      \<lparr>nc_w = wc, nc_r = \<lparr>r_avail = B @ zs, r_err = e\<rparr>\<rparr> = Ok c0 \<and>
    (\<forall>cap. (\<forall>m \<in> set (written s (sent s)). length m + Overhead (sc_suite c0) \<le> cap) \<and> cap < 2 ^ 32 \<longrightarrow>
      (\<exists>c1 c2 s0 ms. write_all bu c0 (written s (sent s)) = Ok c1 \<and> SessionConn_Flush c1 = (c2, None) \<and>
        DefaultServerHandshaker ks (Inr (b, y))
          \<lparr>nc_w = ws, nc_r = \<lparr>r_avail = nw_sent (bw_wr (sc_bw c2)), r_err = f\<rparr>\<rparr> = Ok s0 \<and>
        read_all bu s0 cap (length (sent s)) = Ok ms \<and>
        map (parse_message bu) ms = map Inr (ch_out (channel_of s)) \<and>
        prefix (ch_out (channel_of s)) (ch_in (channel_of s)) \<and>
        (wl s = WDone None \<longrightarrow> ch_out (channel_of s) = ch_in (channel_of s))))"
proof -
  let ?ms = "written s (sent s)"
  have inv: "order_inv s" "control_inv s" using reachable_inv [OF assms(1,11)] by (simp_all add: conn_inv_def)
  then have sub: "set (sent s) \<subseteq> set (acc s)" by (auto simp: order_inv_def dest: set_mono_prefix)
  have received: "map (parse_message bu) ?ms = map Inr (ch_out (channel_of s))"
    using parse_written [OF assms(1,11) sub] by (simp add: channel_of_def)
  have "prefix (sent s) (acc s)" "wl s = WDone None \<Longrightarrow> sent s = acc s"
    using inv by (auto simp: order_inv_def control_inv_def pending_def)
  then have order: "prefix (ch_out (channel_of s)) (ch_in (channel_of s))"
    "wl s = WDone None \<longrightarrow> ch_out (channel_of s) = ch_in (channel_of s)"
    by (auto simp: channel_of_def written_def map_mono_prefix)
  have len: "length (sent s) = length ?ms" by (simp add: written_def)
  obtain c0 where c0: "DefaultClientHandshaker ks (Inr (a, x))
      \<lparr>nc_w = wc, nc_r = \<lparr>r_avail = B @ zs, r_err = e\<rparr>\<rparr> = Ok c0"
    and all: "\<And>cap. (\<forall>m \<in> set ?ms. length m + Overhead (sc_suite c0) \<le> cap) \<and> cap < 2 ^ 32 \<longrightarrow>
      (\<exists>c1 c2 s0. write_all bu c0 ?ms = Ok c1 \<and> SessionConn_Flush c1 = (c2, None) \<and>
        DefaultServerHandshaker ks (Inr (b, y))
          \<lparr>nc_w = ws, nc_r = \<lparr>r_avail = nw_sent (bw_wr (sc_bw c2)), r_err = f\<rparr>\<rparr> = Ok s0 \<and>
        read_all bu s0 cap (length ?ms) = Ok ?ms)"
    using secure_channel [OF assms(1-10), of zs e f] by blast
  show ?thesis
  proof (rule exI [of _ c0], intro conjI allI impI)
    fix cap
    assume "(\<forall>m \<in> set ?ms. length m + Overhead (sc_suite c0) \<le> cap) \<and> cap < 2 ^ 32"
    with all obtain c1 c2 s0 where "write_all bu c0 ?ms = Ok c1" "SessionConn_Flush c1 = (c2, None)"
      "DefaultServerHandshaker ks (Inr (b, y))
          \<lparr>nc_w = ws, nc_r = \<lparr>r_avail = nw_sent (bw_wr (sc_bw c2)), r_err = f\<rparr>\<rparr> = Ok s0"
      "read_all bu s0 cap (length ?ms) = Ok ?ms" by blast
    with received order len show "\<exists>c1 c2 s0 ms. write_all bu c0 ?ms = Ok c1 \<and> SessionConn_Flush c1 = (c2, None) \<and>
        DefaultServerHandshaker ks (Inr (b, y))
          \<lparr>nc_w = ws, nc_r = \<lparr>r_avail = nw_sent (bw_wr (sc_bw c2)), r_err = f\<rparr>\<rparr> = Ok s0 \<and>
        read_all bu s0 cap (length (sent s)) = Ok ms \<and>
        map (parse_message bu) ms = map Inr (ch_out (channel_of s)) \<and>
        prefix (ch_out (channel_of s)) (ch_in (channel_of s)) \<and>
        (wl s = WDone None \<longrightarrow> ch_out (channel_of s) = ch_in (channel_of s))"
      by (intro exI [of _ c1] exI [of _ c2] exI [of _ s0] exI [of _ ?ms]) simp
  qed (rule c0)
qed

section \<open>Witnesses\<close>

theorem connection_refines_channel_witness:
  "ch_out (channel_of run_sent_closed) = [(0, [7])] \<and>
   ch_in (channel_of run_sent_closed) = [(0, [7])]"
proof -
  have st: "conn_step (bytesutil_model 3) client_config run_sent run_sent_closed"
    by (rule by_handle [OF _ run_sent_close]) (simp add: run_sent_def run_defs)
  have "ch_in (channel_of run_sent_closed) = [message_of (send_buf (bytesutil_model 3) [] 0 [7])]" "wl run_sent_closed = WDone None"
    by (simp_all add: channel_of_def written_def run_sent_closed_def run_sent_def run_defs)
  moreover have "message_of (send_buf (bytesutil_model 3) [] 0 [7]) = (0, [7])"
    by (simp add: message_of_def bm.send_buf_eq)
  ultimately show ?thesis
    using connection_refines_channel [OF bm.bytesutil_spec_axioms run_sent st] by simp
qed

lemma model_suite: "DefaultClientHandshaker keyx_model g c = Ok c0 \<Longrightarrow> sc_suite c0 = aead_model"
  by (auto simp: DefaultClientHandshaker_def session_conn_def DoClient_def Session_Establish_def keyx_model_def
      NewSessionConn_def Let_def split: sum.splits prod.splits option.splits if_splits)

theorem connection_end_to_end_witness:
  "\<exists>c0 c1 c2 s0 ms. DefaultClientHandshaker keyx_model (Inr ([3], [3]))
      \<lparr>nc_w = example_netw, nc_r = \<lparr>r_avail = [5] @ [], r_err = EOF\<rparr>\<rparr> = Ok c0 \<and>
    write_all (bytesutil_model 3) c0 [[0, 0, 0, 0, 7]] = Ok c1 \<and> SessionConn_Flush c1 = (c2, None) \<and>
    DefaultServerHandshaker keyx_model (Inr ([5], [5]))
      \<lparr>nc_w = example_netw, nc_r = \<lparr>r_avail = nw_sent (bw_wr (sc_bw c2)), r_err = EOF\<rparr>\<rparr> = Ok s0 \<and>
    read_all (bytesutil_model 3) s0 100 1 = Ok ms \<and>
    map (parse_message (bytesutil_model 3)) ms = [Inr (0, [7])]"
proof -
  let ?bu = "bytesutil_model 3" and ?s = run_sent_closed
  have buf: "written ?s (sent ?s) = [[0, 0, 0, 0, 7]]" "length (sent ?s) = 1" "ch_out (channel_of ?s) = [(0, [7])]"
    by (simp_all add: channel_of_def written_def message_of_def bm.send_buf_eq be_put32_def run_sent_closed_def run_sent_def run_defs)
  have keys: "EdPublicKeyToX25519 keyx_model [3] = Some [3]" "EdPublicKeyToX25519 keyx_model [5] = Some [5]"
    "X25519 keyx_model (EdPrivateKeyToX25519 keyx_model [3]) [5] = Inr [8]"
    "nw_room example_netw = None" "nw_room example_netw = None" "nw_sent example_netw = []"
    by (simp_all add: keyx_model_def example_netw_def)
  note e2e = connection_end_to_end [OF bm.bytesutil_spec_axioms xm.keyx_spec_axioms refl refl keys run_sent_closed,
      of "[]" EOF EOF]
  then obtain c0 where c0: "DefaultClientHandshaker keyx_model (Inr ([3], [3]))
      \<lparr>nc_w = example_netw, nc_r = \<lparr>r_avail = [5] @ [], r_err = EOF\<rparr>\<rparr> = Ok c0"
    and all: "(\<forall>m \<in> set (written ?s (sent ?s)). length m + Overhead (sc_suite c0) \<le> 100) \<and> (100 :: nat) < 2 ^ 32 \<longrightarrow>
      (\<exists>c1 c2 s0 ms. write_all ?bu c0 (written ?s (sent ?s)) = Ok c1 \<and> SessionConn_Flush c1 = (c2, None) \<and>
        DefaultServerHandshaker keyx_model (Inr ([5], [5]))
          \<lparr>nc_w = example_netw, nc_r = \<lparr>r_avail = nw_sent (bw_wr (sc_bw c2)), r_err = EOF\<rparr>\<rparr> = Ok s0 \<and>
        read_all ?bu s0 100 (length (sent ?s)) = Ok ms \<and>
        map (parse_message ?bu) ms = map Inr (ch_out (channel_of ?s)))"
    by meson
  have "sc_suite c0 = aead_model" using c0 by (rule model_suite)
  then have "\<forall>m \<in> set (written ?s (sent ?s)). length m + Overhead (sc_suite c0) \<le> 100"
    by (simp add: buf aead_model_def)
  with all c0 show ?thesis by (simp add: buf)
qed

end
