(* ===== verification/Transmit_Client.thy ===== *)
theory Transmit_Client
  imports Transmit_Conn Transmit_Session
begin

text \<open>
  \<^verbatim>\<open>streaming_transmit/client.go\<close>: a client keeps a bounded set of connections to one address,
  hands out the one with the fewest pending writes, and dials in the background. Connections are
  numbered in the order in which they are created. What dialing and the handshake return is an
  argument; the connection itself is the machine of \<^verbatim>\<open>Conn_Machine\<close>.
\<close>

section \<open>Configuration\<close>

definition DefaultMaxClientConns :: int where "DefaultMaxClientConns = 4"
definition DefaultNumDialAttempts :: int where "DefaultNumDialAttempts = 1"
definition DefaultDialTimeout :: int where "DefaultDialTimeout = 3 * 10 ^ 9"
definition DefaultHandshakeTimeout :: int where "DefaultHandshakeTimeout = 3 * 10 ^ 9"
definition DefaultClientSeqOffset :: u32 where "DefaultClientSeqOffset = 1"
definition DefaultClientSeqDelta :: u32 where "DefaultClientSeqDelta = 2"

record ClientConfig =
  cl_Handler :: "Handler option"
  cl_HandshakeTimeout :: int
  cl_MaxConns :: int
  cl_NumDialAttempts :: int
  cl_ReadBufferSize :: int
  cl_WriteBufferSize :: int
  cl_DialTimeout :: int
  cl_ReadTimeout :: int
  cl_WriteTimeout :: int
  cl_SeqOffset :: u32
  cl_SeqDelta :: u32

definition Client_getHandler :: "ClientConfig \<Rightarrow> Handler" where
  "Client_getHandler c = (case cl_Handler c of None \<Rightarrow> DefaultHandler | Some h \<Rightarrow> h)"

definition Client_getMaxConns :: "ClientConfig \<Rightarrow> int" where
  "Client_getMaxConns c = (if cl_MaxConns c \<le> 0 then DefaultMaxClientConns else cl_MaxConns c)"

definition Client_getNumDialAttempts :: "ClientConfig \<Rightarrow> int" where
  "Client_getNumDialAttempts c =
     (if cl_NumDialAttempts c \<le> 0 then DefaultNumDialAttempts else cl_NumDialAttempts c)"

definition Client_getReadBufferSize :: "ClientConfig \<Rightarrow> int" where
  "Client_getReadBufferSize c =
     (if cl_ReadBufferSize c \<le> 0 then DefaultReadBufferSize else cl_ReadBufferSize c)"

definition Client_getWriteBufferSize :: "ClientConfig \<Rightarrow> int" where
  "Client_getWriteBufferSize c =
     (if cl_WriteBufferSize c \<le> 0 then DefaultWriteBufferSize else cl_WriteBufferSize c)"

definition Client_getHandshakeTimeout :: "ClientConfig \<Rightarrow> int" where
  "Client_getHandshakeTimeout c =
     (if cl_HandshakeTimeout c \<le> 0 then DefaultHandshakeTimeout else cl_HandshakeTimeout c)"

definition Client_getDialTimeout :: "ClientConfig \<Rightarrow> int" where
  "Client_getDialTimeout c = (if cl_DialTimeout c \<le> 0 then DefaultDialTimeout else cl_DialTimeout c)"

definition Client_getReadTimeout :: "ClientConfig \<Rightarrow> int" where
  "Client_getReadTimeout c = (if cl_ReadTimeout c < 0 then DefaultReadTimeout else cl_ReadTimeout c)"

definition Client_getWriteTimeout :: "ClientConfig \<Rightarrow> int" where
  "Client_getWriteTimeout c = (if cl_WriteTimeout c < 0 then DefaultWriteTimeout else cl_WriteTimeout c)"

definition Client_getSeqOffset :: "ClientConfig \<Rightarrow> u32" where
  "Client_getSeqOffset c = (if cl_SeqOffset c = 0 then DefaultClientSeqOffset else cl_SeqOffset c)"

definition Client_getSeqDelta :: "ClientConfig \<Rightarrow> u32" where
  "Client_getSeqDelta c = (if cl_SeqDelta c = 0 then DefaultClientSeqDelta else cl_SeqDelta c)"

text \<open>The connection that \<^verbatim>\<open>newClientConn\<close> creates.\<close>

definition client_conn_config :: "ClientConfig \<Rightarrow> ConnConfig" where
  "client_conn_config c = \<lparr>cf_Handler = Some (Client_getHandler c),
     cf_ReadBufferSize = Client_getReadBufferSize c, cf_WriteBufferSize = Client_getWriteBufferSize c,
     cf_ReadTimeout = Client_getReadTimeout c, cf_WriteTimeout = Client_getWriteTimeout c,
     cf_SeqOffset = Client_getSeqOffset c, cf_SeqDelta = Client_getSeqDelta c\<rparr>"

section \<open>The set of connections\<close>

record Client =
  cl_conns :: "nat list"
  cl_next :: nat
  cl_done :: bool

definition Client_init :: Client where
  "Client_init = \<lparr>cl_conns = [], cl_next = 0, cl_done = False\<rparr>"

definition newClientConn :: "Client \<Rightarrow> nat \<times> Client" where
  "newClientConn c = (cl_next c, c\<lparr>cl_conns := cl_conns c @ [cl_next c], cl_next := Suc (cl_next c)\<rparr>)"

text \<open>
  The search of \<^verbatim>\<open>getClientConn\<close> behind the first connection: an idle connection, or the best
  one with its number of pending writes.
\<close>

fun least_loaded :: "(nat \<Rightarrow> nat) \<Rightarrow> nat \<Rightarrow> nat \<Rightarrow> nat list \<Rightarrow> nat + nat" where
  "least_loaded pend mc mp [] = Inr mc"
| "least_loaded pend mc mp (cc # ccs) =
     (let cp = pend cc
      in if cp = 0 then Inl cc
         else if cp < mp then least_loaded pend cc cp ccs
         else least_loaded pend mc mp ccs)"

definition getClientConn :: "ClientConfig \<Rightarrow> (nat \<Rightarrow> nat) \<Rightarrow> Client \<Rightarrow> nat \<times> Client" where
  "getClientConn cfg pend c =
     (case cl_conns c of
        [] \<Rightarrow> newClientConn c
      | mc # ccs \<Rightarrow>
          if pend mc = 0 then (mc, c)
          else case least_loaded pend mc (pend mc) ccs of
              Inl cc \<Rightarrow> (cc, c)
            | Inr cc \<Rightarrow>
                if int (length (cl_conns c)) < Client_getMaxConns cfg then newClientConn c else (cc, c))"

text \<open>
  \<^verbatim>\<open>deleteClientConn\<close> compacts the slice in place: \<open>arr\<close> is the backing array, \<open>n\<close> the length of
  \<^verbatim>\<open>c.conns\<close>, and \<^verbatim>\<open>entries\<close> reads from the same array.
\<close>

fun compact :: "nat \<Rightarrow> nat list \<Rightarrow> nat \<Rightarrow> nat \<Rightarrow> nat \<Rightarrow> nat list \<times> nat" where
  "compact cc arr n i 0 = (arr, n)"
| "compact cc arr n i (Suc k) =
     (if arr ! i = cc then compact cc arr n (Suc i) k
      else compact cc (arr[n := arr ! i]) (Suc n) (Suc i) k)"

definition deleteClientConn :: "nat \<Rightarrow> Client \<Rightarrow> Client" where
  "deleteClientConn cc c =
     (case compact cc (cl_conns c) 0 0 (length (cl_conns c)) of (arr, n) \<Rightarrow> c\<lparr>cl_conns := take n arr\<rparr>)"

definition Client_NumOfPendingWrites :: "(nat \<Rightarrow> nat) \<Rightarrow> Client \<Rightarrow> nat" where
  "Client_NumOfPendingWrites pend c = foldl (\<lambda>n cc. n + pend cc) 0 (cl_conns c)"

definition Client_Shutdown :: "Client \<Rightarrow> Client" where
  "Client_Shutdown c = c\<lparr>cl_done := True\<rparr>"

section \<open>Dialing\<close>

text \<open>What one attempt of the dial loop meets.\<close>

record attempt =
  at_dial :: "goerr + nat"
  at_deadline :: "goerr option"
  at_handshake :: "goerr option"
  at_clear :: "goerr option"

definition attempt_err :: "attempt \<Rightarrow> goerr option" where
  "attempt_err a =
     (case at_dial a of
        Inl e \<Rightarrow> Some e
      | Inr _ \<Rightarrow>
          (case at_deadline a of
             Some e \<Rightarrow> Some e
           | None \<Rightarrow> (case at_handshake a of Some e \<Rightarrow> Some e | None \<Rightarrow> at_clear a)))"

definition attempt_conn :: "attempt \<Rightarrow> nat option" where
  "attempt_conn a = (case at_dial a of Inl _ \<Rightarrow> None | Inr c \<Rightarrow> Some c)"

text \<open>The loop: the last error, the value of \<^verbatim>\<open>conn\<close>, and the connections that were opened.\<close>

fun dial_loop :: "attempt list \<Rightarrow> goerr option \<Rightarrow> nat option \<Rightarrow> goerr option \<times> nat option \<times> nat list" where
  "dial_loop [] err conn = (err, conn, [])"
| "dial_loop (a # as) err conn =
     (let opened = (case attempt_conn a of None \<Rightarrow> [] | Some c \<Rightarrow> [c])
      in if attempt_err a = None then (None, attempt_conn a, opened)
         else (case dial_loop as (attempt_err a) (attempt_conn a) of
                 (err, conn, later) \<Rightarrow> (err, conn, opened @ later)))"

text \<open>The goroutine up to \<^verbatim>\<open>close(cc.ready)\<close>: the error, and the connections opened and closed.\<close>

definition dial :: "attempt list \<Rightarrow> goerr option \<times> nat option \<times> nat list \<times> nat list" where
  "dial attempts =
     (case dial_loop attempts None None of
        (err, conn, opened) \<Rightarrow>
          if err \<noteq> None then (err, None, opened, case conn of None \<Rightarrow> [] | Some c \<Rightarrow> [c])
          else (None, conn, opened, []))"

section \<open>Operations on the list\<close>

datatype client_op = Get "nat \<Rightarrow> nat" | Finished nat | Stop

fun client_step :: "ClientConfig \<Rightarrow> client_op \<Rightarrow> Client \<Rightarrow> Client" where
  "client_step cfg (Get pend) c = snd (getClientConn cfg pend c)"
| "client_step cfg (Finished cc) c = deleteClientConn cc c"
| "client_step cfg Stop c = Client_Shutdown c"

section \<open>Lemmas\<close>

lemma compact_filter:
  assumes "n \<le> i" "i + k = length arr"
  shows "(case compact cc arr n i k of (arr', n') \<Rightarrow> take n' arr') =
    take n arr @ filter (\<lambda>x. x \<noteq> cc) (drop i arr)"
  using assms
proof (induction k arbitrary: arr n i)
  case 0
  then show ?case by simp
next
  case (Suc k)
  then have i: "i < length arr" by simp
  then have d: "drop i arr = arr ! i # drop (Suc i) arr" by (simp add: Cons_nth_drop_Suc)
  show ?case
  proof (cases "arr ! i = cc")
    case True
    with Suc d show ?thesis by simp
  next
    case False
    let ?arr = "arr[n := arr ! i]"
    have "(case compact cc ?arr (Suc n) (Suc i) k of (arr', n') \<Rightarrow> take n' arr') =
        take (Suc n) ?arr @ filter (\<lambda>x. x \<noteq> cc) (drop (Suc i) ?arr)"
      using Suc.prems by (intro Suc.IH) simp_all
    moreover have "take (Suc n) ?arr = take n arr @ [arr ! i]"
      using Suc.prems by (simp add: take_Suc_conv_app_nth)
    ultimately show ?thesis using False d Suc.prems by simp
  qed
qed

lemma deleteClientConn_filter:
  "deleteClientConn cc c = c\<lparr>cl_conns := filter (\<lambda>x. x \<noteq> cc) (cl_conns c)\<rparr>"
  using compact_filter [of 0 0 "length (cl_conns c)" "cl_conns c" cc]
  by (simp add: deleteClientConn_def split: prod.splits)

lemma least_loaded_idle:
  "mp > 0 \<Longrightarrow> least_loaded pend mc mp ccs = Inl cc \<Longrightarrow> cc \<in> set ccs \<and> pend cc = 0"
  by (induction ccs arbitrary: mc mp) (auto simp: Let_def split: if_splits)

lemma least_loaded_busy:
  "pend mc = mp \<Longrightarrow> mp > 0 \<Longrightarrow> least_loaded pend mc mp ccs = Inr cc \<Longrightarrow>
     cc \<in> set (mc # ccs) \<and> (\<forall>x \<in> set (mc # ccs). 0 < pend x \<and> pend cc \<le> pend x)"
proof (induction ccs arbitrary: mc mp)
  case (Cons x ccs)
  show ?case
  proof (cases "pend x < mp")
    case True
    with Cons.prems have "least_loaded pend x (pend x) ccs = Inr cc" "pend x > 0"
      by (auto simp: Let_def split: if_splits)
    from Cons.IH [OF refl this(2,1)] True Cons.prems show ?thesis by auto
  next
    case False
    with Cons.prems have "least_loaded pend mc mp ccs = Inr cc" "pend x > 0"
      by (auto simp: Let_def split: if_splits)
    from Cons.IH [OF Cons.prems(1,2) this(1)] this(2) False Cons.prems show ?thesis by auto
  qed
qed simp

lemma max_conns_pos: "0 < Client_getMaxConns cfg"
  by (simp add: Client_getMaxConns_def DefaultMaxClientConns_def)

definition client_ok :: "ClientConfig \<Rightarrow> Client \<Rightarrow> bool" where
  "client_ok cfg c \<longleftrightarrow> distinct (cl_conns c) \<and> (\<forall>x \<in> set (cl_conns c). x < cl_next c) \<and>
     int (length (cl_conns c)) \<le> Client_getMaxConns cfg"

lemma newClientConn_ok:
  assumes "client_ok cfg c" "int (length (cl_conns c)) < Client_getMaxConns cfg"
  shows "client_ok cfg (snd (newClientConn c))"
proof -
  have "cl_next c \<notin> set (cl_conns c)" using assms(1) by (auto simp: client_ok_def)
  with assms show ?thesis by (auto simp: client_ok_def newClientConn_def)
qed

lemma client_step_ok:
  assumes "client_ok cfg c"
  shows "client_ok cfg (client_step cfg op c)"
proof (cases op)
  case (Get pend)
  then show ?thesis
    using assms newClientConn_ok [OF assms] max_conns_pos [of cfg]
    by (auto simp: getClientConn_def split: list.splits sum.splits)
next
  case (Finished cc)
  have "int (length (cl_conns c)) \<le> Client_getMaxConns cfg" using assms by (simp add: client_ok_def)
  then have "int (length (filter (\<lambda>x. x \<noteq> cc) (cl_conns c))) \<le> Client_getMaxConns cfg"
    by (rule order_trans [rotated]) simp
  with Finished assms show ?thesis by (simp add: client_ok_def deleteClientConn_filter)
next
  case Stop
  with assms show ?thesis by (simp add: client_ok_def Client_Shutdown_def)
qed

lemma client_init_ok: "client_ok cfg Client_init"
  using max_conns_pos [of cfg] by (simp add: client_ok_def Client_init_def)

text \<open>The attempts that are made: up to the first that succeeds.\<close>

fun tried :: "attempt list \<Rightarrow> attempt list" where
  "tried [] = []"
| "tried (a # as) = (if attempt_err a = None then [a] else a # tried as)"

definition conns_of :: "attempt list \<Rightarrow> nat list" where
  "conns_of as = concat (map (\<lambda>a. case attempt_conn a of None \<Rightarrow> [] | Some c \<Rightarrow> [c]) as)"

lemma dial_loop_tried:
  "dial_loop as err conn =
     (if tried as = [] then (err, conn, [])
      else (attempt_err (last (tried as)), attempt_conn (last (tried as)), conns_of (tried as)))"
proof (induction as arbitrary: err conn)
  case Nil
  then show ?case by simp
next
  case (Cons a as)
  show ?case by (cases "tried as") (auto simp: Cons.IH conns_of_def Let_def)
qed

lemma conns_of_butlast:
  "xs \<noteq> [] \<Longrightarrow> conns_of xs = conns_of (butlast xs) @ conns_of [last xs]"
  using append_butlast_last_id [of xs, symmetric] by (metis conns_of_def concat_append map_append)

section \<open>Properties\<close>

text \<open>
  Which connection a client hands out: an idle one if there is one; otherwise a new one as long as
  there are fewer than \<^verbatim>\<open>MaxConns\<close>; otherwise one with the least number of pending writes.
\<close>

lemma getClientConn_choice:
  assumes ok: "client_ok cfg c" and "getClientConn cfg pend c = (r, c')"
  shows "r \<in> set (cl_conns c') \<and>
    (if \<exists>x \<in> set (cl_conns c). pend x = 0 then c' = c \<and> pend r = 0
     else if int (length (cl_conns c)) < Client_getMaxConns cfg
     then r \<notin> set (cl_conns c) \<and> cl_conns c' = cl_conns c @ [r]
     else c' = c \<and> (\<forall>x \<in> set (cl_conns c). pend r \<le> pend x))"
proof -
  have ok': "client_ok cfg c'" using assms(2) client_step_ok [OF ok, of "Get pend"] by simp
  from ok have fresh: "cl_next c \<notin> set (cl_conns c)" by (auto simp: client_ok_def)
  show ?thesis
  proof (cases "cl_conns c")
    case Nil
    with assms(2) ok' max_conns_pos [of cfg] show ?thesis
      by (auto simp: getClientConn_def newClientConn_def client_ok_def)
  next
    case (Cons mc ccs)
    show ?thesis
    proof (cases "pend mc = 0")
      case True
      with Cons assms(2) ok' show ?thesis by (auto simp: getClientConn_def client_ok_def)
    next
      case busy: False
      then show ?thesis
      proof (cases "least_loaded pend mc (pend mc) ccs")
        case (Inl x)
        with least_loaded_idle [OF _ Inl] busy Cons assms(2) ok' show ?thesis
          by (auto simp: getClientConn_def client_ok_def)
      next
        case (Inr x)
        with least_loaded_busy [OF refl _ Inr] busy Cons assms(2) ok' fresh show ?thesis
          by (auto simp: getClientConn_def client_ok_def newClientConn_def split: if_splits)
      qed
    qed
  qed
qed

definition example_client :: ClientConfig where
  "example_client = \<lparr>cl_Handler = None, cl_HandshakeTimeout = 0, cl_MaxConns = 2, cl_NumDialAttempts = 0,
     cl_ReadBufferSize = 0, cl_WriteBufferSize = 0, cl_DialTimeout = 0, cl_ReadTimeout = 0,
     cl_WriteTimeout = 0, cl_SeqOffset = 0, cl_SeqDelta = 0\<rparr>"

text \<open>
  (C34) What dialing leaves open: of the connections that were opened, only the one of the last
  attempt is kept or closed; those of all earlier attempts, which failed in the handshake or in
  setting a deadline, are neither.
\<close>

theorem dial_leaks_earlier_attempts:
  assumes "dial attempts = (err, kept, opened, closed)" and "attempts \<noteq> []"
  shows "opened = conns_of (butlast (tried attempts)) @ (case kept of None \<Rightarrow> [] | Some c \<Rightarrow> [c]) @ closed \<and>
    err = attempt_err (last (tried attempts)) \<and> (err = None \<longleftrightarrow> kept \<noteq> None)"
proof -
  have ne: "tried attempts \<noteq> []" using assms(2) by (cases attempts) auto
  let ?a = "last (tried attempts)"
  have one: "conns_of [?a] = (case attempt_conn ?a of None \<Rightarrow> [] | Some c \<Rightarrow> [c])"
    by (simp add: conns_of_def)
  show ?thesis
  proof (cases "attempt_err ?a")
    case None
    then have "attempt_conn ?a \<noteq> None"
      by (auto simp: attempt_err_def attempt_conn_def split: sum.splits)
    with None assms(1) ne conns_of_butlast [OF ne] one show ?thesis
      by (auto simp: dial_def dial_loop_tried)
  next
    case (Some e)
    with assms(1) ne conns_of_butlast [OF ne] one show ?thesis
      by (simp add: dial_def dial_loop_tried) (metis option.distinct(1))
  qed
qed

theorem dial_leaks_earlier_attempts_witness:
  "\<exists>err kept opened closed.
     dial [\<lparr>at_dial = Inr 3, at_deadline = None, at_handshake = Some EOF, at_clear = None\<rparr>,
           \<lparr>at_dial = Inr 4, at_deadline = None, at_handshake = None, at_clear = None\<rparr>] = (err, kept, opened, closed) \<and>
     opened = [3, 4] \<and> closed = [] \<and> kept = Some 4"
proof -
  let ?as = "[\<lparr>at_dial = Inr 3, at_deadline = None, at_handshake = Some EOF, at_clear = None\<rparr>,
    \<lparr>at_dial = Inr 4, at_deadline = None, at_handshake = None, at_clear = None\<rparr>] :: attempt list"
  obtain err kept opened closed where d: "dial ?as = (err, kept, opened, closed)" by (metis prod.exhaust)
  then have "kept = Some 4" "closed = []"
    by (simp_all add: dial_def Let_def attempt_err_def attempt_conn_def)
  with dial_leaks_earlier_attempts [OF d] d show ?thesis
    by (simp add: conns_of_def attempt_err_def attempt_conn_def)
qed

end
