(* ===== verification/Conn_Owner.thy ===== *)
theory Conn_Owner
  imports Conn_Properties Carlo_Systems
begin

text \<open>
  A connection in the hands of its owner, a client or a server: the loops of the connection run
  inside of the goroutine that owns it and that is told when the owner shuts down; calls come
  from anybody who holds the connection.
\<close>

definition loop_step :: "bytesutil \<Rightarrow> ConnConfig \<Rightarrow> bool \<Rightarrow> sys \<Rightarrow> sys \<Rightarrow> bool" where
  "loop_step bu cf finished s s' \<longleftrightarrow> \<not> panicked (cn s) \<and>
     (write_step cf s s' \<or> read_step bu s s' \<or>
      (handle_step s s' \<and> (hp s = HSelect \<and> hp s' = HDrain \<longrightarrow> finished)))"

lemma loop_conn_step: "loop_step bu cf finished s s' \<Longrightarrow> conn_step bu cf s s'"
  by (auto simp: loop_step_def intro: conn_step.intros)

lemma loop_reachable: "conn_reachable bu cf s \<Longrightarrow> loop_step bu cf finished s s' \<Longrightarrow> conn_reachable bu cf s'"
  by (blast intro: conn_reachable.step loop_conn_step)

lemma call_frame: "call_step bu cf t t' \<Longrightarrow> hp t' = hp t \<and> sent t' = sent t"
  by (induction rule: call_step.induct) simp_all

lemma own_step_owner:
  assumes "own_step bu cf s s'"
  shows "\<not> panicked (cn s)" and "call_step bu cf s s' \<or> loop_step bu cf finished s s'"
  using assms by (auto simp: own_step_def loop_step_def elim!: conn_step.cases)

text \<open>
  Over the states reported of one connection: it is reported new, then closed, each once, and
  closed only when it is.
\<close>

datatype ConnState = StateNew | StateClosed

definition reported :: "ConnState list \<Rightarrow> sys \<Rightarrow> bool" where
  "reported l t \<longleftrightarrow> l \<in> {[], [StateNew], [StateNew, StateClosed]} \<and>
     (StateClosed \<in> set l \<longrightarrow> (\<exists>e. hp t = HClosed e))"

end
