(* ===== verification/Client_Machine.thy ===== *)
theory Client_Machine
  imports Transmit_Client Conn_Owner
begin

text \<open>
  \<^verbatim>\<open>streaming_transmit/client.go\<close> as a machine: any number of calls of \<^verbatim>\<open>Get\<close>, from \<^verbatim>\<open>Send\<close>,
  \<^verbatim>\<open>SendNoWait\<close>, \<^verbatim>\<open>Request\<close> or directly, wait for connections that goroutines dial, serve and
  remove from the list of the client. Every connection runs the machine of \<^verbatim>\<open>conn.go\<close>, and the
  choice of a connection reads the pending writes of these machines, one after the other, while it
  holds the mutex of the client and the connections go on. A step is one critical section or, in
  \<^verbatim>\<open>getClientConn\<close>, one part of it, one attempt to dial, one operation on a channel, one call of a handler, or one step of
  a connection.
\<close>

section \<open>State\<close>

datatype cgor =
    CgNone
  | CgDial nat
  | CgFailed
  | CgReady
  | CgNew
  | CgServe
  | CgReport
  | CgDelete
  | CgEnd

datatype get_pc = GtIdle | GtScan "(nat \<times> nat) list" "nat list" | GtWait nat | GtErr nat goerr | GtConn nat

record client_sys =
  k_client :: Client
  k_gor :: "nat \<Rightarrow> cgor"
  k_conn :: "nat \<Rightarrow> sys"
  k_err :: "nat \<Rightarrow> goerr option"
  k_ready :: "nat set"
  k_get :: "nat \<Rightarrow> get_pc"
  k_log :: "nat \<Rightarrow> ConnState list"
  k_mu :: "nat option"

definition client_sys_init :: client_sys where
  "client_sys_init = \<lparr>k_client = Client_init, k_gor = (\<lambda>_. CgNone), k_conn = (\<lambda>_. sys_init),
     k_err = (\<lambda>_. None), k_ready = {}, k_get = (\<lambda>_. GtIdle), k_log = (\<lambda>_. []), k_mu = None\<rparr>"

definition pending_writes :: "client_sys \<Rightarrow> nat \<Rightarrow> nat" where
  "pending_writes s cc = NumOfPendingWrites (cn (k_conn s cc))"

section \<open>Get\<close>

text \<open>
  \<^verbatim>\<open>getClientConn\<close> holds the mutex while it scans: what it has read so far, and the connections left
  to read. It stops at the first idle one. A number that it hands out for the first time is a
  connection that \<^verbatim>\<open>newClientConn\<close> has created, with its goroutine.
\<close>

definition reads :: "(nat \<times> nat) list \<Rightarrow> nat \<Rightarrow> nat" where
  "reads seen cc = (case map_of seen cc of None \<Rightarrow> 0 | Some n \<Rightarrow> n)"

definition settled :: "(nat \<times> nat) list \<Rightarrow> nat list \<Rightarrow> bool" where
  "settled seen rest \<longleftrightarrow> rest = [] \<or> (seen \<noteq> [] \<and> snd (last seen) = 0)"

inductive get_step :: "ClientConfig \<Rightarrow> client_sys \<Rightarrow> client_sys \<Rightarrow> bool" for cfg :: ClientConfig where
  gt_lock: "k_get s g = GtIdle \<Longrightarrow> k_mu s = None \<Longrightarrow>
     get_step cfg s (s\<lparr>k_mu := Some g, k_get := (k_get s)(g := GtScan [] (cl_conns (k_client s)))\<rparr>)"
| gt_read: "k_get s g = GtScan seen (cc # rest) \<Longrightarrow> \<not> settled seen (cc # rest) \<Longrightarrow>
     get_step cfg s (s\<lparr>k_get := (k_get s)(g := GtScan (seen @ [(cc, pending_writes s cc)]) rest)\<rparr>)"
| gt_choose: "k_get s g = GtScan seen rest \<Longrightarrow> settled seen rest \<Longrightarrow>
     getClientConn cfg (reads seen) (k_client s) = (cc, c) \<Longrightarrow>
     get_step cfg s (s\<lparr>k_client := c, k_mu := None, k_get := (k_get s)(g := GtWait cc),
       k_gor := (if k_gor s cc = CgNone then (k_gor s)(cc := CgDial 0) else k_gor s)\<rparr>)"
| gt_error: "k_get s g = GtWait cc \<Longrightarrow> cc \<in> k_ready s \<Longrightarrow> k_err s cc = Some e \<Longrightarrow>
     get_step cfg s (s\<lparr>k_get := (k_get s)(g := GtErr cc e)\<rparr>)"
| gt_conn: "k_get s g = GtWait cc \<Longrightarrow> cc \<in> k_ready s \<Longrightarrow> k_err s cc = None \<Longrightarrow>
     get_step cfg s (s\<lparr>k_get := (k_get s)(g := GtConn cc)\<rparr>)"

section \<open>The goroutine of a connection\<close>

inductive dial_step :: "ClientConfig \<Rightarrow> nat \<Rightarrow> client_sys \<Rightarrow> client_sys \<Rightarrow> bool"
  for cfg :: ClientConfig and cc :: nat where
  dl_connected: "k_gor s cc = CgDial i \<Longrightarrow> int i < Client_getNumDialAttempts cfg \<Longrightarrow> attempt_err a = None \<Longrightarrow>
     dial_step cfg cc s (s\<lparr>k_err := (k_err s)(cc := None), k_gor := (k_gor s)(cc := CgReady)\<rparr>)"
| dl_failed: "k_gor s cc = CgDial i \<Longrightarrow> int i < Client_getNumDialAttempts cfg \<Longrightarrow> attempt_err a = Some e \<Longrightarrow>
     dial_step cfg cc s (s\<lparr>k_err := (k_err s)(cc := Some e), k_gor := (k_gor s)(cc := CgDial (Suc i))\<rparr>)"
| dl_give_up: "k_gor s cc = CgDial i \<Longrightarrow> \<not> int i < Client_getNumDialAttempts cfg \<Longrightarrow>
     dial_step cfg cc s (s\<lparr>k_gor := (k_gor s)(cc := if k_err s cc \<noteq> None then CgFailed else CgReady)\<rparr>)"
| dl_ready_err: "k_gor s cc = CgFailed \<Longrightarrow>
     dial_step cfg cc s (s\<lparr>k_ready := insert cc (k_ready s), k_gor := (k_gor s)(cc := CgDelete)\<rparr>)"
| dl_ready: "k_gor s cc = CgReady \<Longrightarrow>
     dial_step cfg cc s (s\<lparr>k_ready := insert cc (k_ready s), k_gor := (k_gor s)(cc := CgNew)\<rparr>)"

inductive serve_conn :: "bytesutil \<Rightarrow> ClientConfig \<Rightarrow> nat \<Rightarrow> client_sys \<Rightarrow> client_sys \<Rightarrow> bool"
  for bu :: bytesutil and cfg :: ClientConfig and cc :: nat where
  cl_new: "k_gor s cc = CgNew \<Longrightarrow>
     serve_conn bu cfg cc s (s\<lparr>k_log := (k_log s)(cc := k_log s cc @ [StateNew]), k_gor := (k_gor s)(cc := CgServe)\<rparr>)"
| cl_loops: "k_gor s cc = CgServe \<Longrightarrow>
     loop_step bu (client_conn_config cfg) (cl_done (k_client s)) (k_conn s cc) t \<Longrightarrow>
     serve_conn bu cfg cc s (s\<lparr>k_conn := (k_conn s)(cc := t)\<rparr>)"
| cl_call: "cc \<in> k_ready s \<Longrightarrow> k_err s cc = None \<Longrightarrow> \<not> panicked (cn (k_conn s cc)) \<Longrightarrow>
     call_step bu (client_conn_config cfg) (k_conn s cc) t \<Longrightarrow>
     serve_conn bu cfg cc s (s\<lparr>k_conn := (k_conn s)(cc := t)\<rparr>)"
| cl_served: "k_gor s cc = CgServe \<Longrightarrow> hp (k_conn s cc) = HClosed e \<Longrightarrow>
     serve_conn bu cfg cc s (s\<lparr>k_gor := (k_gor s)(cc := CgReport)\<rparr>)"
| cl_report: "k_gor s cc = CgReport \<Longrightarrow>
     serve_conn bu cfg cc s (s\<lparr>k_log := (k_log s)(cc := k_log s cc @ [StateClosed]), k_gor := (k_gor s)(cc := CgDelete)\<rparr>)"
| cl_delete: "k_gor s cc = CgDelete \<Longrightarrow> k_mu s = None \<Longrightarrow>
     serve_conn bu cfg cc s (s\<lparr>k_client := deleteClientConn cc (k_client s), k_gor := (k_gor s)(cc := CgEnd)\<rparr>)"

section \<open>Runs\<close>

definition client_running :: "client_sys \<Rightarrow> bool" where
  "client_running s \<longleftrightarrow> (\<forall>cc. \<not> panicked (cn (k_conn s cc)))"

inductive client_sys_step :: "bytesutil \<Rightarrow> ClientConfig \<Rightarrow> client_sys \<Rightarrow> client_sys \<Rightarrow> bool"
  for bu :: bytesutil and cfg :: ClientConfig where
  by_get: "client_running s \<Longrightarrow> get_step cfg s s' \<Longrightarrow> client_sys_step bu cfg s s'"
| by_dial: "client_running s \<Longrightarrow> dial_step cfg cc s s' \<Longrightarrow> client_sys_step bu cfg s s'"
| by_conn: "client_running s \<Longrightarrow> serve_conn bu cfg cc s s' \<Longrightarrow> client_sys_step bu cfg s s'"
| by_shutdown: "client_running s \<Longrightarrow> client_sys_step bu cfg s (s\<lparr>k_client := Client_Shutdown (k_client s)\<rparr>)"

interpretation cli: transition_system "\<lambda>s. s = client_sys_init" "client_sys_step bu cfg" for bu cfg .

definition client_sys_reachable :: "bytesutil \<Rightarrow> ClientConfig \<Rightarrow> client_sys \<Rightarrow> bool" where
  "client_sys_reachable bu cfg s \<longleftrightarrow> (client_sys_step bu cfg)\<^sup>*\<^sup>* client_sys_init s"

lemma cli_reach: "cli.reach bu cfg s \<longleftrightarrow> client_sys_reachable bu cfg s"
  by (simp add: cli.reach_def client_sys_reachable_def)

section \<open>The list of connections\<close>

definition cg_live :: "cgor \<Rightarrow> bool" where
  "cg_live g \<longleftrightarrow> g \<noteq> CgNone \<and> g \<noteq> CgEnd"

text \<open>The listed connections are those whose goroutine runs; every number below the next one has had its goroutine.\<close>

definition listed_inv :: "ClientConfig \<Rightarrow> client_sys \<Rightarrow> bool" where
  "listed_inv cfg s \<longleftrightarrow> client_ok cfg (k_client s) \<and>
     (\<forall>cc. cc \<in> set (cl_conns (k_client s)) \<longleftrightarrow> cg_live (k_gor s cc)) \<and>
     (\<forall>cc. k_gor s cc = CgNone \<longleftrightarrow> cl_next (k_client s) \<le> cc)"

lemma getClientConn_effect:
  assumes "getClientConn cfg pend c = (cc, c')"
  shows "c' = c \<and> cc \<in> set (cl_conns c) \<or> (cc, c') = newClientConn c"
proof -
  have idle: "x \<in> set ccs" if "least_loaded pend mc mp ccs = Inl x" "mp > 0" for x mc mp ccs
    using least_loaded_idle [OF that(2,1)] by blast
  have busy: "x \<in> set (mc # ccs)" if "least_loaded pend mc (pend mc) ccs = Inr x" "pend mc > 0" for x mc ccs
    using least_loaded_busy [OF refl that(2,1)] by blast
  show ?thesis
    using assms by (auto simp: getClientConn_def split: list.splits sum.splits if_splits dest: idle busy)
qed

lemma listed_get:
  assumes "get_step cfg s s'" "listed_inv cfg s"
  shows "listed_inv cfg s'"
  using assms(1)
proof cases
  case (gt_choose g seen rest cc c)
  have ok: "client_ok cfg c"
    using client_step_ok [of cfg "k_client s" "Get (reads seen)"] assms(2) gt_choose(4) by (simp add: listed_inv_def)
  from getClientConn_effect [OF gt_choose(4)] show ?thesis
  proof
    assume "c = k_client s \<and> cc \<in> set (cl_conns (k_client s))"
    then show ?thesis using assms(2) gt_choose(1) by (auto simp: listed_inv_def cg_live_def)
  next
    assume "(cc, c) = newClientConn (k_client s)"
    then have c: "cc = cl_next (k_client s)" "cl_conns c = cl_conns (k_client s) @ [cc]" "cl_next c = Suc cc"
      by (auto simp: newClientConn_def)
    then have "k_gor s cc = CgNone" using assms(2) by (simp add: listed_inv_def)
    with assms(2) ok c gt_choose(1) show ?thesis
      by (auto simp: listed_inv_def cg_live_def)
  qed
qed (use assms(2) in \<open>simp_all add: listed_inv_def\<close>)

lemma listed_dial:
  assumes "dial_step cfg cc s s'" "listed_inv cfg s"
  shows "listed_inv cfg s'"
  using assms by cases (auto simp: listed_inv_def cg_live_def)

lemma listed_conn:
  assumes "serve_conn bu cfg cc s s'" "listed_inv cfg s"
  shows "listed_inv cfg s'"
  using assms(1)
proof cases
  case cl_delete
  have "client_ok cfg (deleteClientConn cc (k_client s))"
    using client_step_ok [of cfg "k_client s" "Finished cc"] assms(2) by (simp add: listed_inv_def)
  with cl_delete assms(2) show ?thesis
    by (auto simp: listed_inv_def cg_live_def deleteClientConn_filter)
qed (use assms(2) in \<open>auto simp: listed_inv_def cg_live_def\<close>)

lemma listed_always: "cli.reach bu cfg s \<Longrightarrow> listed_inv cfg s"
proof (induction rule: cli.invariant)
  case (initial s)
  then show ?case
    using client_init_ok [of cfg] by (simp add: listed_inv_def client_sys_init_def Client_init_def cg_live_def)
next
  case (step s s')
  from \<open>client_sys_step bu cfg s s'\<close> show ?case
  proof cases
    case by_shutdown
    with step.IH show ?thesis by (simp add: listed_inv_def Client_Shutdown_def client_ok_def)
  qed (use step.IH listed_get listed_dial listed_conn in blast)+
qed

section \<open>The stages of a connection\<close>

fun stage_ok :: "int \<Rightarrow> cgor \<Rightarrow> goerr option \<Rightarrow> bool \<Rightarrow> ConnState list \<Rightarrow> bool" where
  "stage_ok N CgNone err r l = (err = None \<and> \<not> r \<and> l = [])"
| "stage_ok N (CgDial i) err r l = (\<not> r \<and> l = [] \<and> int i \<le> N \<and> (err = None \<longleftrightarrow> i = 0))"
| "stage_ok N CgFailed err r l = (err \<noteq> None \<and> \<not> r \<and> l = [])"
| "stage_ok N CgReady err r l = (err = None \<and> \<not> r \<and> l = [])"
| "stage_ok N CgNew err r l = (err = None \<and> r \<and> l = [])"
| "stage_ok N CgServe err r l = (err = None \<and> r \<and> l = [StateNew])"
| "stage_ok N CgReport err r l = (err = None \<and> r \<and> l = [StateNew])"
| "stage_ok N CgDelete err r l = (r \<and> l = (if err = None then [StateNew, StateClosed] else []))"
| "stage_ok N CgEnd err r l = (r \<and> l = (if err = None then [StateNew, StateClosed] else []))"

definition conn_ok :: "bytesutil \<Rightarrow> ClientConfig \<Rightarrow> client_sys \<Rightarrow> nat \<Rightarrow> bool" where
  "conn_ok bu cfg s cc \<longleftrightarrow>
     stage_ok (Client_getNumDialAttempts cfg) (k_gor s cc) (k_err s cc) (cc \<in> k_ready s) (k_log s cc) \<and>
     conn_reachable bu (client_conn_config cfg) (k_conn s cc) \<and>
     (k_gor s cc = CgReport \<or> StateClosed \<in> set (k_log s cc) \<longrightarrow> (\<exists>e. hp (k_conn s cc) = HClosed e)) \<and>
     (cc \<in> k_ready s \<and> k_err s cc = None \<or> k_conn s cc = sys_init) \<and>
     (k_log s cc = [] \<longrightarrow> sent (k_conn s cc) = [])"

fun get_ok :: "client_sys \<Rightarrow> get_pc \<Rightarrow> bool" where
  "get_ok s GtIdle = True"
| "get_ok s (GtScan seen rest) = True"
| "get_ok s (GtWait cc) = (k_gor s cc \<noteq> CgNone)"
| "get_ok s (GtErr cc e) = (cc \<in> k_ready s \<and> k_err s cc = Some e)"
| "get_ok s (GtConn cc) = (cc \<in> k_ready s \<and> k_err s cc = None)"

definition stages_inv :: "bytesutil \<Rightarrow> ClientConfig \<Rightarrow> client_sys \<Rightarrow> bool" where
  "stages_inv bu cfg s \<longleftrightarrow> (\<forall>cc. conn_ok bu cfg s cc) \<and> (\<forall>g. get_ok s (k_get s g))"

lemma dial_attempts_pos: "0 < Client_getNumDialAttempts cfg"
  by (simp add: Client_getNumDialAttempts_def DefaultNumDialAttempts_def)

lemma stages_get:
  assumes "get_step cfg s s'" "stages_inv bu cfg s"
  shows "stages_inv bu cfg s'"
proof -
  have conns: "conn_ok bu cfg s cc" and gets: "get_ok s (k_get s g)" for cc g
    using assms(2) by (simp_all add: stages_inv_def)
  have keep: "get_ok s' p" if "get_ok s p" "k_ready s' = k_ready s" "k_err s' = k_err s"
    "\<And>cc. k_gor s cc \<noteq> CgNone \<Longrightarrow> k_gor s' cc \<noteq> CgNone" for p
    using that by (cases p) auto
  from assms(1) show ?thesis
  proof cases
    case (gt_choose g seen rest cc c)
    have "conn_ok bu cfg s' d" for d
      using conns [of d] dial_attempts_pos [of cfg] gt_choose(1) by (auto simp: conn_ok_def)
    moreover have "get_ok s' (k_get s' h)" for h
      using gt_choose(1) keep [OF gets [of h]] by (cases "h = g") (auto simp: fun_upd_apply)
    ultimately show ?thesis by (simp add: stages_inv_def)
  next
    case (gt_lock g)
    have "get_ok s' (k_get s' h)" for h
      using gt_lock keep [OF gets [of h]] by (cases "h = g") simp_all
    moreover have "conn_ok bu cfg s' d" for d using conns [of d] gt_lock(1) by (simp add: conn_ok_def)
    ultimately show ?thesis by (simp add: stages_inv_def)
  next
    case (gt_read g seen cc rest)
    have "get_ok s' (k_get s' h)" for h
      using gt_read keep [OF gets [of h]] by (cases "h = g") simp_all
    moreover have "conn_ok bu cfg s' d" for d using conns [of d] gt_read(1) by (simp add: conn_ok_def)
    ultimately show ?thesis by (simp add: stages_inv_def)
  next
    case (gt_error g cc e)
    have "get_ok s' (k_get s' h)" for h
      using gt_error keep [OF gets [of h]] by (cases "h = g") simp_all
    moreover have "conn_ok bu cfg s' d" for d using conns [of d] gt_error(1) by (simp add: conn_ok_def)
    ultimately show ?thesis by (simp add: stages_inv_def)
  next
    case (gt_conn g cc)
    have "get_ok s' (k_get s' h)" for h
      using gt_conn keep [OF gets [of h]] by (cases "h = g") simp_all
    moreover have "conn_ok bu cfg s' d" for d using conns [of d] gt_conn(1) by (simp add: conn_ok_def)
    ultimately show ?thesis by (simp add: stages_inv_def)
  qed
qed

text \<open>A step of one goroutine: what it has to keep of the others, and of those who wait.\<close>

lemma stages_local:
  assumes "stages_inv bu cfg s" "conn_ok bu cfg s' cc" "k_get s' = k_get s"
    "\<And>d. d \<noteq> cc \<Longrightarrow> k_gor s' d = k_gor s d \<and> k_err s' d = k_err s d \<and> k_log s' d = k_log s d \<and>
       k_conn s' d = k_conn s d \<and> (d \<in> k_ready s' \<longleftrightarrow> d \<in> k_ready s)"
    "k_gor s' cc \<noteq> CgNone" "cc \<in> k_ready s \<Longrightarrow> cc \<in> k_ready s' \<and> k_err s' cc = k_err s cc"
  shows "stages_inv bu cfg s'"
proof -
  have "conn_ok bu cfg s' d" for d
    using assms(1,2) assms(4) [of d] by (cases "d = cc") (auto simp: stages_inv_def conn_ok_def)
  moreover have "get_ok s' (k_get s' g)" for g
  proof -
    have "get_ok s (k_get s g)" using assms(1) by (simp add: stages_inv_def)
    moreover have "k_gor s' d \<noteq> CgNone" if "k_gor s d \<noteq> CgNone" for d
      using that assms(4) [of d] assms(5) by (cases "d = cc") auto
    moreover have "d \<in> k_ready s' \<and> k_err s' d = k_err s d" if "d \<in> k_ready s" for d
      using that assms(4) [of d] assms(6) by (cases "d = cc") auto
    ultimately show ?thesis unfolding assms(3) by (cases "k_get s g") auto
  qed
  ultimately show ?thesis by (simp add: stages_inv_def)
qed

lemma stages_dial:
  assumes "dial_step cfg cc s s'" "stages_inv bu cfg s"
  shows "stages_inv bu cfg s'"
proof -
  have "conn_ok bu cfg s cc" using assms(2) by (simp add: stages_inv_def)
  with assms(1) show ?thesis
    by cases (rule stages_local [OF assms(2), of _ cc]; auto simp: conn_ok_def)+
qed

lemma stages_conn:
  assumes "serve_conn bu cfg cc s s'" "stages_inv bu cfg s"
  shows "stages_inv bu cfg s'"
proof -
  have ok: "conn_ok bu cfg s cc" using assms(2) by (simp add: stages_inv_def)
  from assms(1) show ?thesis
  proof cases
    case (cl_loops t)
    have "conn_reachable bu (client_conn_config cfg) t"
      using ok loop_reachable [OF _ cl_loops(3)] by (simp add: conn_ok_def)
    with ok cl_loops(1,2) show ?thesis
      by (intro stages_local [OF assms(2), of _ cc]) (auto simp: conn_ok_def)
  next
    case (cl_call t)
    have "conn_reachable bu (client_conn_config cfg) t"
      using ok reach_call [OF _ cl_call(5,4)] by (simp add: conn_ok_def)
    moreover have "k_gor s cc \<noteq> CgNone" using ok cl_call(2) by (auto simp: conn_ok_def)
    ultimately show ?thesis
      using ok cl_call(1-3) call_frame [OF cl_call(5)]
      by (intro stages_local [OF assms(2), of _ cc]) (auto simp: conn_ok_def)
  qed (use ok in \<open>(intro stages_local [OF assms(2), of _ cc]; auto simp: conn_ok_def)+\<close>)
qed

lemma stages_always: "cli.reach bu cfg s \<Longrightarrow> stages_inv bu cfg s"
proof (induction rule: cli.invariant)
  case (initial s)
  then show ?case
    by (simp add: stages_inv_def conn_ok_def client_sys_init_def conn_reachable.start) (simp add: sys_init_def)
next
  case (step s s')
  from \<open>client_sys_step bu cfg s s'\<close> show ?case
  proof cases
    case by_shutdown
    have "get_ok s' p" if "get_ok s p" for p using that by_shutdown(1) by (cases p) auto
    with step.IH by_shutdown(1) show ?thesis by (simp add: stages_inv_def conn_ok_def)
  qed (use step.IH stages_get stages_dial stages_conn in blast)+
qed

section \<open>Who scans the list\<close>

text \<open>The call that scans holds the mutex, and what it has read and has left to read is the list.\<close>

fun scanning :: "get_pc \<Rightarrow> bool" where
  "scanning (GtScan _ _) = True"
| "scanning _ = False"

definition scan_inv :: "client_sys \<Rightarrow> bool" where
  "scan_inv s \<longleftrightarrow> (\<forall>g. scanning (k_get s g) \<longleftrightarrow> k_mu s = Some g) \<and>
     (\<forall>g seen rest. k_get s g = GtScan seen rest \<longrightarrow> map fst seen @ rest = cl_conns (k_client s))"

lemma scan_frame:
  assumes "scan_inv s" "k_get s' = k_get s" "k_mu s' = k_mu s" "k_mu s = None \<or> cl_conns (k_client s') = cl_conns (k_client s)"
  shows "scan_inv s'"
proof (cases "k_mu s")
  case None
  then have "\<not> scanning (k_get s g)" for g using assms(1) by (auto simp: scan_inv_def)
  then have "k_get s g \<noteq> GtScan seen rest" for g seen rest by (metis scanning.simps(1))
  with assms(1-3) show ?thesis by (simp add: scan_inv_def)
qed (use assms in \<open>simp add: scan_inv_def\<close>)

lemma scan_get:
  assumes "get_step cfg s s'" "scan_inv s"
  shows "scan_inv s'"
proof -
  have waits: "k_mu s \<noteq> Some g" if "k_get s g = GtWait cc" for g cc
    using assms(2) that unfolding scan_inv_def by (metis scanning.simps(3))
  from assms(1) show ?thesis
  proof cases
    case (gt_choose g seen rest cc c)
    then have "k_mu s = Some g" using assms(2) unfolding scan_inv_def by (metis scanning.simps(1))
    then have "\<not> scanning (k_get s h)" if "h \<noteq> g" for h using assms(2) that by (auto simp: scan_inv_def)
    then have none: "\<not> scanning (k_get s' h)" for h using gt_choose(1) by (cases "h = g") simp_all
    then have "k_get s' h \<noteq> GtScan a b" for h a b by (metis scanning.simps(1))
    with none show ?thesis using gt_choose(1) by (simp add: scan_inv_def)
  qed (use assms(2) waits in \<open>auto simp: scan_inv_def split: if_splits\<close>)
qed

lemma scan_dial: "dial_step cfg cc s s' \<Longrightarrow> scan_inv s \<Longrightarrow> scan_inv s'"
  by (induction rule: dial_step.induct) (auto intro: scan_frame)

lemma scan_conn: "serve_conn bu cfg cc s s' \<Longrightarrow> scan_inv s \<Longrightarrow> scan_inv s'"
  by (induction rule: serve_conn.induct) (auto intro: scan_frame)

lemma scan_always: "cli.reach bu cfg s \<Longrightarrow> scan_inv s"
proof (induction rule: cli.invariant)
  case (step s s')
  from \<open>client_sys_step bu cfg s s'\<close> show ?case
  proof cases
    case by_shutdown
    with step.IH show ?thesis by (auto intro: scan_frame simp: Client_Shutdown_def)
  qed (use step.IH scan_get scan_dial scan_conn in blast)+
qed (simp add: scan_inv_def client_sys_init_def)

section \<open>Waiting for a connection\<close>

text \<open>The steps a goroutine has left until it closes \<^verbatim>\<open>ready\<close>.\<close>

fun get_work :: "ClientConfig \<Rightarrow> cgor \<Rightarrow> nat" where
  "get_work cfg CgNone = nat (Client_getNumDialAttempts cfg) + 2"
| "get_work cfg (CgDial i) = nat (Client_getNumDialAttempts cfg - int i) + 2"
| "get_work cfg CgFailed = 1"
| "get_work cfg CgReady = 1"
| "get_work cfg _ = 0"

text \<open>A run from \<open>s\<close> in which the goroutine of \<open>cc\<close> makes \<open>n\<close> steps of dialing.\<close>

inductive dial_run :: "bytesutil \<Rightarrow> ClientConfig \<Rightarrow> nat \<Rightarrow> client_sys \<Rightarrow> nat \<Rightarrow> client_sys \<Rightarrow> bool"
  for bu :: bytesutil and cfg :: ClientConfig and cc :: nat and s :: client_sys where
  dr_start: "dial_run bu cfg cc s 0 s"
| dr_own: "dial_run bu cfg cc s n s' \<Longrightarrow> client_running s' \<Longrightarrow> dial_step cfg cc s' s'' \<Longrightarrow>
     dial_run bu cfg cc s (Suc n) s''"
| dr_other: "dial_run bu cfg cc s n s' \<Longrightarrow> client_sys_step bu cfg s' s'' \<Longrightarrow> \<not> dial_step cfg cc s' s'' \<Longrightarrow>
     dial_run bu cfg cc s n s''"

lemma get_work_dial: "dial_step cfg cc s s' \<Longrightarrow> get_work cfg (k_gor s' cc) < get_work cfg (k_gor s cc)"
  by (induction rule: dial_step.induct) auto

lemma get_work_step:
  assumes "client_sys_step bu cfg s s'"
  shows "get_work cfg (k_gor s' cc) \<le> get_work cfg (k_gor s cc)"
  using assms
proof cases
  case by_get
  from by_get(2) show ?thesis by cases auto
next
  case (by_dial d)
  show ?thesis
  proof (cases "d = cc")
    case True
    with by_dial get_work_dial show ?thesis by (metis less_imp_le)
  next
    case False
    with by_dial(2) show ?thesis by cases auto
  qed
next
  case (by_conn d)
  from by_conn(2) show ?thesis by cases auto
qed auto

lemma started_step:
  assumes "client_sys_step bu cfg s s'" "k_gor s cc \<noteq> CgNone"
  shows "k_gor s' cc \<noteq> CgNone"
  using assms(1)
proof cases
  case by_get
  from by_get(2) assms(2) show ?thesis by cases auto
next
  case (by_dial d)
  from by_dial(2) assms(2) show ?thesis by cases auto
next
  case (by_conn d)
  from by_conn(2) assms(2) show ?thesis by cases auto
qed (use assms(2) in simp)

lemma dial_run_steps: "dial_run bu cfg cc s n s' \<Longrightarrow> (client_sys_step bu cfg)\<^sup>*\<^sup>* s s'"
  by (induction rule: dial_run.induct) (auto intro: by_dial rtranclp.rtrancl_into_rtrancl)

lemma started_steps: "(client_sys_step bu cfg)\<^sup>*\<^sup>* s s' \<Longrightarrow> k_gor s cc \<noteq> CgNone \<Longrightarrow> k_gor s' cc \<noteq> CgNone"
  by (induction rule: rtranclp_induct) (auto dest: started_step)

lemma dial_run_bound:
  assumes "dial_run bu cfg cc s n s'"
  shows "n + get_work cfg (k_gor s' cc) \<le> get_work cfg (k_gor s cc)"
  using assms
proof (induction rule: dial_run.induct)
  case (dr_own n s' s'')
  then show ?case using get_work_dial [OF dr_own(3)] by simp
next
  case (dr_other n s' s'')
  then show ?case using get_work_step [OF dr_other(2), of cc] by simp
qed simp

lemma get_work_le: "get_work cfg g \<le> nat (Client_getNumDialAttempts cfg) + 2"
  by (cases g) auto

lemma dial_enabled:
  assumes "stage_ok N (k_gor s cc) err (cc \<in> k_ready s) l" "k_gor s cc \<noteq> CgNone" "cc \<notin> k_ready s"
  shows "\<exists>s'. dial_step cfg cc s s'"
proof (cases "k_gor s cc")
  case (CgDial i)
  let ?a = "\<lparr>at_dial = Inr 0, at_deadline = None, at_handshake = None, at_clear = None\<rparr>"
  have "attempt_err ?a = None" by (simp add: attempt_err_def)
  with CgDial show ?thesis
    by (cases "int i < Client_getNumDialAttempts cfg") (blast intro: dl_connected dl_give_up)+
qed (use assms in \<open>auto intro: dl_ready dl_ready_err\<close>)

section \<open>Properties\<close>

text \<open>
  (C14) The connections of a client, in every run of its calls, goroutines, connections and
  shutdowns: those listed are exactly those whose goroutine runs, none twice and at most
  \<^verbatim>\<open>MaxConns\<close>, so a connection that ends always leaves the list. A call that scans the list sees it
  unchanged, whatever happens meanwhile. With the numbers \<open>pend\<close> of pending writes that it reads, a
  call gets an idle connection if there is one; otherwise a new one as long as there are fewer than
  \<^verbatim>\<open>MaxConns\<close>; otherwise one with the least number of pending writes.
\<close>

theorem client_hands_out:
  assumes "client_sys_reachable bu cfg s" and "c = k_client s" and "getClientConn cfg pend c = (r, c')"
  shows "set (cl_conns c) = {cc. cg_live (k_gor s cc)} \<and>
    int (card {cc. cg_live (k_gor s cc)}) \<le> Client_getMaxConns cfg \<and>
    distinct (cl_conns c') \<and> int (length (cl_conns c')) \<le> Client_getMaxConns cfg \<and> r \<in> set (cl_conns c') \<and>
    (k_get s g = GtScan seen rest \<longrightarrow> map fst seen @ rest = cl_conns c) \<and>
    (if \<exists>x \<in> set (cl_conns c). pend x = 0 then c' = c \<and> pend r = 0
     else if int (length (cl_conns c)) < Client_getMaxConns cfg
     then r \<notin> set (cl_conns c) \<and> cl_conns c' = cl_conns c @ [r]
     else c' = c \<and> (\<forall>x \<in> set (cl_conns c). pend r \<le> pend x))"
proof -
  have inv: "listed_inv cfg s" and scan: "scan_inv s"
    using assms(1) listed_always scan_always by (auto simp: cli_reach)
  then have ok: "client_ok cfg c" and set: "set (cl_conns c) = {cc. cg_live (k_gor s cc)}"
    by (auto simp: listed_inv_def assms(2))
  have "card (set (cl_conns c)) = length (cl_conns c)" using ok by (simp add: client_ok_def distinct_card)
  then have "int (card {cc. cg_live (k_gor s cc)}) \<le> Client_getMaxConns cfg"
    using ok by (simp add: set client_ok_def)
  moreover have "client_ok cfg c'" using client_step_ok [OF ok, of "Get pend"] assms(3) by simp
  moreover have "k_get s g = GtScan seen rest \<longrightarrow> map fst seen @ rest = cl_conns c"
    using scan unfolding scan_inv_def assms(2) by blast
  ultimately show ?thesis using getClientConn_choice [OF ok assms(3)] set unfolding client_ok_def by blast
qed

text \<open>
  (C10) No \<^verbatim>\<open>Get\<close> waits forever: in any interleaving, the goroutine a call waits for makes at most
  \<^verbatim>\<open>NumDialAttempts\<close> + 2 more steps of dialing, and as long as it has not closed \<^verbatim>\<open>ready\<close> it has a
  step to make; once it has, the call can return. A call returns the connection exactly when
  dialing it succeeded, and an error exactly when its last attempt failed, in which case the
  connection was never used and never reported.
\<close>

theorem get_returns:
  assumes "client_sys_reachable bu cfg s" and "k_get s g = GtWait cc" and "dial_run bu cfg cc s n s'"
  shows "n \<le> nat (Client_getNumDialAttempts cfg) + 2 \<and>
    (cc \<notin> k_ready s' \<longrightarrow> (\<exists>s''. dial_step cfg cc s' s'')) \<and>
    (cc \<in> k_ready s' \<and> k_get s' g = GtWait cc \<longrightarrow>
       (\<exists>s''. get_step cfg s' s'' \<and> k_get s'' g = (case k_err s' cc of None \<Rightarrow> GtConn cc | Some e \<Rightarrow> GtErr cc e))) \<and>
    (k_get s' g = GtConn cc \<longrightarrow> k_err s' cc = None) \<and>
    (k_get s' g = GtErr cc e \<longrightarrow> k_err s' cc = Some e \<and> k_log s' cc = [] \<and> k_conn s' cc = sys_init)"
proof -
  have r: "cli.reach bu cfg s" using assms(1) by (simp add: cli_reach)
  note run = dial_run_steps [OF assms(3)]
  note st = stages_always [OF r, unfolded stages_inv_def]
    and st' = stages_always [OF cli.reach_steps [OF r run], unfolded stages_inv_def]
  have "n \<le> nat (Client_getNumDialAttempts cfg) + 2"
    using dial_run_bound [OF assms(3)] get_work_le [of cfg "k_gor s cc"] by linarith
  moreover have "k_gor s cc \<noteq> CgNone" using st assms(2) by (metis get_ok.simps(3))
  then have started: "k_gor s' cc \<noteq> CgNone" by (rule started_steps [OF run])
  have ok: "conn_ok bu cfg s' cc" and get: "get_ok s' (k_get s' g)" using st' by blast+
  have "cc \<notin> k_ready s' \<longrightarrow> (\<exists>s''. dial_step cfg cc s' s'')"
    using ok started dial_enabled unfolding conn_ok_def by blast
  moreover have "\<exists>s''. get_step cfg s' s'' \<and> k_get s'' g = (case k_err s' cc of None \<Rightarrow> GtConn cc | Some e \<Rightarrow> GtErr cc e)"
    if "cc \<in> k_ready s'" "k_get s' g = GtWait cc"
    using gt_conn [OF that(2,1)] gt_error [OF that(2,1)] by (cases "k_err s' cc") fastforce+
  moreover have "k_log s' cc = [] \<and> k_conn s' cc = sys_init" if "k_err s' cc = Some e" "cc \<in> k_ready s'"
    using ok that by (cases "k_gor s' cc") (auto simp: conn_ok_def)
  ultimately show ?thesis using get by (cases "k_get s' g") auto
qed

text \<open>
  (C15) Sending through a client: a \<^verbatim>\<open>Send\<close> through a client that returns no error had its message
  written, on a connection that was dialed and reported as new. What a connection has written is a
  prefix of what it has accepted, and everything once its write loop has returned without an error;
  only then, or after an error, its socket is closed. A connection is reported as closed once, when
  its socket is closed, and then every \<^verbatim>\<open>Send\<close> that still waits can return.
\<close>

theorem client_send_written:
  assumes "bytesutil_spec bu" and "client_sys_reachable bu cfg s"
  shows "(pc (k_conn s cc) t = SendDone None \<longrightarrow>
       t \<in> set (sent (k_conn s cc)) \<and> StateNew \<in> set (k_log s cc) \<and> cc \<in> k_ready s \<and> k_err s cc = None) \<and>
    prefix (sent (k_conn s cc)) (acc (k_conn s cc)) \<and>
    (sock_shut (k_conn s cc) \<longrightarrow>
       (\<exists>e. wl (k_conn s cc) = WDone e \<and> (e = None \<longrightarrow> sent (k_conn s cc) = acc (k_conn s cc)))) \<and>
    reported (k_log s cc) (k_conn s cc) \<and>
    (StateClosed \<in> set (k_log s cc) \<longrightarrow> sock_shut (k_conn s cc) \<and>
       (pc (k_conn s cc) t = SendWait \<longrightarrow> pw_wg (pws (cn (k_conn s cc)) t) = 0))"
proof -
  let ?t = "k_conn s cc"
  have ok: "conn_ok bu cfg s cc"
    using stages_always assms(2) unfolding cli_reach stages_inv_def by blast
  then have run: "conn_reachable bu (client_conn_config cfg) ?t" by (simp add: conn_ok_def)
  note inv = reachable_inv [OF assms(1) run, unfolded conn_inv_def writes_inv_def ledger_def]
  note order = writes_in_order [OF assms(1) run]
  have ctl: "control_inv ?t" using inv by blast
  have rep: "reported (k_log s cc) ?t" using ok by (cases "k_gor s cc") (auto simp: conn_ok_def reported_def)
  have wrote: "t \<in> set (sent ?t)" if "pc ?t t = SendDone None" using inv that by blast
  have wake: "pw_wg (pws (cn ?t) t) = 0" if "hp ?t = HClosed e" "pc ?t t = SendWait" for e
  proof -
    have "pending ?t = []" using inv that(1) by (auto simp: control_inv_def pending_def)
    then show ?thesis using inv that(2) by auto
  qed
  have new: "StateNew \<in> set (k_log s cc)" if "sent ?t \<noteq> []"
    using ok rep that by (auto simp: conn_ok_def reported_def)
  have dialed: "cc \<in> k_ready s \<and> k_err s cc = None" if "sent ?t \<noteq> []"
    using ok that by (auto simp: conn_ok_def sys_init_def)
  have "\<exists>e. wl ?t = WDone e \<and> (e = None \<longrightarrow> sent ?t = acc ?t)" if "sock_shut ?t"
    using ctl order that by (fastforce simp: control_inv_def)
  moreover have "sock_shut ?t" if "hp ?t = HClosed e" for e
    using ctl that by (auto simp: control_inv_def)
  moreover have "\<exists>e. hp ?t = HClosed e" if "StateClosed \<in> set (k_log s cc)" using rep that by (simp add: reported_def)
  moreover have "sent ?t \<noteq> []" if "pc ?t t = SendDone None" using wrote [OF that] by auto
  ultimately show ?thesis using order rep wrote new dialed wake by blast
qed

section \<open>Witnesses\<close>

text \<open>One call of \<^verbatim>\<open>Get\<close>, at \<open>p\<close>, and the connection it waits for, at \<open>g\<close>.\<close>

definition one_conn :: "cgor \<Rightarrow> nat set \<Rightarrow> get_pc \<Rightarrow> client_sys" where
  "one_conn g r p = client_sys_init\<lparr>k_client := \<lparr>cl_conns = [0], cl_next = 1, cl_done = False\<rparr>,
     k_gor := (\<lambda>_. CgNone)(0 := g), k_ready := r, k_get := (\<lambda>_. GtIdle)(0 := p)\<rparr>"

lemma one_conn_running: "client_running (one_conn g r p)"
  by (simp add: client_running_def one_conn_def client_sys_init_def sys_init_def Conn_init_def)

lemma one_conn_waits: "cli.reach bu cfg (one_conn (CgDial 0) {} (GtWait 0))"
proof -
  let ?s = "client_sys_init\<lparr>k_mu := Some 0, k_get := (\<lambda>_. GtIdle)(0 := GtScan [] [])\<rparr>"
  have run: "client_running client_sys_init" "client_running ?s"
    by (simp_all add: client_running_def client_sys_init_def sys_init_def Conn_init_def)
  have "get_step cfg client_sys_init ?s"
    using gt_lock [of client_sys_init 0 cfg] by (simp add: client_sys_init_def Client_init_def)
  with run(1) have r: "cli.reach bu cfg ?s" by (blast intro: cli.reach_step [OF cli.reach_initial] by_get)
  have "getClientConn cfg (reads []) (k_client ?s) = (0, \<lparr>cl_conns = [0], cl_next = 1, cl_done = False\<rparr>)"
    by (simp add: client_sys_init_def Client_init_def getClientConn_def newClientConn_def)
  from gt_choose [of ?s 0, OF _ _ this] have "get_step cfg ?s (one_conn (CgDial 0) {} (GtWait 0))"
    by (simp add: one_conn_def client_sys_init_def settled_def)
  with run(2) show ?thesis by (blast intro: cli.reach_step [OF r] by_get)
qed

lemma one_conn_dials:
  "dial_step cfg 0 (one_conn (CgDial 0) {} (GtWait 0)) (one_conn CgReady {} (GtWait 0))"
  "dial_step cfg 0 (one_conn CgReady {} (GtWait 0)) (one_conn CgNew {0} (GtWait 0))"
proof -
  have "attempt_err \<lparr>at_dial = Inr 0, at_deadline = None, at_handshake = None, at_clear = None\<rparr> = None"
    by (simp add: attempt_err_def)
  from dl_connected [of "one_conn (CgDial 0) {} (GtWait 0)" 0 0, OF _ _ this] dial_attempts_pos [of cfg]
  show "dial_step cfg 0 (one_conn (CgDial 0) {} (GtWait 0)) (one_conn CgReady {} (GtWait 0))"
    by (simp add: one_conn_def client_sys_init_def fun_upd_idem)
  from dl_ready [of "one_conn CgReady {} (GtWait 0)" 0 cfg]
  show "dial_step cfg 0 (one_conn CgReady {} (GtWait 0)) (one_conn CgNew {0} (GtWait 0))"
    by (simp add: one_conn_def client_sys_init_def)
qed

lemma one_conn_reachable: "client_sys_reachable bu cfg (one_conn (CgDial 0) {} (GtWait 0))"
  using one_conn_waits by (simp add: cli_reach)

theorem client_hands_out_witness:
  "\<exists>r c'. getClientConn example_client (pending_writes (one_conn (CgDial 0) {} (GtWait 0)))
     (k_client (one_conn (CgDial 0) {} (GtWait 0))) = (r, c') \<and> r = 0 \<and> cl_conns c' = [0]"
proof -
  let ?s = "one_conn (CgDial 0) {} (GtWait 0)"
  obtain r c' where g: "getClientConn example_client (pending_writes ?s) (k_client ?s) = (r, c')" by fastforce
  have "\<exists>x \<in> set (cl_conns (k_client ?s)). pending_writes ?s x = 0"
    by (simp add: one_conn_def pending_writes_def client_sys_init_def sys_init_def Conn_init_def NumOfPendingWrites_def)
  then have "c' = k_client ?s" "r \<in> set (cl_conns c')"
    using client_hands_out [OF one_conn_reachable [of "bytesutil_model 3"] refl g] by metis+
  moreover have "cl_conns (k_client ?s) = [0]" by (simp add: one_conn_def)
  ultimately show ?thesis using g by auto
qed

lemma one_conn_run:
  "dial_run bu cfg 0 (one_conn (CgDial 0) {} (GtWait 0)) 2 (one_conn CgNew {0} (GtWait 0))"
proof -
  have "dial_run bu cfg 0 (one_conn (CgDial 0) {} (GtWait 0)) (Suc 0) (one_conn CgReady {} (GtWait 0))"
    by (rule dr_own [OF dr_start one_conn_running one_conn_dials(1)])
  from dr_own [OF this one_conn_running one_conn_dials(2)] show ?thesis by (simp add: numeral_2_eq_2)
qed

lemma one_conn_fields:
  "k_get (one_conn g r p) 0 = p" "k_ready (one_conn g r p) = r" "k_err (one_conn g r p) 0 = None"
  by (simp_all add: one_conn_def client_sys_init_def)

theorem get_returns_witness:
  "\<exists>s''. get_step example_client (one_conn CgNew {0} (GtWait 0)) s'' \<and> k_get s'' 0 = GtConn 0"
proof -
  note get_returns [OF one_conn_reachable one_conn_fields(1) one_conn_run, unfolded one_conn_fields,
      of example_client]
  then show ?thesis by simp
qed

text \<open>A connection that is being served runs on its own inside of its client.\<close>

lemma client_conn_run:
  assumes "(own_step bu (client_conn_config cfg))\<^sup>*\<^sup>* (k_conn s cc) t" and "cli.reach bu cfg s"
    and "k_gor s cc = CgServe" "cc \<in> k_ready s" "k_err s cc = None"
    and "\<And>d. d \<noteq> cc \<Longrightarrow> \<not> panicked (cn (k_conn s d))"
  shows "cli.reach bu cfg (s\<lparr>k_conn := (k_conn s)(cc := t)\<rparr>)"
  using assms(1)
proof (induction rule: rtranclp_induct)
  case base
  then show ?case using assms(2) by simp
next
  case (step t u)
  let ?s = "\<lambda>t. s\<lparr>k_conn := (k_conn s)(cc := t)\<rparr>"
  note own = own_step_owner(1) [OF step(2)] own_step_owner(2) [OF step(2), of "cl_done (k_client s)"]
  have "client_running (?s t)" using own(1) assms(6) by (simp add: client_running_def)
  moreover have "serve_conn bu cfg cc (?s t) (?s u)"
    using cl_loops [of "?s t" cc bu cfg u] cl_call [of cc "?s t" bu cfg u] own assms(3-5) by auto
  ultimately show ?case using cli.reach_step [OF step(3)] by (blast intro: by_conn)
qed

text \<open>The client whose connection has sent one message, gone down and been reported as closed; \<open>p\<close> is the call.\<close>

definition one_closed :: "cgor \<Rightarrow> ConnState list \<Rightarrow> caller \<Rightarrow> client_sys" where
  "one_closed g l p = (one_conn g {0} (GtWait 0))\<lparr>k_log := (\<lambda>_. [])(0 := l),
     k_conn := (\<lambda>_. sys_init)(0 := run_sent_closed\<lparr>pc := (pc run_sent_closed)(0 := p)\<rparr>)\<rparr>"

lemma one_closed_running: "client_running (one_closed g l p)"
  by (simp add: client_running_def one_closed_def one_conn_def client_sys_init_def run_closed_fields)
    (simp add: sys_init_def Conn_init_def)

lemmas one_closed_defs = one_closed_def one_conn_def client_sys_init_def run_closed_fields

lemma one_conn_served: "cli.reach (bytesutil_model 3) cfg (one_closed CgServe [StateNew] SendWait)"
proof -
  let ?bu = "bytesutil_model 3" and ?n = "one_conn CgNew {0} (GtWait 0)"
  let ?s = "(one_conn CgServe {0} (GtWait 0))\<lparr>k_log := (\<lambda>_. [])(0 := [StateNew])\<rparr>"
  have "cli.reach ?bu cfg ?n"
    by (rule cli.reach_steps [OF one_conn_waits dial_run_steps [OF one_conn_run]])
  moreover have "serve_conn ?bu cfg 0 ?n ?s"
    using cl_new [of ?n 0 ?bu cfg] by (simp add: one_conn_def client_sys_init_def)
  ultimately have r: "cli.reach ?bu cfg ?s"
    using one_conn_running by (blast intro: cli.reach_step by_conn)
  have "cli.reach ?bu cfg (?s\<lparr>k_conn := (k_conn ?s)(0 := run_sent_closed)\<rparr>)"
    by (rule client_conn_run [OF _ r])
      (use run_closed_steps in \<open>simp_all add: one_conn_def client_sys_init_def, simp add: sys_init_def Conn_init_def\<close>)
  moreover have "run_sent_closed\<lparr>pc := (pc run_sent_closed)(0 := SendWait)\<rparr> = run_sent_closed"
    by (simp add: fun_upd_idem run_closed_fields(1))
  ultimately show ?thesis by (simp add: one_closed_def one_conn_def client_sys_init_def)
qed

lemma one_conn_closed:
  "cli.reach (bytesutil_model 3) cfg (one_closed CgDelete [StateNew, StateClosed] SendWait)"
  "cli.reach (bytesutil_model 3) cfg (one_closed CgDelete [StateNew, StateClosed] (SendDone None))"
proof -
  let ?bu = "bytesutil_model 3" and ?c = "one_closed CgDelete [StateNew, StateClosed]"
  have "serve_conn ?bu cfg 0 (one_closed CgServe [StateNew] SendWait) (one_closed CgReport [StateNew] SendWait)"
    using cl_served [of "one_closed CgServe [StateNew] SendWait" 0 _ ?bu cfg] by (simp add: one_closed_defs)
  then have r: "cli.reach ?bu cfg (one_closed CgReport [StateNew] SendWait)"
    using one_closed_running by (blast intro: cli.reach_step [OF one_conn_served] by_conn)
  have "serve_conn ?bu cfg 0 (one_closed CgReport [StateNew] SendWait) (?c SendWait)"
    using cl_report [of "one_closed CgReport [StateNew] SendWait" 0 ?bu cfg] by (simp add: one_closed_defs)
  then show d: "cli.reach ?bu cfg (?c SendWait)" using one_closed_running by (blast intro: cli.reach_step [OF r] by_conn)
  let ?t = "\<lambda>p. run_sent_closed\<lparr>pc := (pc run_sent_closed)(0 := p)\<rparr>"
  have "call_step ?bu (client_conn_config cfg) (?t SendWait) (?t (SendDone None))"
    using send_return [of "?t SendWait" 0 ?bu "client_conn_config cfg"] by (simp add: run_closed_fields)
  then have "serve_conn ?bu cfg 0 (?c SendWait) (?c (SendDone None))"
    using cl_call [of 0 "?c SendWait" ?bu cfg "?t (SendDone None)"] by (simp add: one_closed_defs)
  then show "cli.reach ?bu cfg (?c (SendDone None))" using one_closed_running by (blast intro: cli.reach_step [OF d] by_conn)
qed

theorem client_send_written_witness:
  "let s = one_closed CgDelete [StateNew, StateClosed] SendWait; s' = one_closed CgDelete [StateNew, StateClosed] (SendDone None) in
     pc (k_conn s 0) 0 = SendWait \<and> sock_shut (k_conn s 0) \<and> pw_wg (pws (cn (k_conn s 0)) 0) = 0 \<and>
     pc (k_conn s' 0) 0 = SendDone None \<and> 0 \<in> set (sent (k_conn s' 0)) \<and> k_err s' 0 = None"
proof -
  let ?s = "one_closed CgDelete [StateNew, StateClosed] SendWait"
    and ?s' = "one_closed CgDelete [StateNew, StateClosed] (SendDone None)"
  have r: "client_sys_reachable (bytesutil_model 3) example_client ?s"
    "client_sys_reachable (bytesutil_model 3) example_client ?s'" using one_conn_closed by (simp_all add: cli_reach)
  have f: "pc (k_conn ?s 0) 0 = SendWait" "StateClosed \<in> set (k_log ?s 0)" "pc (k_conn ?s' 0) 0 = SendDone None"
    by (simp_all add: one_closed_def)
  note w = client_send_written [OF bm.bytesutil_spec_axioms]
  show ?thesis using w [OF r(1), of 0 0] w [OF r(2), of 0 0] f unfolding Let_def by blast
qed

end
