(* ===== verification/Transmit_Server.thy ===== *)
theory Transmit_Server
  imports Transmit_Client Carlo_Systems
begin

text \<open>
  \<^verbatim>\<open>streaming_transmit/server.go\<close>: a server accepts connections, limits how many it serves at
  once by a semaphore channel, serves each in a goroutine and can be shut down. The listener,
  the handshake and the scheduler's choices are arguments or steps.
\<close>

section \<open>Configuration\<close>

definition DefaultMaxServerConns :: int where "DefaultMaxServerConns = 1024"
definition DefaultMaxConnWaitTimeout :: int where "DefaultMaxConnWaitTimeout = 3 * 10 ^ 9"
definition DefaultServerSeqOffset :: u32 where "DefaultServerSeqOffset = 2"
definition DefaultServerSeqDelta :: u32 where "DefaultServerSeqDelta = 2"

record ServerConfig =
  sv_Handler :: "Handler option"
  sv_HandshakeTimeout :: int
  sv_MaxConns :: int
  sv_MaxConnWaitTimeout :: int
  sv_ReadBufferSize :: int
  sv_WriteBufferSize :: int
  sv_ReadTimeout :: int
  sv_WriteTimeout :: int
  sv_SeqOffset :: u32
  sv_SeqDelta :: u32

definition Server_getHandler :: "ServerConfig \<Rightarrow> Handler" where
  "Server_getHandler s = (case sv_Handler s of None \<Rightarrow> DefaultHandler | Some h \<Rightarrow> h)"

definition Server_getHandshakeTimeout :: "ServerConfig \<Rightarrow> int" where
  "Server_getHandshakeTimeout s =
     (if sv_HandshakeTimeout s < 0 then DefaultHandshakeTimeout else sv_HandshakeTimeout s)"

definition Server_getMaxConns :: "ServerConfig \<Rightarrow> int" where
  "Server_getMaxConns s = (if sv_MaxConns s \<le> 0 then DefaultMaxServerConns else sv_MaxConns s)"

definition Server_getMaxConnWaitTimeout :: "ServerConfig \<Rightarrow> int" where
  "Server_getMaxConnWaitTimeout s =
     (if sv_MaxConnWaitTimeout s \<le> 0 then DefaultMaxConnWaitTimeout else sv_MaxConnWaitTimeout s)"

definition Server_getReadTimeout :: "ServerConfig \<Rightarrow> int" where
  "Server_getReadTimeout s = (if sv_ReadTimeout s < 0 then DefaultReadTimeout else sv_ReadTimeout s)"

definition Server_getWriteTimeout :: "ServerConfig \<Rightarrow> int" where
  "Server_getWriteTimeout s = (if sv_WriteTimeout s < 0 then DefaultWriteTimeout else sv_WriteTimeout s)"

definition Server_getReadBufferSize :: "ServerConfig \<Rightarrow> int" where
  "Server_getReadBufferSize s =
     (if sv_ReadBufferSize s \<le> 0 then DefaultReadBufferSize else sv_ReadBufferSize s)"

definition Server_getWriteBufferSize :: "ServerConfig \<Rightarrow> int" where
  "Server_getWriteBufferSize s =
     (if sv_WriteBufferSize s \<le> 0 then DefaultWriteBufferSize else sv_WriteBufferSize s)"

definition Server_getSeqOffset :: "ServerConfig \<Rightarrow> u32" where
  "Server_getSeqOffset s = (if sv_SeqOffset s = 0 then DefaultServerSeqOffset else sv_SeqOffset s)"

definition Server_getSeqDelta :: "ServerConfig \<Rightarrow> u32" where
  "Server_getSeqDelta s = (if sv_SeqDelta s = 0 then DefaultServerSeqDelta else sv_SeqDelta s)"

definition server_conn_config :: "ServerConfig \<Rightarrow> ConnConfig" where
  "server_conn_config s = \<lparr>cf_Handler = Some (Server_getHandler s),
     cf_ReadBufferSize = Server_getReadBufferSize s, cf_WriteBufferSize = Server_getWriteBufferSize s,
     cf_ReadTimeout = Server_getReadTimeout s, cf_WriteTimeout = Server_getWriteTimeout s,
     cf_SeqOffset = Server_getSeqOffset s, cf_SeqDelta = Server_getSeqDelta s\<rparr>"

section \<open>Accepting\<close>

text \<open>What \<^verbatim>\<open>Serve\<close> does about an error of \<^verbatim>\<open>Accept\<close>; \<open>waited\<close> is the result of \<^verbatim>\<open>wait\<close>.\<close>

datatype serve_next = Return "goerr option" | Continue

definition accept_error :: "goerr \<Rightarrow> bool \<Rightarrow> serve_next" where
  "accept_error err waited =
     (if errors_Is err EOF then Return None
      else case errors_As_OpError err of
          None \<Rightarrow> Return (Some err)
        | Some (text, temporary) \<Rightarrow>
            if text = ''use of closed network connection'' then Return None
            else if \<not> temporary then Return (Some err)
            else if waited then Continue else Return None)"

section \<open>What a server promises\<close>

text \<open>
  A bounded pool of connections, which the server of theory \<open>Server_Machine\<close> implements: the
  tokens in the semaphore, the counter of the wait group, the accepted connections that are not
  yet in the wait group, those whose goroutine is inside of \<^verbatim>\<open>client\<close>, and those that have given
  back their token and not yet left the wait group.
\<close>

record Server =
  s_sem :: nat
  s_wg :: int
  s_starting :: "nat set"
  s_active :: "nat set"
  s_closing :: "nat set"

definition Server_init :: Server where
  "Server_init = \<lparr>s_sem = 0, s_wg = 0, s_starting = {}, s_active = {}, s_closing = {}\<rparr>"

definition known :: "Server \<Rightarrow> nat set" where
  "known s = s_starting s \<union> s_active s \<union> s_closing s"

inductive server_step :: "ServerConfig \<Rightarrow> Server \<Rightarrow> Server \<Rightarrow> bool" for cfg :: ServerConfig where
  accept: "int (s_sem s) < Server_getMaxConns cfg \<Longrightarrow> c \<notin> known s \<Longrightarrow>
     server_step cfg s (s\<lparr>s_sem := Suc (s_sem s), s_starting := insert c (s_starting s)\<rparr>)"
| spawn: "c \<in> s_starting s \<Longrightarrow>
     server_step cfg s (s\<lparr>s_wg := s_wg s + 1, s_starting := s_starting s - {c}, s_active := insert c (s_active s)\<rparr>)"
| served: "c \<in> s_active s \<Longrightarrow>
     server_step cfg s (s\<lparr>s_sem := s_sem s - 1, s_active := s_active s - {c}, s_closing := insert c (s_closing s)\<rparr>)"
| ended: "c \<in> s_closing s \<Longrightarrow>
     server_step cfg s (s\<lparr>s_wg := s_wg s - 1, s_closing := s_closing s - {c}\<rparr>)"

interpretation pool: transition_system "\<lambda>s. s = Server_init" "server_step cfg" for cfg .

definition server_ok :: "ServerConfig \<Rightarrow> Server \<Rightarrow> bool" where
  "server_ok cfg s \<longleftrightarrow> finite (known s) \<and> s_starting s \<inter> s_active s = {} \<and>
     s_closing s \<inter> (s_starting s \<union> s_active s) = {} \<and>
     s_sem s = card (s_starting s) + card (s_active s) \<and>
     s_wg s = int (card (s_active s)) + int (card (s_closing s)) \<and>
     int (s_sem s) \<le> Server_getMaxConns cfg"

lemma server_step_ok:
  assumes "server_step cfg s s'" "server_ok cfg s"
  shows "server_ok cfg s'"
  using assms
proof (induction rule: server_step.induct)
  case (accept s c)
  then show ?case by (auto simp: server_ok_def known_def)
next
  case (spawn c s)
  then have "card (s_starting s) > 0" "c \<notin> s_active s"
    by (auto simp: server_ok_def known_def card_gt_0_iff)
  with spawn show ?case by (auto simp: server_ok_def known_def)
next
  case (served c s)
  then have "card (s_active s) > 0" "c \<notin> s_closing s"
    by (auto simp: server_ok_def known_def card_gt_0_iff)
  with served show ?case by (auto simp: server_ok_def known_def of_nat_diff)
next
  case (ended c s)
  then have "card (s_closing s) > 0" by (auto simp: server_ok_def known_def card_gt_0_iff)
  with ended show ?case by (auto simp: server_ok_def known_def of_nat_diff)
qed

lemma pool_ok: "pool.reach cfg s \<Longrightarrow> server_ok cfg s"
proof (induction rule: pool.invariant)
  case (initial s)
  then show ?case
    by (simp add: server_ok_def known_def Server_init_def Server_getMaxConns_def DefaultMaxServerConns_def)
qed (simp add: server_step_ok)

text \<open>
  The tokens of the semaphore are exactly the connections accepted and not yet finished, and the
  wait group counts exactly the goroutines that run.
\<close>

lemma server_bounded:
  assumes "pool.reach cfg s"
  shows "int (card (s_active s)) \<le> Server_getMaxConns cfg"
    and "s_sem s = card (s_starting s) + card (s_active s)"
    and "s_wg s = int (card (s_active s \<union> s_closing s))" and "finite (s_active s \<union> s_closing s)"
proof -
  note ok = pool_ok [OF assms, unfolded server_ok_def known_def]
  show "finite (s_active s \<union> s_closing s)" using ok by simp
  have "card (s_active s \<union> s_closing s) = card (s_active s) + card (s_closing s)"
    using ok by (intro card_Un_disjoint) auto
  then show "s_wg s = int (card (s_active s \<union> s_closing s))" using ok by simp
  show "int (card (s_active s)) \<le> Server_getMaxConns cfg" "s_sem s = card (s_starting s) + card (s_active s)"
    using ok by simp_all
qed

section \<open>Sequence numbers\<close>

definition example_server :: ServerConfig where
  "example_server = \<lparr>sv_Handler = None, sv_HandshakeTimeout = 0, sv_MaxConns = 1, sv_MaxConnWaitTimeout = 0,
     sv_ReadBufferSize = 0, sv_WriteBufferSize = 0, sv_ReadTimeout = 0, sv_WriteTimeout = 0,
     sv_SeqOffset = 0, sv_SeqDelta = 0\<rparr>"

text \<open>By default the two ends of a connection use the sequence numbers of a client and of a server.\<close>

lemma default_sequences:
  "cl_SeqOffset c = 0 \<Longrightarrow> cl_SeqDelta c = 0 \<Longrightarrow> client_seqs (client_conn_config c)"
  "sv_SeqOffset s = 0 \<Longrightarrow> sv_SeqDelta s = 0 \<Longrightarrow> server_seqs (server_conn_config s)"
  by (simp_all add: client_seqs_def server_seqs_def client_conn_config_def server_conn_config_def
      getSeqOffset_def getSeqDelta_def Client_getSeqOffset_def Client_getSeqDelta_def
      Server_getSeqOffset_def Server_getSeqDelta_def DefaultClientSeqOffset_def DefaultClientSeqDelta_def
      DefaultServerSeqOffset_def DefaultServerSeqDelta_def)

end
