(* ===== verification/Server_Machine.thy ===== *)
theory Server_Machine
  imports Transmit_Server Conn_Owner
begin

text \<open>
  \<^verbatim>\<open>streaming_transmit/server.go\<close> as a machine: any number of calls of \<^verbatim>\<open>Serve\<close> and
  \<^verbatim>\<open>Shutdown\<close>, and a goroutine per admitted connection that runs \<^verbatim>\<open>client\<close> with the whole
  machine of \<^verbatim>\<open>conn.go\<close> inside. A step is one operation on the semaphore, on the wait group,
  on \<^verbatim>\<open>done\<close> or on the listener, one call of a handler, or one step of a connection. Accepted
  sockets are numbered.

  The wait group is that of the standard library: a counter and a number of waiters. \<^verbatim>\<open>Wait\<close>
  returns at once when the counter is 0 and otherwise registers and sleeps; the \<^verbatim>\<open>Done\<close> that takes
  the counter to 0 resets the group and wakes the waiters, and a waiter that wakes up checks that
  the group is still reset. \<^verbatim>\<open>Add\<close>, \<^verbatim>\<open>Done\<close> and \<^verbatim>\<open>Wait\<close> panic when they find the group in use in
  a way it does not allow.
\<close>

section \<open>State\<close>

datatype serve_pc =
    SvIdle
  | SvAccept
  | SvBackoff
  | SvAvail nat
  | SvWaitSlot nat
  | SvReject nat
  | SvSpawn nat
  | SvReturned "goerr option"

datatype sgor =
    SgNone
  | SgDeadline
  | SgHandshake
  | SgClear
  | SgNew
  | SgServe
  | SgReport
  | SgSlot
  | SgClose
  | SgDone
  | SgWake nat
  | SgEnd

datatype shut_pc = ShIdle | ShCalled | ShBlocked | ShWoken | ShReturned | ShPanicked

text \<open>
  What a server panics of: closing the closed channel; a negative counter; an \<^verbatim>\<open>Add\<close> from 0 while
  somebody waits; a group that changes while its waiters are woken; and a group that is used again
  before a waiter has returned.
\<close>

datatype server_panic = CloseOfClosed | NegativeCounter | AddWithWaiters | StateChanged | WaitReused

record server_sys =
  v_loop :: "nat \<Rightarrow> serve_pc"
  v_shut :: "nat \<Rightarrow> shut_pc"
  v_done :: bool
  v_sem :: nat
  v_wg :: int
  v_waiters :: nat
  v_next :: nat
  v_gor :: "nat \<Rightarrow> sgor"
  v_conn :: "nat \<Rightarrow> sys"
  v_closed :: "nat set"
  v_log :: "nat \<Rightarrow> ConnState list"
  v_panicked :: "server_panic option"

definition server_sys_init :: server_sys where
  "server_sys_init = \<lparr>v_loop = (\<lambda>_. SvIdle), v_shut = (\<lambda>_. ShIdle), v_done = False, v_sem = 0, v_wg = 0,
     v_waiters = 0, v_next = 0, v_gor = (\<lambda>_. SgNone), v_conn = (\<lambda>_. sys_init), v_closed = {}, v_log = (\<lambda>_. []),
     v_panicked = None\<rparr>"

section \<open>Serve\<close>

text \<open>
  \<^verbatim>\<open>serverAvailable\<close> is the steps from \<open>SvAvail\<close>: a select that takes a slot or sees the
  shutdown, any of the two when both are ready; with neither it waits for a timer as well.
\<close>

inductive serve_step :: "ServerConfig \<Rightarrow> server_sys \<Rightarrow> server_sys \<Rightarrow> bool" for cfg :: ServerConfig where
  sv_call: "v_loop s i = SvIdle \<Longrightarrow> serve_step cfg s (s\<lparr>v_loop := (v_loop s)(i := SvAccept)\<rparr>)"
| sv_accept: "v_loop s i = SvAccept \<Longrightarrow>
     serve_step cfg s (s\<lparr>v_next := Suc (v_next s), v_loop := (v_loop s)(i := SvAvail (v_next s))\<rparr>)"
| sv_accept_err: "v_loop s i = SvAccept \<Longrightarrow> accept_error err True = Return r \<Longrightarrow>
     serve_step cfg s (s\<lparr>v_loop := (v_loop s)(i := SvReturned r)\<rparr>)"
| sv_accept_temp: "v_loop s i = SvAccept \<Longrightarrow> accept_error err True = Continue \<Longrightarrow>
     serve_step cfg s (s\<lparr>v_loop := (v_loop s)(i := SvBackoff)\<rparr>)"
| sv_waited: "v_loop s i = SvBackoff \<Longrightarrow> serve_step cfg s (s\<lparr>v_loop := (v_loop s)(i := SvAccept)\<rparr>)"
| sv_wait_done: "v_loop s i = SvBackoff \<Longrightarrow> v_done s \<Longrightarrow>
     serve_step cfg s (s\<lparr>v_loop := (v_loop s)(i := SvReturned None)\<rparr>)"
| sv_slot: "v_loop s i = SvAvail c \<or> v_loop s i = SvWaitSlot c \<Longrightarrow> int (v_sem s) < Server_getMaxConns cfg \<Longrightarrow>
     serve_step cfg s (s\<lparr>v_sem := Suc (v_sem s), v_loop := (v_loop s)(i := SvSpawn c)\<rparr>)"
| sv_shut: "v_loop s i = SvAvail c \<or> v_loop s i = SvWaitSlot c \<Longrightarrow> v_done s \<Longrightarrow>
     serve_step cfg s (s\<lparr>v_loop := (v_loop s)(i := SvReject c)\<rparr>)"
| sv_full: "v_loop s i = SvAvail c \<Longrightarrow> \<not> v_done s \<Longrightarrow> \<not> int (v_sem s) < Server_getMaxConns cfg \<Longrightarrow>
     serve_step cfg s (s\<lparr>v_loop := (v_loop s)(i := SvWaitSlot c)\<rparr>)"
| sv_timeout: "v_loop s i = SvWaitSlot c \<Longrightarrow>
     serve_step cfg s (s\<lparr>v_loop := (v_loop s)(i := SvReject c)\<rparr>)"
| sv_reject: "v_loop s i = SvReject c \<Longrightarrow>
     serve_step cfg s (s\<lparr>v_closed := insert c (v_closed s), v_loop := (v_loop s)(i := SvAccept)\<rparr>)"
| sv_spawn: "v_loop s i = SvSpawn c \<Longrightarrow> \<not> (v_wg s = 0 \<and> 0 < v_waiters s) \<Longrightarrow>
     serve_step cfg s (s\<lparr>v_wg := v_wg s + 1, v_gor := (v_gor s)(c := SgDeadline), v_loop := (v_loop s)(i := SvAccept)\<rparr>)"
| sv_spawn_panic: "v_loop s i = SvSpawn c \<Longrightarrow> v_wg s = 0 \<Longrightarrow> 0 < v_waiters s \<Longrightarrow>
     serve_step cfg s (s\<lparr>v_panicked := Some AddWithWaiters\<rparr>)"

section \<open>The goroutine of a connection\<close>

inductive sgor_step :: "bytesutil \<Rightarrow> ServerConfig \<Rightarrow> server_sys \<Rightarrow> server_sys \<Rightarrow> bool"
  for bu :: bytesutil and cfg :: ServerConfig where
  sg_deadline: "v_gor s c = SgDeadline \<Longrightarrow> sgor_step bu cfg s (s\<lparr>v_gor := (v_gor s)(c := SgHandshake)\<rparr>)"
| sg_deadline_err: "v_gor s c = SgDeadline \<Longrightarrow> Server_getHandshakeTimeout cfg \<noteq> 0 \<Longrightarrow>
     sgor_step bu cfg s (s\<lparr>v_gor := (v_gor s)(c := SgSlot)\<rparr>)"
| sg_handshake: "v_gor s c = SgHandshake \<Longrightarrow> sgor_step bu cfg s (s\<lparr>v_gor := (v_gor s)(c := SgClear)\<rparr>)"
| sg_handshake_err: "v_gor s c = SgHandshake \<Longrightarrow> sgor_step bu cfg s (s\<lparr>v_gor := (v_gor s)(c := SgSlot)\<rparr>)"
| sg_clear: "v_gor s c = SgClear \<Longrightarrow> sgor_step bu cfg s (s\<lparr>v_gor := (v_gor s)(c := SgNew)\<rparr>)"
| sg_clear_err: "v_gor s c = SgClear \<Longrightarrow> Server_getHandshakeTimeout cfg \<noteq> 0 \<Longrightarrow>
     sgor_step bu cfg s (s\<lparr>v_gor := (v_gor s)(c := SgSlot)\<rparr>)"
| sg_new: "v_gor s c = SgNew \<Longrightarrow>
     sgor_step bu cfg s (s\<lparr>v_log := (v_log s)(c := v_log s c @ [StateNew]), v_gor := (v_gor s)(c := SgServe)\<rparr>)"
| sg_loops: "v_gor s c = SgServe \<Longrightarrow> loop_step bu (server_conn_config cfg) (v_done s) (v_conn s c) t \<Longrightarrow>
     sgor_step bu cfg s (s\<lparr>v_conn := (v_conn s)(c := t)\<rparr>)"
| sg_call: "v_log s c \<noteq> [] \<Longrightarrow> \<not> panicked (cn (v_conn s c)) \<Longrightarrow>
     call_step bu (server_conn_config cfg) (v_conn s c) t \<Longrightarrow>
     sgor_step bu cfg s (s\<lparr>v_conn := (v_conn s)(c := t)\<rparr>)"
| sg_served: "v_gor s c = SgServe \<Longrightarrow> hp (v_conn s c) = HClosed e \<Longrightarrow>
     sgor_step bu cfg s (s\<lparr>v_gor := (v_gor s)(c := SgReport)\<rparr>)"
| sg_report: "v_gor s c = SgReport \<Longrightarrow>
     sgor_step bu cfg s (s\<lparr>v_log := (v_log s)(c := v_log s c @ [StateClosed]), v_gor := (v_gor s)(c := SgSlot)\<rparr>)"
| sg_slot: "v_gor s c = SgSlot \<Longrightarrow> 0 < v_sem s \<Longrightarrow>
     sgor_step bu cfg s (s\<lparr>v_sem := v_sem s - 1, v_gor := (v_gor s)(c := SgClose)\<rparr>)"
| sg_close: "v_gor s c = SgClose \<Longrightarrow>
     sgor_step bu cfg s (s\<lparr>v_closed := insert c (v_closed s), v_gor := (v_gor s)(c := SgDone)\<rparr>)"
| sg_done: "v_gor s c = SgDone \<Longrightarrow> 0 < v_wg s \<Longrightarrow>
     sgor_step bu cfg s (s\<lparr>v_wg := v_wg s - 1,
       v_gor := (v_gor s)(c := if v_wg s = 1 \<and> 0 < v_waiters s then SgWake (v_waiters s) else SgEnd)\<rparr>)"
| sg_done_panic: "v_gor s c = SgDone \<Longrightarrow> v_wg s \<le> 0 \<Longrightarrow>
     sgor_step bu cfg s (s\<lparr>v_panicked := Some NegativeCounter\<rparr>)"
| sg_wake: "v_gor s c = SgWake w \<Longrightarrow> v_wg s = 0 \<Longrightarrow> v_waiters s = w \<Longrightarrow>
     sgor_step bu cfg s (s\<lparr>v_waiters := 0,
       v_shut := (\<lambda>k. if v_shut s k = ShBlocked then ShWoken else v_shut s k), v_gor := (v_gor s)(c := SgEnd)\<rparr>)"
| sg_wake_panic: "v_gor s c = SgWake w \<Longrightarrow> v_wg s \<noteq> 0 \<or> v_waiters s \<noteq> w \<Longrightarrow>
     sgor_step bu cfg s (s\<lparr>v_panicked := Some StateChanged\<rparr>)"

section \<open>Shutdown\<close>

inductive shutdown_step :: "server_sys \<Rightarrow> server_sys \<Rightarrow> bool" where
  sh_close: "v_shut s k = ShIdle \<Longrightarrow> \<not> v_done s \<Longrightarrow>
     shutdown_step s (s\<lparr>v_done := True, v_shut := (v_shut s)(k := ShCalled)\<rparr>)"
| sh_close_panic: "v_shut s k = ShIdle \<Longrightarrow> v_done s \<Longrightarrow>
     shutdown_step s (s\<lparr>v_panicked := Some CloseOfClosed, v_shut := (v_shut s)(k := ShPanicked)\<rparr>)"
| sh_none: "v_shut s k = ShCalled \<Longrightarrow> v_wg s = 0 \<Longrightarrow>
     shutdown_step s (s\<lparr>v_shut := (v_shut s)(k := ShReturned)\<rparr>)"
| sh_block: "v_shut s k = ShCalled \<Longrightarrow> v_wg s \<noteq> 0 \<Longrightarrow>
     shutdown_step s (s\<lparr>v_waiters := Suc (v_waiters s), v_shut := (v_shut s)(k := ShBlocked)\<rparr>)"
| sh_woken: "v_shut s k = ShWoken \<Longrightarrow> v_wg s = 0 \<Longrightarrow> v_waiters s = 0 \<Longrightarrow>
     shutdown_step s (s\<lparr>v_shut := (v_shut s)(k := ShReturned)\<rparr>)"
| sh_woken_panic: "v_shut s k = ShWoken \<Longrightarrow> v_wg s \<noteq> 0 \<or> v_waiters s \<noteq> 0 \<Longrightarrow>
     shutdown_step s (s\<lparr>v_panicked := Some WaitReused\<rparr>)"

section \<open>Runs\<close>

text \<open>A panic in any goroutine, of the server or of a connection, ends the process.\<close>

definition running :: "server_sys \<Rightarrow> bool" where
  "running s \<longleftrightarrow> v_panicked s = None \<and> (\<forall>c. \<not> panicked (cn (v_conn s c)))"

inductive server_sys_step :: "bytesutil \<Rightarrow> ServerConfig \<Rightarrow> server_sys \<Rightarrow> server_sys \<Rightarrow> bool"
  for bu :: bytesutil and cfg :: ServerConfig where
  by_serve: "running s \<Longrightarrow> serve_step cfg s s' \<Longrightarrow> server_sys_step bu cfg s s'"
| by_gor: "running s \<Longrightarrow> sgor_step bu cfg s s' \<Longrightarrow> server_sys_step bu cfg s s'"
| by_shutdown: "running s \<Longrightarrow> shutdown_step s s' \<Longrightarrow> server_sys_step bu cfg s s'"

interpretation srv: transition_system "\<lambda>s. s = server_sys_init" "server_sys_step bu cfg" for bu cfg .

definition server_sys_reachable :: "bytesutil \<Rightarrow> ServerConfig \<Rightarrow> server_sys \<Rightarrow> bool" where
  "server_sys_reachable bu cfg s \<longleftrightarrow> (server_sys_step bu cfg)\<^sup>*\<^sup>* server_sys_init s"

lemma srv_reach: "srv.reach bu cfg s \<longleftrightarrow> server_sys_reachable bu cfg s"
  by (simp add: srv.reach_def server_sys_reachable_def)

section \<open>Who holds a socket\<close>

fun held :: "serve_pc \<Rightarrow> nat option" where
  "held (SvAvail c) = Some c"
| "held (SvWaitSlot c) = Some c"
| "held (SvReject c) = Some c"
| "held (SvSpawn c) = Some c"
| "held _ = None"

text \<open>The goroutine has closed the socket itself, after \<^verbatim>\<open>client\<close> has returned.\<close>

fun past_close :: "sgor \<Rightarrow> bool" where
  "past_close SgDone = True"
| "past_close (SgWake _) = True"
| "past_close SgEnd = True"
| "past_close _ = False"

text \<open>
  Over the sockets \<open>H\<close> that the loops hold, the goroutines \<open>G\<close>, the number \<open>n\<close> of accepted
  sockets and the sockets \<open>C\<close> closed by \<^verbatim>\<open>Serve\<close> and its goroutines: every accepted socket is held
  by exactly one loop, or has a goroutine, or is closed, and a goroutine has closed its socket
  before it leaves the wait group.
\<close>

definition sockets :: "(nat \<rightharpoonup> nat) \<Rightarrow> (nat \<Rightarrow> sgor) \<Rightarrow> nat \<Rightarrow> nat set \<Rightarrow> bool" where
  "sockets H G n C \<longleftrightarrow>
     (\<forall>i c. H i = Some c \<longrightarrow> c < n \<and> G c = SgNone \<and> c \<notin> C) \<and>
     (\<forall>i j c. H i = Some c \<longrightarrow> H j = Some c \<longrightarrow> i = j) \<and>
     (\<forall>c. G c \<noteq> SgNone \<longrightarrow> c < n \<and> (c \<in> C \<longleftrightarrow> past_close (G c))) \<and>
     (\<forall>c < n. G c = SgNone \<longrightarrow> c \<in> C \<or> (\<exists>i. H i = Some c)) \<and> C \<subseteq> {..<n}"

lemma sockets_accept:
  assumes "sockets H G n C" "H i = None"
  shows "sockets (H(i \<mapsto> n)) G (Suc n) C"
proof -
  have other: "\<exists>j. j \<noteq> i \<and> H j = Some c" if "\<exists>j. H j = Some c" for c using that assms(2) by (metis option.distinct(1))
  have "n \<notin> C" "G n = SgNone" "\<And>j. H j \<noteq> Some n" using assms(1) by (auto simp: sockets_def)
  with assms(1,2) show ?thesis unfolding sockets_def
    by (auto simp: less_Suc_eq split: if_splits) (metis other)
qed

lemma sockets_drop:
  assumes "sockets H G n C" "H i = Some c"
  shows "sockets (H(i := None)) G n (insert c C)"
    and "g \<noteq> SgNone \<Longrightarrow> \<not> past_close g \<Longrightarrow> sockets (H(i := None)) (G(c := g)) n C"
proof -
  have other: "\<exists>j. j \<noteq> i \<and> H j = Some d" if "\<exists>j. H j = Some d" "d \<noteq> c" for d
    using that assms(2) by (metis option.inject)
  have c: "c < n" "G c = SgNone" "c \<notin> C" "\<And>j. H j = Some c \<Longrightarrow> j = i"
    using assms unfolding sockets_def by blast+
  show "sockets (H(i := None)) G n (insert c C)"
    using assms c unfolding sockets_def by (auto split: if_splits) (metis other)
  show "sockets (H(i := None)) (G(c := g)) n C" if "g \<noteq> SgNone" "\<not> past_close g"
    using assms c that unfolding sockets_def by (auto split: if_splits) (metis other)
qed

lemma sockets_gor:
  assumes "sockets H G n C" "G c \<noteq> SgNone" "g \<noteq> SgNone" "past_close g = past_close (G c)"
  shows "sockets H (G(c := g)) n C"
  using assms unfolding sockets_def by auto

lemma sockets_close:
  assumes "sockets H G n C" "G c = SgClose"
  shows "sockets H (G(c := SgDone)) n (insert c C)"
  using assms unfolding sockets_def by auto

definition sockets_inv :: "server_sys \<Rightarrow> bool" where
  "sockets_inv s \<longleftrightarrow> sockets (\<lambda>i. held (v_loop s i)) (v_gor s) (v_next s) (v_closed s)"

lemma held_upd:
  "(\<lambda>j. held ((L(i := p)) j)) = (\<lambda>j. held (L j))(i := held p)"
  "(\<lambda>j. held (if j = i then p else L j)) = (\<lambda>j. held (L j))(i := held p)"
  by (simp_all add: fun_eq_iff)

lemma sockets_frame:
  assumes "sockets_inv s" "v_gor s' = v_gor s" "v_next s' = v_next s" "v_closed s' = v_closed s"
    "\<And>j. held (v_loop s' j) = held (v_loop s j)"
  shows "sockets_inv s'"
  using assms by (simp add: sockets_inv_def)

lemma sockets_inv_serve:
  assumes "serve_step cfg s s'" "sockets_inv s"
  shows "sockets_inv s'"
  using assms(1)
proof cases
  case (sv_accept i)
  then show ?thesis
    using assms(2) sockets_accept [of "\<lambda>i. held (v_loop s i)" "v_gor s" "v_next s" "v_closed s" i]
    by (simp add: sockets_inv_def held_upd)
next
  case (sv_reject i c)
  then show ?thesis
    using assms(2) sockets_drop(1) [of "\<lambda>i. held (v_loop s i)" "v_gor s" "v_next s" "v_closed s" i c]
    by (simp add: sockets_inv_def held_upd)
next
  case (sv_spawn i c)
  then show ?thesis
    using assms(2) sockets_drop(2) [of "\<lambda>i. held (v_loop s i)" "v_gor s" "v_next s" "v_closed s" i c SgDeadline]
    by (simp add: sockets_inv_def held_upd)
qed (auto intro: sockets_frame [OF assms(2)])

lemma sockets_inv_gor: "sgor_step bu cfg s s' \<Longrightarrow> sockets_inv s \<Longrightarrow> sockets_inv s'"
  by (induction rule: sgor_step.induct)
    (simp_all add: sockets_inv_def sockets_gor sockets_close)

lemma sockets_inv_shutdown: "shutdown_step s s' \<Longrightarrow> sockets_inv s \<Longrightarrow> sockets_inv s'"
  by (induction rule: shutdown_step.induct) (simp_all add: sockets_inv_def)

lemma sockets_always: "srv.reach bu cfg s \<Longrightarrow> sockets_inv s"
proof (induction rule: srv.invariant)
  case (step s s')
  then show ?case
    by (auto elim!: server_sys_step.cases intro: sockets_inv_serve sockets_inv_gor sockets_inv_shutdown)
qed (simp add: sockets_inv_def sockets_def server_sys_init_def)

section \<open>What the state handler is told\<close>

fun log_ok :: "sgor \<Rightarrow> ConnState list \<Rightarrow> bool" where
  "log_ok SgServe l = (l = [StateNew])"
| "log_ok SgReport l = (l = [StateNew])"
| "log_ok SgSlot l = (l = [] \<or> l = [StateNew, StateClosed])"
| "log_ok SgClose l = (l = [] \<or> l = [StateNew, StateClosed])"
| "log_ok SgDone l = (l = [] \<or> l = [StateNew, StateClosed])"
| "log_ok (SgWake w) l = (l = [] \<or> l = [StateNew, StateClosed])"
| "log_ok SgEnd l = (l = [] \<or> l = [StateNew, StateClosed])"
| "log_ok _ l = (l = [])"

text \<open>
  Over the goroutine, the log and the state of one connection: the connection is one that the
  machine of \<^verbatim>\<open>conn.go\<close> reaches, and it is reported closed only when it is.
\<close>

definition served_ok :: "bytesutil \<Rightarrow> ServerConfig \<Rightarrow> sgor \<Rightarrow> ConnState list \<Rightarrow> sys \<Rightarrow> bool" where
  "served_ok bu cfg g l t \<longleftrightarrow> conn_reachable bu (server_conn_config cfg) t \<and> log_ok g l \<and>
     (l = [] \<longrightarrow> t = sys_init) \<and>
     (g = SgReport \<or> StateClosed \<in> set l \<longrightarrow> (\<exists>e. hp t = HClosed e))"

definition reports_inv :: "bytesutil \<Rightarrow> ServerConfig \<Rightarrow> server_sys \<Rightarrow> bool" where
  "reports_inv bu cfg s \<longleftrightarrow> (\<forall>c. served_ok bu cfg (v_gor s c) (v_log s c) (v_conn s c))"

lemma reports_log:
  assumes "reports_inv bu cfg s"
  shows "v_gor s c = SgDeadline \<Longrightarrow> v_log s c = []" "v_gor s c = SgHandshake \<Longrightarrow> v_log s c = []"
    "v_gor s c = SgClear \<Longrightarrow> v_log s c = []" "v_gor s c = SgNew \<Longrightarrow> v_log s c = []"
    "v_gor s c = SgServe \<Longrightarrow> v_log s c = [StateNew]" "v_gor s c = SgReport \<Longrightarrow> v_log s c = [StateNew]"
    "v_gor s c = SgSlot \<or> v_gor s c = SgClose \<or> past_close (v_gor s c) \<Longrightarrow> v_log s c = [] \<or> v_log s c = [StateNew, StateClosed]"
proof -
  have "log_ok (v_gor s c) (v_log s c)" using assms by (simp add: reports_inv_def served_ok_def)
  then show "v_gor s c = SgDeadline \<Longrightarrow> v_log s c = []" "v_gor s c = SgHandshake \<Longrightarrow> v_log s c = []"
    "v_gor s c = SgClear \<Longrightarrow> v_log s c = []" "v_gor s c = SgNew \<Longrightarrow> v_log s c = []"
    "v_gor s c = SgServe \<Longrightarrow> v_log s c = [StateNew]" "v_gor s c = SgReport \<Longrightarrow> v_log s c = [StateNew]"
    "v_gor s c = SgSlot \<or> v_gor s c = SgClose \<or> past_close (v_gor s c) \<Longrightarrow> v_log s c = [] \<or> v_log s c = [StateNew, StateClosed]"
    by (auto elim!: past_close.elims(2))
qed

lemma reports_inv_gor:
  assumes "sgor_step bu cfg s s'" "reports_inv bu cfg s"
  shows "reports_inv bu cfg s'"
  using assms(1)
proof cases
  case (sg_loops c t)
  have "conn_reachable bu (server_conn_config cfg) t"
    using assms(2) loop_reachable [OF _ sg_loops(3)] by (simp add: reports_inv_def served_ok_def)
  with assms(2) sg_loops(1,2) reports_log(5) [OF assms(2) sg_loops(2)] show ?thesis
    by (simp add: reports_inv_def served_ok_def)
next
  case (sg_call c t)
  have "conn_reachable bu (server_conn_config cfg) t"
    using assms(2) reach_call [OF _ sg_call(4,3)] by (simp add: reports_inv_def served_ok_def)
  with assms(2) sg_call call_frame [OF sg_call(4)] show ?thesis by (simp add: reports_inv_def served_ok_def)
qed (use assms(2) in \<open>simp_all add: reports_inv_def served_ok_def reports_log [OF assms(2)]\<close>)

lemma reports_always: "srv.reach bu cfg s \<Longrightarrow> reports_inv bu cfg s"
proof (induction rule: srv.invariant)
  case (initial s)
  then show ?case
    by (simp add: reports_inv_def served_ok_def server_sys_init_def conn_reachable.start)
next
  case (step s s')
  from \<open>server_sys_step bu cfg s s'\<close> show ?case
  proof cases
    case by_serve
    have "v_log s c = []" if "v_loop s i = SvSpawn c" for i c
    proof -
      have "v_gor s c = SgNone"
        using sockets_always [OF step.hyps(1)] that unfolding sockets_inv_def sockets_def
        by (metis held.simps(4))
      then show ?thesis using step.IH by (metis log_ok.simps(8) reports_inv_def served_ok_def)
    qed
    with by_serve(2) step.IH show ?thesis
      by (auto elim!: serve_step.cases simp: reports_inv_def served_ok_def split: if_splits)
  next
    case by_gor
    with step.IH show ?thesis by (blast intro: reports_inv_gor)
  next
    case by_shutdown
    from by_shutdown(2) step.IH show ?thesis by (auto elim!: shutdown_step.cases simp: reports_inv_def)
  qed
qed

section \<open>The pool\<close>

definition in_client :: "sgor \<Rightarrow> bool" where
  "in_client g \<longleftrightarrow> g \<in> {SgDeadline, SgHandshake, SgClear, SgNew, SgServe, SgReport, SgSlot}"

definition pool_of :: "server_sys \<Rightarrow> Server" where
  "pool_of s = \<lparr>s_sem = v_sem s, s_wg = v_wg s,
     s_starting = {c. \<exists>i. v_loop s i = SvSpawn c}, s_active = {c. in_client (v_gor s c)},
     s_closing = {c. v_gor s c = SgClose \<or> v_gor s c = SgDone}\<rparr>"

lemma pool_serve:
  assumes "serve_step cfg s s'" "sockets_inv s"
  shows "pool_of s' = pool_of s \<or> server_step cfg (pool_of s) (pool_of s')"
proof -
  let ?H = "\<lambda>i. held (v_loop s i)"
  have one: "j = i" if "?H i = Some c" "?H j = Some c" for i j c
    using assms(2) that unfolding sockets_inv_def sockets_def by blast
  have none: "v_gor s c = SgNone" if "?H i = Some c" for i c
    using assms(2) that unfolding sockets_inv_def sockets_def by blast
  have same: "{c. \<exists>j. ((v_loop s)(i := p)) j = SvSpawn c} = {c. \<exists>j. v_loop s j = SvSpawn c}"
    if "\<And>c. v_loop s i \<noteq> SvSpawn c" "\<And>c. p \<noteq> SvSpawn c" for i p
    using that by (auto simp: fun_upd_apply) metis
  from assms(1) show ?thesis
  proof cases
    case (sv_slot i c)
    then have h: "?H i = Some c" by auto
    have "v_loop s j \<noteq> SvSpawn c" for j using one [OF h, of j] sv_slot(2) by auto
    then have fresh: "c \<notin> known (pool_of s)"
      using none [OF h] by (simp add: known_def pool_of_def in_client_def)
    have "{d. \<exists>j. v_loop s' j = SvSpawn d} = insert c {d. \<exists>j. v_loop s j = SvSpawn d}"
      using sv_slot(1,2) by auto (metis serve_pc.distinct)+
    then have eq: "pool_of s' = (pool_of s)\<lparr>s_sem := Suc (s_sem (pool_of s)), s_starting := insert c (s_starting (pool_of s))\<rparr>"
      using sv_slot(1) by (simp add: pool_of_def)
    show ?thesis unfolding eq
      by (intro disjI2 server_step.accept [OF _ fresh]) (use sv_slot(3) in \<open>simp_all add: pool_of_def\<close>)
  next
    case (sv_spawn i c)
    then have h: "?H i = Some c" by simp
    have "{d. \<exists>j. v_loop s' j = SvSpawn d} = {d. \<exists>j. v_loop s j = SvSpawn d} - {c}"
      using sv_spawn(1,2) one [OF h] by auto (metis held.simps(4) serve_pc.inject(4))+
    moreover have "{d. in_client (v_gor s' d)} = insert c {d. in_client (v_gor s d)}"
      "{d. v_gor s' d = SgClose \<or> v_gor s' d = SgDone} = {d. v_gor s d = SgClose \<or> v_gor s d = SgDone}"
      using sv_spawn(1) none [OF h] by (auto simp: in_client_def)
    ultimately have eq: "pool_of s' = (pool_of s)\<lparr>s_wg := s_wg (pool_of s) + 1,
        s_starting := s_starting (pool_of s) - {c}, s_active := insert c (s_active (pool_of s))\<rparr>"
      using sv_spawn(1) by (simp add: pool_of_def)
    show ?thesis unfolding eq
      by (intro disjI2 server_step.spawn) (use sv_spawn(2) in \<open>auto simp: pool_of_def\<close>)
  next
    case (sv_reject i c)
    then show ?thesis using same [of i SvAccept] by (simp add: pool_of_def)
  next
    case (sv_shut i c)
    then have "{d. \<exists>j. ((v_loop s)(i := SvReject c)) j = SvSpawn d} = {d. \<exists>j. v_loop s j = SvSpawn d}"
      by (intro same) auto
    with sv_shut(1) show ?thesis by (simp add: pool_of_def)
  qed (auto simp: pool_of_def same simp del: fun_upd_apply)
qed

lemma pool_gor:
  assumes "sgor_step bu cfg s s'"
  shows "pool_of s' = pool_of s \<or> server_step cfg (pool_of s) (pool_of s')"
  using assms
proof cases
  case (sg_slot c)
  then have eq: "pool_of s' = (pool_of s)\<lparr>s_sem := s_sem (pool_of s) - 1, s_active := s_active (pool_of s) - {c},
      s_closing := insert c (s_closing (pool_of s))\<rparr>"
    by (auto simp: pool_of_def in_client_def)
  have "c \<in> s_active (pool_of s)" using sg_slot(2) by (simp add: pool_of_def in_client_def)
  then show ?thesis unfolding eq by (intro disjI2 server_step.served)
next
  case (sg_done c)
  then have eq: "pool_of s' = (pool_of s)\<lparr>s_wg := s_wg (pool_of s) - 1, s_closing := s_closing (pool_of s) - {c}\<rparr>"
    by (auto simp: pool_of_def in_client_def)
  have "c \<in> s_closing (pool_of s)" using sg_done(2) by (simp add: pool_of_def)
  then show ?thesis unfolding eq by (intro disjI2 server_step.ended)
qed (auto simp: pool_of_def in_client_def)

lemma pool_shutdown: "shutdown_step s s' \<Longrightarrow> pool_of s' = pool_of s"
  by (induction rule: shutdown_step.induct) (simp_all add: pool_of_def)

lemma pool_step:
  assumes "server_sys_step bu cfg s s'" "sockets_inv s"
  shows "pool_of s' = pool_of s \<or> server_step cfg (pool_of s) (pool_of s')"
  using assms(1) by cases (use pool_serve [OF _ assms(2)] pool_gor pool_shutdown in blast)+

interpretation sp: simulation "\<lambda>s. s = server_sys_init" "server_sys_step bu cfg" "\<lambda>s. s = Server_init" "server_step cfg" pool_of
  for bu cfg
proof
  show "pool_of s = Server_init" if "s = server_sys_init" for s
    by (simp add: that pool_of_def server_sys_init_def Server_init_def in_client_def)
  show "(server_step cfg)\<^sup>*\<^sup>* (pool_of s) (pool_of s')" if "srv.reach bu cfg s" "server_sys_step bu cfg s s'" for s s'
    using pool_step [OF that(2) sockets_always [OF that(1)]] by auto
qed

text \<open>The goroutines that the wait group counts.\<close>

definition in_group :: "sgor \<Rightarrow> bool" where
  "in_group g \<longleftrightarrow> in_client g \<or> g = SgClose \<or> g = SgDone"

lemma group_counts:
  assumes "srv.reach bu cfg s"
  shows "v_wg s = int (card {c. in_group (v_gor s c)})" "finite {c. in_group (v_gor s c)}"
proof -
  have "s_active (pool_of s) \<union> s_closing (pool_of s) = {c. in_group (v_gor s c)}"
    by (auto simp: pool_of_def in_group_def)
  with server_bounded(3,4) [OF sp.abs_reach [OF assms]]
  have "s_wg (pool_of s) = int (card {c. in_group (v_gor s c)})" "finite {c. in_group (v_gor s c)}" by simp_all
  then show "v_wg s = int (card {c. in_group (v_gor s c)})" "finite {c. in_group (v_gor s c)}"
    by (simp_all add: pool_of_def)
qed

lemma group_empty:
  assumes "srv.reach bu cfg s"
  shows "v_wg s = 0 \<longleftrightarrow> (\<forall>c. \<not> in_group (v_gor s c))" "in_group (v_gor s c) \<Longrightarrow> 0 < v_wg s"
proof -
  note g = group_counts [OF assms]
  show "v_wg s = 0 \<longleftrightarrow> (\<forall>c. \<not> in_group (v_gor s c))" using g by simp
  show "in_group (v_gor s c) \<Longrightarrow> 0 < v_wg s" using g by (auto simp: card_gt_0_iff)
qed

section \<open>Shutting down\<close>

text \<open>
  Over the calls of \<^verbatim>\<open>Shutdown\<close>, as long as nothing has panicked: at most one has begun, it is the
  waiter if there is one, and a goroutine that is about to wake it found the counter at 0.
\<close>

definition calls :: "(nat \<Rightarrow> shut_pc) \<Rightarrow> bool \<Rightarrow> nat \<Rightarrow> bool" where
  "calls H d w \<longleftrightarrow> (\<forall>k l. H k \<noteq> ShIdle \<longrightarrow> H l \<noteq> ShIdle \<longrightarrow> k = l) \<and>
     (d \<longleftrightarrow> (\<exists>k. H k \<noteq> ShIdle)) \<and> w = (if \<exists>k. H k = ShBlocked then 1 else 0)"

definition calls_inv :: "server_sys \<Rightarrow> bool" where
  "calls_inv s \<longleftrightarrow> calls (v_shut s) (v_done s) (v_waiters s)"

definition wake_inv :: "server_sys \<Rightarrow> bool" where
  "wake_inv s \<longleftrightarrow> (\<forall>c w. v_gor s c = SgWake w \<longrightarrow> v_wg s = 0 \<and> v_waiters s = w \<and> 0 < w) \<and>
     (\<forall>c d v w. v_gor s c = SgWake v \<longrightarrow> v_gor s d = SgWake w \<longrightarrow> c = d) \<and>
     (v_wg s = 0 \<and> 0 < v_waiters s \<longrightarrow> (\<exists>c w. v_gor s c = SgWake w))"

lemma calls_only: "calls H d w \<Longrightarrow> H k \<noteq> ShIdle \<Longrightarrow> H l \<noteq> ShIdle \<Longrightarrow> l = k"
  by (simp add: calls_def)

lemma calls_waiters:
  assumes "calls H d w" "H k \<noteq> ShIdle"
  shows "w = (if H k = ShBlocked then 1 else 0)"
proof -
  have "(\<exists>l. H l = ShBlocked) \<longleftrightarrow> H k = ShBlocked" using calls_only [OF assms] by (metis shut_pc.distinct(3))
  then show ?thesis using assms(1) by (simp add: calls_def)
qed

lemma calls_move:
  assumes "calls H d w" "H k \<noteq> ShIdle" "p \<noteq> ShIdle"
  shows "calls (H(k := p)) d (if p = ShBlocked then 1 else 0)"
proof -
  have only: "H l = ShIdle" if "l \<noteq> k" for l using calls_only [OF assms(1,2)] that by blast
  have d using assms(1,2) by (auto simp: calls_def)
  with only assms(3) show ?thesis by (auto simp: calls_def)
qed

lemma calls_serve: "serve_step cfg s s' \<Longrightarrow> calls_inv s \<Longrightarrow> calls_inv s'"
  by (induction rule: serve_step.induct) (simp_all add: calls_inv_def)

lemma calls_gor: "sgor_step bu cfg s s' \<Longrightarrow> calls_inv s \<Longrightarrow> calls_inv s'"
  by (induction rule: sgor_step.induct) (simp_all add: calls_inv_def, auto simp: calls_def)

lemma calls_shutdown: "shutdown_step s s' \<Longrightarrow> v_panicked s' = None \<Longrightarrow> calls_inv s \<Longrightarrow> calls_inv s'"
proof (induction rule: shutdown_step.induct)
  case (sh_close s k)
  then show ?case by (auto simp: calls_inv_def calls_def)
next
  case (sh_none s k)
  then show ?case
    using calls_move [of "v_shut s" "v_done s" "v_waiters s" k ShReturned] calls_waiters [of "v_shut s" "v_done s" "v_waiters s" k]
    by (simp add: calls_inv_def)
next
  case (sh_block s k)
  then show ?case
    using calls_move [of "v_shut s" "v_done s" "v_waiters s" k ShBlocked] calls_waiters [of "v_shut s" "v_done s" "v_waiters s" k]
    by (simp add: calls_inv_def)
next
  case (sh_woken s k)
  then show ?case using calls_move [of "v_shut s" "v_done s" "v_waiters s" k ShReturned] by (simp add: calls_inv_def)
qed simp_all

lemma wake_serve:
  assumes "serve_step cfg s s'" "wake_inv s" "sockets_inv s" "0 \<le> v_wg s"
  shows "wake_inv s'"
  using assms(1)
proof cases
  case (sv_spawn i c)
  have "held (v_loop s i) = Some c" by (simp add: sv_spawn)
  then have "v_gor s c = SgNone" using assms(3) unfolding sockets_inv_def sockets_def by blast
  moreover have "v_gor s d \<noteq> SgWake w" for d w using sv_spawn(3) assms(2) unfolding wake_inv_def by blast
  ultimately show ?thesis using sv_spawn assms(4) by (auto simp: wake_inv_def)
qed (use assms(2) in \<open>simp_all add: wake_inv_def\<close>)

text \<open>A goroutine that moves while no wake-up begins or ends.\<close>

lemma wake_same:
  assumes "wake_inv s" "v_wg s' = v_wg s" "v_waiters s' = v_waiters s"
    "\<And>d w. v_gor s' d = SgWake w \<longleftrightarrow> v_gor s d = SgWake w"
  shows "wake_inv s'"
  using assms(1) unfolding wake_inv_def assms(2-4) .

lemma wake_gor:
  assumes "sgor_step bu cfg s s'" "wake_inv s"
  shows "wake_inv s'"
  using assms(1)
proof cases
  case (sg_done c)
  then have "v_gor s d \<noteq> SgWake w" for d w using assms(2) by (auto simp: wake_inv_def)
  with sg_done show ?thesis by (auto simp: wake_inv_def)
next
  case (sg_wake c w)
  then have "v_gor s d = SgWake v \<Longrightarrow> d = c" for d v using assms(2) unfolding wake_inv_def by metis
  then have "v_gor s' d \<noteq> SgWake v" for d v using sg_wake(1) by auto
  then show ?thesis using sg_wake(1) by (simp add: wake_inv_def)
qed (use wake_same [OF assms(2)] in simp_all)

lemma wake_shutdown: "shutdown_step s s' \<Longrightarrow> wake_inv s \<Longrightarrow> wake_inv s'"
  by (induction rule: shutdown_step.induct) (auto simp: wake_inv_def)

lemma shut_always:
  "srv.reach bu cfg s \<Longrightarrow> wake_inv s \<and> (v_panicked s = None \<longrightarrow> calls_inv s)"
proof (induction rule: srv.invariant)
  case (initial s)
  then show ?case by (simp add: wake_inv_def calls_inv_def calls_def server_sys_init_def)
next
  case (step s s')
  have wg: "0 \<le> v_wg s" by (simp add: group_counts(1) [OF step.hyps(1)])
  from \<open>server_sys_step bu cfg s s'\<close> show ?case
  proof cases
    case by_serve
    then show ?thesis
      using step.IH wake_serve [OF _ _ sockets_always [OF step.hyps(1)] wg] calls_serve by (auto simp: running_def)
  next
    case by_gor
    then show ?thesis using step.IH wake_gor calls_gor by (auto simp: running_def)
  next
    case by_shutdown
    then show ?thesis using step.IH wake_shutdown calls_shutdown by (auto simp: running_def)
  qed
qed

text \<open>The three ways in which a server can panic, with what leads to each.\<close>

fun panic_ok :: "server_sys \<Rightarrow> server_panic \<Rightarrow> bool" where
  "panic_ok s CloseOfClosed = (\<exists>k l. k \<noteq> l \<and> v_shut s k \<noteq> ShIdle \<and> v_shut s l = ShPanicked)"
| "panic_ok s AddWithWaiters = (\<exists>i c k. v_loop s i = SvSpawn c \<and> v_shut s k = ShBlocked \<and> v_wg s = 0)"
| "panic_ok s WaitReused = (\<exists>c k. in_group (v_gor s c) \<and> v_shut s k = ShWoken)"
| "panic_ok s NegativeCounter = False"
| "panic_ok s StateChanged = False"

lemma panic_step:
  assumes "server_sys_step bu cfg s s'" "srv.reach bu cfg s" "v_panicked s' = Some p"
  shows "panic_ok s' p"
proof -
  have none: "v_panicked s = None" using assms(1) by cases (simp_all add: running_def)
  then have calls: "calls_inv s" and wake: "wake_inv s" using shut_always [OF assms(2)] by auto
  from assms(1) show ?thesis
  proof cases
    case by_serve
    from by_serve(2) show ?thesis
    proof cases
      case (sv_spawn_panic i c)
      then have "\<exists>k. v_shut s k = ShBlocked" using calls by (auto simp: calls_inv_def calls_def split: if_splits)
      with sv_spawn_panic assms(3) show ?thesis by auto
    qed (use assms(3) none in simp_all)
  next
    case by_gor
    from by_gor(2) show ?thesis
    proof cases
      case (sg_done_panic c)
      then have "in_group (v_gor s c)" by (simp add: in_group_def)
      with group_empty(2) [OF assms(2)] sg_done_panic show ?thesis by fastforce
    next
      case (sg_wake_panic c w)
      with wake show ?thesis by (auto simp: wake_inv_def)
    qed (use assms(3) none in simp_all)
  next
    case by_shutdown
    from by_shutdown(2) show ?thesis
    proof cases
      case (sh_close_panic k)
      then obtain l where "v_shut s l \<noteq> ShIdle" using calls by (auto simp: calls_inv_def calls_def)
      with sh_close_panic assms(3) show ?thesis by auto
    next
      case (sh_woken_panic k)
      have "v_waiters s = 0"
        using calls sh_woken_panic(2) calls_waiters [of "v_shut s" _ _ k] by (simp add: calls_inv_def)
      with sh_woken_panic group_empty(1) [OF assms(2)] have "\<exists>c. in_group (v_gor s c)" by blast
      with sh_woken_panic assms(3) show ?thesis by auto
    qed (use assms(3) none in simp_all)
  qed
qed

lemma panics_always: "srv.reach bu cfg s \<Longrightarrow> v_panicked s = Some p \<Longrightarrow> panic_ok s p"
proof (induction rule: srv.invariant)
  case (step s s')
  then show ?case by (blast intro: panic_step)
qed (simp add: server_sys_init_def)

text \<open>When \<^verbatim>\<open>Shutdown\<close> returns, no goroutine of the server is left.\<close>

lemma shutdown_returns:
  assumes "srv.reach bu cfg s" "server_sys_step bu cfg s s'" "v_shut s k \<noteq> ShReturned" "v_shut s' k = ShReturned"
  shows "v_gor s c = SgNone \<or> v_gor s c = SgEnd"
proof -
  have none: "v_panicked s = None" using assms(2) by cases (simp_all add: running_def)
  then have calls: "calls_inv s" and wake: "wake_inv s" using shut_always [OF assms(1)] by auto
  have "v_wg s = 0 \<and> v_waiters s = 0"
    using assms(2)
  proof cases
    case by_serve
    from by_serve(2) assms(3,4) show ?thesis by cases simp_all
  next
    case by_gor
    from by_gor(2) assms(3,4) show ?thesis by cases (simp_all split: if_splits)
  next
    case by_shutdown
    from by_shutdown(2) show ?thesis
    proof cases
      case (sh_none l)
      then have "v_shut s l = ShCalled" "l = k" using assms(3,4) by (auto split: if_splits)
      then have "v_waiters s = 0" using calls calls_waiters [of "v_shut s" _ _ l] by (simp add: calls_inv_def)
      with sh_none show ?thesis by simp
    qed (use assms(3,4) in \<open>auto split: if_splits\<close>)
  qed
  then have "\<not> in_group (v_gor s c)" "v_gor s c \<noteq> SgWake w" for w
    using group_empty(1) [OF assms(1)] wake by (auto simp: wake_inv_def)
  then show ?thesis by (cases "v_gor s c") (auto simp: in_group_def in_client_def)
qed

text \<open>A call that waits is woken: somebody is left who will do it.\<close>

lemma shutdown_woken:
  assumes "srv.reach bu cfg s" "v_panicked s = None" "v_shut s k = ShBlocked"
  shows "\<exists>c. in_group (v_gor s c) \<or> (\<exists>w. v_gor s c = SgWake w)"
proof (cases "v_wg s = 0")
  case True
  moreover have "0 < v_waiters s" using shut_always [OF assms(1)] assms(2,3) by (auto simp: calls_inv_def calls_def)
  ultimately show ?thesis using shut_always [OF assms(1)] by (auto simp: wake_inv_def)
next
  case False
  then show ?thesis using group_empty(1) [OF assms(1)] by blast
qed

section \<open>Sockets\<close>

text \<open>
  A socket is closed by the \<^verbatim>\<open>Serve\<close> that rejects it, by its goroutine at the end, or by \<^verbatim>\<open>Handle\<close>
  of the connection that runs on it.
\<close>

definition socket_closed :: "server_sys \<Rightarrow> nat \<Rightarrow> bool" where
  "socket_closed s c \<longleftrightarrow> c \<in> v_closed s \<or> sock_shut (v_conn s c)"

lemma held_once:
  assumes "srv.reach bu cfg s" "held (v_loop s i) = Some c"
  shows "v_gor s c = SgNone" "c \<notin> v_closed s" "held (v_loop s j) = Some c \<Longrightarrow> j = i"
  using sockets_always [OF assms(1)] assms(2) unfolding sockets_inv_def sockets_def by blast+

section \<open>Properties\<close>

text \<open>
  (C8) A server implements a bounded pool: every step of its loops, goroutines and shutdowns, in
  any interleaving, is a step of the pool or none. So it never serves more than \<^verbatim>\<open>MaxConns\<close>
  connections at once; the tokens of its semaphore are exactly the connections admitted and not
  yet finished, so that a slot is never lost; and the counter of the wait group is exactly the
  number of goroutines that have not yet called \<^verbatim>\<open>Done\<close>. \<^verbatim>\<open>Shutdown\<close> returns only when no
  goroutine is left, and as long as it is blocked there is one that still has to wake it.
\<close>

theorem server_refines_pool:
  assumes "server_sys_reachable bu cfg s"
  shows "(server_sys_step bu cfg s s' \<longrightarrow> pool_of s' = pool_of s \<or> server_step cfg (pool_of s) (pool_of s')) \<and>
    (server_step cfg)\<^sup>*\<^sup>* Server_init (pool_of s) \<and>
    int (card {c. in_client (v_gor s c)}) \<le> Server_getMaxConns cfg \<and>
    v_sem s = card {c. \<exists>i. v_loop s i = SvSpawn c} + card {c. in_client (v_gor s c)} \<and>
    v_wg s = int (card {c. in_group (v_gor s c)}) \<and>
    (server_sys_step bu cfg s s' \<and> v_shut s k \<noteq> ShReturned \<and> v_shut s' k = ShReturned \<longrightarrow>
       v_gor s c = SgNone \<or> v_gor s c = SgEnd) \<and>
    (v_panicked s = None \<and> v_shut s k = ShBlocked \<longrightarrow>
       (\<exists>d. in_group (v_gor s d) \<or> (\<exists>w. v_gor s d = SgWake w)))"
proof -
  have r: "srv.reach bu cfg s" using assms by (simp add: srv_reach)
  then have p: "pool.reach cfg (pool_of s)" by (rule sp.abs_reach)
  have "(server_step cfg)\<^sup>*\<^sup>* Server_init (pool_of s)" using p by (simp add: pool.reach_def)
  moreover have "int (card {c. in_client (v_gor s c)}) \<le> Server_getMaxConns cfg"
    "v_sem s = card {c. \<exists>i. v_loop s i = SvSpawn c} + card {c. in_client (v_gor s c)}"
    using server_bounded(1,2) [OF p] by (simp_all add: pool_of_def)
  ultimately show ?thesis
    using pool_step [of bu cfg s s'] sockets_always [OF r] group_counts(1) [OF r] shutdown_returns [OF r]
      shutdown_woken [OF r] by blast
qed

text \<open>
  (C13) No socket is lost, and none is closed too early: every socket a server has accepted is in
  the hands of exactly one \<^verbatim>\<open>Serve\<close>, and open, or has a goroutine, or was rejected and is closed. A
  goroutine leaves the wait group only after it has closed its socket; before, only \<^verbatim>\<open>Handle\<close> closes
  it, and only once the write loop of the connection has returned, which, if it returned no error,
  has written every message that was accepted. The state handler hears of a connection at most
  twice, that it is new and then that it is closed, the second only once the socket is closed and
  the connection closed for good; and every connection runs as the machine of \<^verbatim>\<open>conn.go\<close> on its own.
\<close>

theorem server_sockets:
  assumes "bytesutil_spec bu" and "server_sys_reachable bu cfg s" and "c < v_next s"
  shows "(v_gor s c = SgNone \<longrightarrow> (socket_closed s c \<longleftrightarrow> (\<forall>i. held (v_loop s i) \<noteq> Some c))) \<and>
    (v_gor s c \<noteq> SgNone \<longrightarrow> (\<forall>i. held (v_loop s i) \<noteq> Some c) \<and>
       (socket_closed s c \<longleftrightarrow> sock_shut (v_conn s c) \<or> past_close (v_gor s c))) \<and>
    (held (v_loop s i) = Some c \<and> held (v_loop s j) = Some c \<longrightarrow> i = j) \<and>
    (sock_shut (v_conn s c) \<longrightarrow> StateNew \<in> set (v_log s c) \<and>
       (\<exists>e. wl (v_conn s c) = WDone e \<and> (e = None \<longrightarrow> sent (v_conn s c) = acc (v_conn s c)))) \<and>
    (StateClosed \<in> set (v_log s c) \<longrightarrow> sock_shut (v_conn s c)) \<and>
    (v_gor s c = SgEnd \<longrightarrow> v_log s c \<in> {[], [StateNew, StateClosed]}) \<and>
    reported (v_log s c) (v_conn s c) \<and> conn_reachable bu (server_conn_config cfg) (v_conn s c)"
proof -
  let ?t = "v_conn s c"
  have r: "srv.reach bu cfg s" using assms(2) by (simp add: srv_reach)
  have ok: "served_ok bu cfg (v_gor s c) (v_log s c) ?t"
    using reports_always [OF r] by (simp add: reports_inv_def)
  then have run: "conn_reachable bu (server_conn_config cfg) ?t" by (simp add: served_ok_def)
  have ctl: "control_inv ?t" using reachable_inv [OF assms(1) run] by (simp add: conn_inv_def)
  have rep: "reported (v_log s c) ?t" using ok by (cases "v_gor s c") (auto simp: served_ok_def reported_def)
  have fresh: "?t = sys_init" if "v_log s c = []" using ok that by (simp add: served_ok_def)
  have new: "StateNew \<in> set (v_log s c)" if "sock_shut ?t"
    using rep fresh that by (auto simp: reported_def sys_init_def)
  have none: "\<not> sock_shut ?t" if "v_gor s c = SgNone"
    using ok that by (auto simp: served_ok_def sys_init_def)
  have drained: "\<exists>e. wl ?t = WDone e \<and> (e = None \<longrightarrow> sent ?t = acc ?t)" if "sock_shut ?t"
    using ctl that writes_in_order [OF assms(1) run] by (fastforce simp: control_inv_def)
  have closed: "sock_shut ?t" if "StateClosed \<in> set (v_log s c)"
    using rep ctl that by (auto simp: reported_def control_inv_def)
  have log: "v_log s c \<in> {[], [StateNew, StateClosed]}" if "v_gor s c = SgEnd"
    using ok that by (simp add: served_ok_def)
  have c: "v_gor s c \<noteq> SgNone \<Longrightarrow> c \<in> v_closed s \<longleftrightarrow> past_close (v_gor s c)"
    "v_gor s c = SgNone \<Longrightarrow> c \<in> v_closed s \<or> (\<exists>i. held (v_loop s i) = Some c)"
    using sockets_always [OF r] assms(3) unfolding sockets_inv_def sockets_def by blast+
  show ?thesis
    using c held_once [OF r] new none drained closed log rep run unfolding socket_closed_def by metis
qed

section \<open>Runs\<close>

text \<open>
  The first call of \<^verbatim>\<open>Serve\<close> at \<open>p\<close> and the first call of \<^verbatim>\<open>Shutdown\<close> at \<open>sh\<close>, with \<open>n\<close> sockets
  accepted, the closed ones \<open>cl\<close>, and the goroutines of the first two at \<open>g\<close> and \<open>h\<close>.
\<close>

definition srv_at :: "serve_pc \<Rightarrow> shut_pc \<Rightarrow> nat \<Rightarrow> nat \<Rightarrow> int \<Rightarrow> nat \<Rightarrow> sgor \<Rightarrow> sgor \<Rightarrow> nat set \<Rightarrow>
    ConnState list \<Rightarrow> server_sys" where
  "srv_at p sh n sem w wt g h cl l = server_sys_init\<lparr>v_loop := (\<lambda>_. SvIdle)(0 := p),
     v_shut := (\<lambda>_. ShIdle)(0 := sh), v_done := (sh \<noteq> ShIdle), v_sem := sem, v_wg := w, v_waiters := wt,
     v_next := n, v_gor := (\<lambda>_. SgNone)(0 := g, 1 := h), v_closed := cl, v_log := (\<lambda>_. [])(0 := l)\<rparr>"

lemmas srv_at_defs = srv_at_def server_sys_init_def fun_eq_iff
lemmas srv_at_simps = srv_at_def server_sys_init_def fun_upd_twist

lemma running_at: "running (srv_at p sh n sem w wt g h cl l)"
  by (simp add: running_def srv_at_defs sys_init_def Conn_init_def)

lemma run_serve: "srv.reach bu cfg (srv_at p sh n sem w wt g h cl l) \<Longrightarrow>
    serve_step cfg (srv_at p sh n sem w wt g h cl l) s' \<Longrightarrow> srv.reach bu cfg s'"
  by (rule srv.reach_step [OF _ by_serve [OF running_at]])

lemma run_sgor: "srv.reach bu cfg (srv_at p sh n sem w wt g h cl l) \<Longrightarrow>
    sgor_step bu cfg (srv_at p sh n sem w wt g h cl l) s' \<Longrightarrow> srv.reach bu cfg s'"
  by (rule srv.reach_step [OF _ by_gor [OF running_at]])

lemma run_shutdown: "srv.reach bu cfg (srv_at p sh n sem w wt g h cl l) \<Longrightarrow>
    shutdown_step (srv_at p sh n sem w wt g h cl l) s' \<Longrightarrow> srv.reach bu cfg s'"
  by (rule srv.reach_step [OF _ by_shutdown [OF running_at]])

lemma slots: "int 0 < Server_getMaxConns cfg"
  by (simp add: Server_getMaxConns_def DefaultMaxServerConns_def)

lemma run_called: "srv.reach bu cfg (srv_at SvAccept ShIdle 0 0 0 0 SgNone SgNone {} [])"
proof -
  have "server_sys_init = srv_at SvIdle ShIdle 0 0 0 0 SgNone SgNone {} []"
    by (simp add: srv_at_def server_sys_init_def fun_upd_idem)
  then have "srv.reach bu cfg (srv_at SvIdle ShIdle 0 0 0 0 SgNone SgNone {} [])" by (metis srv.reach_initial)
  from run_serve [OF this sv_call [of _ 0]] show ?thesis by (simp add: srv_at_def server_sys_init_def)
qed

text \<open>Accepting and admitting the next socket.\<close>

lemma run_admit:
  assumes "srv.reach bu cfg (srv_at SvAccept sh n 0 w wt g h cl l)"
  shows "srv.reach bu cfg (srv_at (SvSpawn n) sh (Suc n) 1 w wt g h cl l)"
proof -
  have "srv.reach bu cfg (srv_at (SvAvail n) sh (Suc n) 0 w wt g h cl l)"
    using run_serve [OF assms sv_accept [of _ 0]] by (simp add: srv_at_def server_sys_init_def)
  from run_serve [OF this sv_slot [of _ 0 n]] slots [of cfg] show ?thesis by (simp add: srv_at_def server_sys_init_def)
qed

text \<open>A server that was shut down before its first connection.\<close>

lemma late_serves: "srv.reach bu cfg (srv_at SvAccept ShReturned 1 1 1 0 SgServe SgNone {} [StateNew])"
proof -
  have "srv.reach bu cfg (srv_at SvAccept ShCalled 0 0 0 0 SgNone SgNone {} [])"
    using run_shutdown [OF run_called sh_close [of _ 0]] by (simp add: srv_at_def server_sys_init_def)
  from run_shutdown [OF this sh_none [of _ 0]]
  have "srv.reach bu cfg (srv_at SvAccept ShReturned 0 0 0 0 SgNone SgNone {} [])"
    by (simp add: srv_at_def server_sys_init_def)
  from run_admit [OF this] have "srv.reach bu cfg (srv_at (SvSpawn 0) ShReturned 1 1 0 0 SgNone SgNone {} [])" by simp
  from run_serve [OF this sv_spawn [of _ 0 0]]
  have "srv.reach bu cfg (srv_at SvAccept ShReturned 1 1 1 0 SgDeadline SgNone {} [])"
    by (simp add: srv_at_simps)
  from run_sgor [OF this sg_deadline [of _ 0]]
  have "srv.reach bu cfg (srv_at SvAccept ShReturned 1 1 1 0 SgHandshake SgNone {} [])"
    by (simp add: srv_at_simps)
  from run_sgor [OF this sg_handshake [of _ 0]]
  have "srv.reach bu cfg (srv_at SvAccept ShReturned 1 1 1 0 SgClear SgNone {} [])"
    by (simp add: srv_at_simps)
  from run_sgor [OF this sg_clear [of _ 0]]
  have "srv.reach bu cfg (srv_at SvAccept ShReturned 1 1 1 0 SgNew SgNone {} [])"
    by (simp add: srv_at_simps)
  from run_sgor [OF this sg_new [of _ 0]] show ?thesis by (simp add: srv_at_simps)
qed

lemma late_reachable: "server_sys_reachable bu cfg (srv_at SvAccept ShReturned 1 1 1 0 SgServe SgNone {} [StateNew])"
  using late_serves by (simp add: srv_reach)

text \<open>
  (C35) A server that has been shut down goes on: after \<^verbatim>\<open>Shutdown\<close> has returned, a \<^verbatim>\<open>Serve\<close> whose
  listener is still open can accept a connection, admit it, since a free slot and the closed
  channel are both ready, shake hands and report it as new. So the return of \<^verbatim>\<open>Shutdown\<close> does not
  mean that nothing is being served.
\<close>

theorem server_serves_after_shutdown:
  "\<exists>s. server_sys_reachable bu cfg s \<and> v_shut s 0 = ShReturned \<and> v_gor s 0 = SgServe \<and>
    v_log s 0 = [StateNew] \<and> 0 < v_wg s"
  using late_reachable [of bu cfg] by (intro exI) (auto simp: srv_at_def)

text \<open>
  The first connection fails its handshake and its goroutine is about to leave the wait group,
  for which \<^verbatim>\<open>Shutdown\<close> waits.
\<close>

lemma race_blocked: "srv.reach bu cfg (srv_at SvAccept ShBlocked 1 0 1 1 SgDone SgNone {0} [])"
proof -
  have "srv.reach bu cfg (srv_at (SvSpawn 0) ShIdle 1 1 0 0 SgNone SgNone {} [])" using run_admit [OF run_called] by simp
  from run_serve [OF this sv_spawn [of _ 0 0]]
  have "srv.reach bu cfg (srv_at SvAccept ShIdle 1 1 1 0 SgDeadline SgNone {} [])"
    by (simp add: srv_at_simps)
  from run_sgor [OF this sg_deadline [of _ 0]]
  have "srv.reach bu cfg (srv_at SvAccept ShIdle 1 1 1 0 SgHandshake SgNone {} [])"
    by (simp add: srv_at_simps)
  from run_sgor [OF this sg_handshake_err [of _ 0]]
  have "srv.reach bu cfg (srv_at SvAccept ShIdle 1 1 1 0 SgSlot SgNone {} [])"
    by (simp add: srv_at_simps)
  from run_sgor [OF this sg_slot [of _ 0]]
  have "srv.reach bu cfg (srv_at SvAccept ShIdle 1 0 1 0 SgClose SgNone {} [])"
    by (simp add: srv_at_simps)
  from run_sgor [OF this sg_close [of _ 0]]
  have "srv.reach bu cfg (srv_at SvAccept ShIdle 1 0 1 0 SgDone SgNone {0} [])"
    by (simp add: srv_at_simps)
  from run_shutdown [OF this sh_close [of _ 0]]
  have "srv.reach bu cfg (srv_at SvAccept ShCalled 1 0 1 0 SgDone SgNone {0} [])"
    by (simp add: srv_at_def server_sys_init_def)
  from run_shutdown [OF this sh_block [of _ 0]] show ?thesis by (simp add: srv_at_def server_sys_init_def)
qed

text \<open>A second connection is admitted; the first leaves, and \<^verbatim>\<open>Add\<close> runs before the waiter does.\<close>

definition race_server :: server_sys where
  "race_server = (srv_at SvAccept ShWoken 2 1 1 0 SgEnd SgDeadline {0} [])\<lparr>v_panicked := Some WaitReused\<rparr>"

lemma race_panics: "srv.reach bu cfg race_server"
proof -
  have "srv.reach bu cfg (srv_at (SvSpawn 1) ShBlocked 2 1 1 1 SgDone SgNone {0} [])"
    using run_admit [OF race_blocked] by (simp add: numeral_2_eq_2)
  from run_sgor [OF this sg_done [of _ 0]]
  have "srv.reach bu cfg (srv_at (SvSpawn 1) ShBlocked 2 1 0 1 (SgWake 1) SgNone {0} [])"
    by (simp add: srv_at_simps)
  moreover let ?a = "srv_at (SvSpawn 1) ShBlocked 2 1 0 1 (SgWake 1) SgNone {0} []"
  have eq: "srv_at (SvSpawn 1) ShWoken 2 1 0 0 SgEnd SgNone {0} [] = ?a\<lparr>v_waiters := 0,
      v_shut := (\<lambda>k. if v_shut ?a k = ShBlocked then ShWoken else v_shut ?a k), v_gor := (v_gor ?a)(0 := SgEnd)\<rparr>"
    by (simp add: srv_at_defs)
  have "sgor_step bu cfg ?a (srv_at (SvSpawn 1) ShWoken 2 1 0 0 SgEnd SgNone {0} [])"
    unfolding eq by (rule sg_wake) (simp_all add: srv_at_def)
  ultimately have "srv.reach bu cfg (srv_at (SvSpawn 1) ShWoken 2 1 0 0 SgEnd SgNone {0} [])" by (rule run_sgor)
  from run_serve [OF this sv_spawn [of _ 0 1]]
  have "srv.reach bu cfg (srv_at SvAccept ShWoken 2 1 1 0 SgEnd SgDeadline {0} [])"
    by (simp add: srv_at_simps)
  from run_shutdown [OF this sh_woken_panic [of _ 0]] show ?thesis
    by (simp add: race_server_def srv_at_def server_sys_init_def)
qed

text \<open>
  (C33) Where a server can panic: only by a second call of \<^verbatim>\<open>Shutdown\<close>, which closes the closed
  channel, or by a \<^verbatim>\<open>Serve\<close> that still admits a connection while \<^verbatim>\<open>Shutdown\<close> waits: its \<^verbatim>\<open>Add\<close>
  finds the waiter at a counter of 0, or the waiter wakes up and finds the new goroutine in the
  group. The counter never becomes negative. The last panic needs a single call of \<^verbatim>\<open>Shutdown\<close>.
  Panics inside of a connection are those of its own machine and are not counted here.
\<close>

theorem server_panics_only:
  assumes "server_sys_reachable bu cfg s" and "v_panicked s = Some p"
  shows "p = CloseOfClosed \<and> (\<exists>k l. k \<noteq> l \<and> v_shut s k \<noteq> ShIdle \<and> v_shut s l = ShPanicked) \<or>
    p = AddWithWaiters \<and> (\<exists>i c k. v_loop s i = SvSpawn c \<and> v_shut s k = ShBlocked \<and> v_wg s = 0) \<or>
    p = WaitReused \<and> (\<exists>c k. in_group (v_gor s c) \<and> v_shut s k = ShWoken)"
proof -
  have "panic_ok s p" using panics_always assms by (simp add: srv_reach)
  then show ?thesis by (cases p) simp_all
qed

section \<open>Witnesses\<close>

theorem server_refines_pool_witness:
  "let s = srv_at SvAccept ShBlocked 1 0 1 1 SgDone SgNone {0} [] in
     (server_step example_server)\<^sup>*\<^sup>* Server_init (pool_of s) \<and> v_shut s 0 = ShBlocked \<and>
     (\<exists>d. in_group (v_gor s d) \<or> (\<exists>w. v_gor s d = SgWake w))"
proof -
  let ?s = "srv_at SvAccept ShBlocked 1 0 1 1 SgDone SgNone {0} []"
  have r: "server_sys_reachable (bytesutil_model 3) example_server ?s" using race_blocked by (simp add: srv_reach)
  have "v_shut ?s 0 = ShBlocked" "v_panicked ?s = None" by (simp_all add: srv_at_def server_sys_init_def)
  with server_refines_pool [OF r, of ?s 0] show ?thesis unfolding Let_def by blast
qed

text \<open>A connection that is being served runs on its own inside of its server.\<close>

lemma server_conn_run:
  assumes "(own_step bu (server_conn_config cfg))\<^sup>*\<^sup>* (v_conn s c) t" and "srv.reach bu cfg s"
    and "v_gor s c = SgServe" "v_log s c \<noteq> []" "v_panicked s = None"
    and "\<And>d. d \<noteq> c \<Longrightarrow> \<not> panicked (cn (v_conn s d))"
  shows "srv.reach bu cfg (s\<lparr>v_conn := (v_conn s)(c := t)\<rparr>)"
  using assms(1)
proof (induction rule: rtranclp_induct)
  case base
  then show ?case using assms(2) by simp
next
  case (step t u)
  let ?s = "\<lambda>t. s\<lparr>v_conn := (v_conn s)(c := t)\<rparr>"
  note own = own_step_owner(1) [OF step(2)] own_step_owner(2) [OF step(2), of "v_done s"]
  have "running (?s t)" using own(1) assms(5,6) by (simp add: running_def)
  moreover have "sgor_step bu cfg (?s t) (?s u)"
    using sg_loops [of "?s t" c bu cfg u] sg_call [of "?s t" c bu cfg u] own assms(3,4) by auto
  ultimately show ?case using srv.reach_step [OF step(3)] by (blast intro: by_gor)
qed

text \<open>The first connection has sent one message, gone down and been reported as closed.\<close>

definition srv_closed :: "sgor \<Rightarrow> ConnState list \<Rightarrow> server_sys" where
  "srv_closed g l = (srv_at SvAccept ShReturned 1 1 1 0 g SgNone {} l)\<lparr>v_conn := (\<lambda>_. sys_init)(0 := run_sent_closed)\<rparr>"

lemma srv_closed_reach: "srv.reach (bytesutil_model 3) cfg (srv_closed SgSlot [StateNew, StateClosed])"
proof -
  let ?bu = "bytesutil_model 3" and ?s = "srv_at SvAccept ShReturned 1 1 1 0 SgServe SgNone {} [StateNew]"
  have ok: "running (srv_closed g l)" for g l
    by (simp add: running_def srv_closed_def srv_at_defs run_closed_fields) (simp add: sys_init_def Conn_init_def)
  have "srv.reach ?bu cfg (?s\<lparr>v_conn := (v_conn ?s)(0 := run_sent_closed)\<rparr>)"
    by (rule server_conn_run [OF _ late_serves])
      (use run_closed_steps in \<open>simp_all add: srv_at_def server_sys_init_def, simp add: sys_init_def Conn_init_def\<close>)
  then have "srv.reach ?bu cfg (srv_closed SgServe [StateNew])"
    by (simp add: srv_closed_def srv_at_def server_sys_init_def)
  moreover have "sgor_step ?bu cfg (srv_closed SgServe [StateNew]) (srv_closed SgReport [StateNew])"
    using sg_served [of "srv_closed SgServe [StateNew]" 0 _ ?bu cfg]
    by (simp add: srv_closed_def srv_at_simps run_closed_fields)
  ultimately have "srv.reach ?bu cfg (srv_closed SgReport [StateNew])" using ok by (blast intro: srv.reach_step by_gor)
  moreover have "sgor_step ?bu cfg (srv_closed SgReport [StateNew]) (srv_closed SgSlot [StateNew, StateClosed])"
    using sg_report [of "srv_closed SgReport [StateNew]" 0 ?bu cfg] by (simp add: srv_closed_def srv_at_simps)
  ultimately show ?thesis using ok by (blast intro: srv.reach_step by_gor)
qed

theorem server_sockets_witness:
  "let s = srv_closed SgSlot [StateNew, StateClosed] in
     v_gor s 0 = SgSlot \<and> socket_closed s 0 \<and> sock_shut (v_conn s 0) \<and>
     (\<exists>e. wl (v_conn s 0) = WDone e \<and> (e = None \<longrightarrow> sent (v_conn s 0) = acc (v_conn s 0)))"
proof -
  let ?s = "srv_closed SgSlot [StateNew, StateClosed]"
  have r: "server_sys_reachable (bytesutil_model 3) example_server ?s" using srv_closed_reach by (simp add: srv_reach)
  have f: "0 < v_next ?s" "v_gor ?s 0 = SgSlot" "StateClosed \<in> set (v_log ?s 0)" by (simp_all add: srv_closed_def srv_at_def)
  have "v_gor ?s 0 \<noteq> SgNone" by (simp add: f(2))
  with server_sockets [OF bm.bytesutil_spec_axioms r f(1), where i = 0 and j = 0] f(2,3)
  show ?thesis unfolding Let_def by blast
qed

theorem server_panics_only_witness:
  "v_panicked race_server = Some WaitReused \<and> {k. v_shut race_server k \<noteq> ShIdle} = {0} \<and>
   (\<exists>c k. in_group (v_gor race_server c) \<and> v_shut race_server k = ShWoken)"
proof -
  have r: "server_sys_reachable (bytesutil_model 3) example_server race_server" using race_panics by (simp add: srv_reach)
  have p: "v_panicked race_server = Some WaitReused" by (simp add: race_server_def)
  from server_panics_only [OF r p] show ?thesis using p by (auto simp: race_server_def srv_at_def)
qed

end
