(* ===== verification/Rpc_Packets.thy ===== *)
theory Rpc_Packets
  imports Bytesutil "HOL-Library.AList"
begin

text \<open>
  The packet codecs of \<^verbatim>\<open>streaming_rpc\<close>: \<^verbatim>\<open>datapacket.go\<close>,
  \<^verbatim>\<open>servicerequestpacket.go\<close> and \<^verbatim>\<open>serviceresponsepacket.go\<close>. A Go map of headers is
  \<open>None\<close> when nil and otherwise the list of its entries in the order in which the run time
  iterates over them, with distinct keys; stores go through \<open>AList.update\<close>. Slicing and
  indexing out of range panics, and the model says so. The locale \<open>packet_codec\<close> states what
  a sender and a receiver expect of a codec; every codec interprets it.
\<close>

type_synonym headers = "(gostring \<times> gostring) list option"

record DataPacket =
  dp_StreamID :: u32
  dp_Data :: bytes

record ServiceRequestPacket =
  req_StreamId :: u32
  req_Services :: "gostring list"
  req_Headers :: headers

record ServiceResponsePacket =
  resp_StreamId :: u32
  resp_Handled :: bool
  resp_Headers :: headers

section \<open>Data packets\<close>

definition DataPacket_AppendTo :: "bytesutil \<Rightarrow> DataPacket \<Rightarrow> bytes \<Rightarrow> bytes" where
  "DataPacket_AppendTo bu p dst =
     (let dst = AppendUint32BE bu dst (dp_StreamID p);
          dst = AppendUint16BE bu dst (len16 (dp_Data p))
      in dst @ dp_Data p)"

definition UnmarshalDataPacket :: "bytesutil \<Rightarrow> bytes \<Rightarrow> DataPacket result" where
  "UnmarshalDataPacket bu buf =
     (if length buf < 4 + 2 then Err ErrUnexpectedEOF
      else
        (let sid = Uint32BE bu (take 4 buf); buf = drop 4 buf;
             sz = Uint16BE bu (take 2 buf); buf = drop 2 buf in
         if len16 buf < sz then Err ErrUnexpectedEOF
         else if length buf < unat sz then Panic ''slice bounds out of range''
         else Ok \<lparr>dp_StreamID = sid, dp_Data = take (unat sz) buf\<rparr>))"

section \<open>Strings and headers inside a packet\<close>

text \<open>The loop that appends each service with its one-byte length.\<close>

fun append_services :: "gostring list \<Rightarrow> bytes \<Rightarrow> bytes" where
  "append_services [] dst = dst"
| "append_services (service # ss) dst =
     append_services ss (dst @ [len8 service] @ service)"

text \<open>The loop that reads \<open>n\<close> services.\<close>

fun parse_services :: "nat \<Rightarrow> bytes \<Rightarrow> (gostring list \<times> bytes) result" where
  "parse_services 0 buf = Ok ([], buf)"
| "parse_services (Suc n) buf =
     (case buf of
        [] \<Rightarrow> Err ErrUnexpectedEOF
      | sz # buf \<Rightarrow>
          if length buf < unat sz then Err ErrUnexpectedEOF
          else case parse_services n (drop (unat sz) buf) of
                 Ok (ss, rest) \<Rightarrow> Ok (take (unat sz) buf # ss, rest)
               | Err e \<Rightarrow> Err e
               | Panic m \<Rightarrow> Panic m)"

fun append_headers :: "bytesutil \<Rightarrow> (gostring \<times> gostring) list \<Rightarrow> bytes \<Rightarrow> bytes" where
  "append_headers bu [] dst = dst"
| "append_headers bu ((name, value) # hs) dst =
     append_headers bu hs
       (AppendUint16BE bu (dst @ [len8 name] @ name) (len16 value) @ value)"

definition append_header_map :: "bytesutil \<Rightarrow> headers \<Rightarrow> bytes \<Rightarrow> bytes" where
  "append_header_map bu h dst =
     (case h of
        Some hs \<Rightarrow> append_headers bu hs (AppendUint16BE bu dst (len16 hs))
      | None \<Rightarrow> AppendUint16BE bu dst 0)"

text \<open>One round of the loop that reads the headers: a name, a value and the rest.\<close>

definition parse_header :: "bytesutil \<Rightarrow> bytes \<Rightarrow> (gostring \<times> gostring \<times> bytes) result" where
  "parse_header bu buf =
     (case buf of
        [] \<Rightarrow> Err ErrUnexpectedEOF
      | nameSize # buf \<Rightarrow>
          if length buf < unat nameSize then Err ErrUnexpectedEOF
          else
            (let name = take (unat nameSize) buf; buf = drop (unat nameSize) buf in
             if length buf < 2 then Err ErrUnexpectedEOF
             else
               (let valueSize = Uint16BE bu (take 2 buf); buf = drop 2 buf in
                if length buf < unat valueSize then Err ErrUnexpectedEOF
                else Ok (name, take (unat valueSize) buf, drop (unat valueSize) buf))))"

text \<open>The loop that reads \<open>n\<close> headers into the map \<open>m\<close>.\<close>

fun parse_headers ::
  "bytesutil \<Rightarrow> nat \<Rightarrow> bytes \<Rightarrow> (gostring \<times> gostring) list \<Rightarrow> (gostring \<times> gostring) list result"
where
  "parse_headers bu 0 buf m = Ok m"
| "parse_headers bu (Suc n) buf m =
     (case parse_header bu buf of
        Ok (name, value, buf) \<Rightarrow> parse_headers bu n buf (AList.update name value m)
      | Err e \<Rightarrow> Err e
      | Panic s \<Rightarrow> Panic s)"

definition parse_header_map :: "bytesutil \<Rightarrow> bytes \<Rightarrow> headers result" where
  "parse_header_map bu buf =
     (if length buf < 2 then Err ErrUnexpectedEOF
      else
        (let sz = Uint16BE bu (take 2 buf); buf = drop 2 buf in
         case parse_headers bu (unat sz) buf [] of
           Ok m \<Rightarrow> Ok (Some m)
         | Err e \<Rightarrow> Err e
         | Panic s \<Rightarrow> Panic s))"

section \<open>Service requests\<close>

definition ServiceRequestPacket_AppendTo ::
  "bytesutil \<Rightarrow> ServiceRequestPacket \<Rightarrow> bytes \<Rightarrow> bytes" where
  "ServiceRequestPacket_AppendTo bu p dst =
     (let dst = AppendUint32BE bu dst (req_StreamId p);
          dst = dst @ [len8 (req_Services p)];
          dst = append_services (req_Services p) dst
      in append_header_map bu (req_Headers p) dst)"

text \<open>The first read after the stream id indexes \<^verbatim>\<open>buf[0]\<close> with no length check.\<close>

definition UnmarshalServiceRequestPacket ::
  "bytesutil \<Rightarrow> bytes \<Rightarrow> ServiceRequestPacket result" where
  "UnmarshalServiceRequestPacket bu buf =
     (if length buf < 4 then Err ErrUnexpectedEOF
      else
        (let sid = Uint32BE bu (take 4 buf); buf = drop 4 buf in
         case buf of
           [] \<Rightarrow> Panic ''index out of range [0] with length 0''
         | sz # buf \<Rightarrow>
             (case parse_services (unat sz) buf of
                Err e \<Rightarrow> Err e
              | Panic s \<Rightarrow> Panic s
              | Ok (services, buf) \<Rightarrow>
                  (case parse_header_map bu buf of
                     Err e \<Rightarrow> Err e
                   | Panic s \<Rightarrow> Panic s
                   | Ok hs \<Rightarrow>
                       Ok \<lparr>req_StreamId = sid, req_Services = services, req_Headers = hs\<rparr>))))"

section \<open>Service responses\<close>

definition ServiceResponsePacket_AppendTo ::
  "bytesutil \<Rightarrow> ServiceResponsePacket \<Rightarrow> bytes \<Rightarrow> bytes" where
  "ServiceResponsePacket_AppendTo bu p dst =
     (let dst = AppendUint32BE bu dst (resp_StreamId p);
          dst = dst @ [if resp_Handled p then 1 else 0]
      in append_header_map bu (resp_Headers p) dst)"

definition UnmarshalServiceResponsePacket ::
  "bytesutil \<Rightarrow> bytes \<Rightarrow> ServiceResponsePacket result" where
  "UnmarshalServiceResponsePacket bu buf =
     (if length buf < 5 then Err ErrUnexpectedEOF
      else
        (let sid = Uint32BE bu (take 4 buf); buf = drop 4 buf in
         case buf of
           [] \<Rightarrow> Panic ''index out of range [0] with length 0''
         | b0 # buf \<Rightarrow>
             (case parse_header_map bu buf of
                Err e \<Rightarrow> Err e
              | Panic s \<Rightarrow> Panic s
              | Ok hs \<Rightarrow> Ok \<lparr>resp_StreamId = sid, resp_Handled = (b0 = 1), resp_Headers = hs\<rparr>)))"

section \<open>What fits on the wire\<close>

definition services_fit :: "gostring list \<Rightarrow> bool" where
  "services_fit ss \<longleftrightarrow> length ss < 256 \<and> (\<forall>s \<in> set ss. length s < 256)"

definition headers_fit :: "headers \<Rightarrow> bool" where
  "headers_fit h \<longleftrightarrow>
     (case h of None \<Rightarrow> True
      | Some hs \<Rightarrow> length hs < 65536 \<and> distinct (map fst hs) \<and>
          (\<forall>(n, v) \<in> set hs. length n < 256 \<and> length v < 65536))"

definition normal_headers :: "headers \<Rightarrow> headers" where
  "normal_headers h = Some (case h of None \<Rightarrow> [] | Some hs \<Rightarrow> hs)"

section \<open>Lemmas on the loops\<close>

lemma AList_update_fresh: "k \<notin> fst ` set m \<Longrightarrow> AList.update k v m = m @ [(k, v)]"
  by (induction m) auto

lemma append_services_eq:
  "append_services ss dst = dst @ concat (map (\<lambda>s. len8 s # s) ss)"
  by (induction ss arbitrary: dst) auto

lemma parse_append_services:
  "\<forall>s \<in> set ss. length s < 256 \<Longrightarrow>
     parse_services (length ss) (concat (map (\<lambda>s. len8 s # s) ss) @ rest) = Ok (ss, rest)"
  by (induction ss) (auto simp: unat_len8)

lemma parse_services_no_panic: "\<not> is_panic (parse_services n buf)"
  by (induction n buf rule: parse_services.induct)
    (auto split: list.splits result.splits)

lemma parse_header_no_panic: "parse_header bu buf \<noteq> Panic s"
  by (simp add: parse_header_def Let_def split: list.split)

lemma parse_headers_no_panic: "\<not> is_panic (parse_headers bu n buf m)"
  by (induction n arbitrary: buf m) (auto simp: parse_header_no_panic split: result.splits)

lemma parse_header_map_no_panic: "\<not> is_panic (parse_header_map bu buf)"
  using parse_headers_no_panic
  by (auto simp: parse_header_map_def Let_def split: result.splits) (metis is_panic_simps(3))

text \<open>The bytes of one header.\<close>

definition header_bytes :: "gostring \<times> gostring \<Rightarrow> bytes" where
  "header_bytes = (\<lambda>(n, v). len8 n # n @ be_put16 (len16 v) @ v)"

context bytesutil_spec
begin

lemma append_headers_eq: "append_headers bu hs dst = dst @ concat (map header_bytes hs)"
  by (induction hs arbitrary: dst) (auto simp: AppendUint16BE header_bytes_def)

lemma parse_one_header:
  "length n < 256 \<Longrightarrow> length v < 65536 \<Longrightarrow>
     parse_header bu (header_bytes (n, v) @ rest) = Ok (n, v, rest)"
  by (simp add: parse_header_def header_bytes_def unat_len8 unat_len16 Let_def)

lemma parse_append_headers:
  assumes "\<forall>(n, v) \<in> set hs. length n < 256 \<and> length v < 65536"
    and "distinct (map fst (m @ hs))"
  shows "parse_headers bu (length hs) (concat (map header_bytes hs)) m = Ok (m @ hs)"
  using assms
proof (induction hs arbitrary: m)
  case Nil
  then show ?case by simp
next
  case (Cons h hs)
  obtain n v where h: "h = (n, v)" by (cases h)
  have "AList.update n v m = m @ [(n, v)]"
    using Cons.prems(2) by (simp add: h AList_update_fresh)
  with Cons show ?case by (simp add: h parse_one_header)
qed

lemma append_header_map_eq:
  "append_header_map bu h dst =
     dst @ (case h of None \<Rightarrow> be_put16 0
            | Some hs \<Rightarrow> be_put16 (len16 hs) @ concat (map header_bytes hs))"
  by (simp add: append_header_map_def AppendUint16BE append_headers_eq split: option.split)

lemma parse_append_header_map:
  assumes "headers_fit h"
  shows "parse_header_map bu (append_header_map bu h []) = Ok (normal_headers h)"
proof (cases h)
  case None
  then show ?thesis
    by (simp add: append_header_map_eq parse_header_map_def normal_headers_def)
next
  case (Some hs)
  with assms have "length hs < 65536"
    and "parse_headers bu (length hs) (concat (map header_bytes hs)) [] = Ok hs"
    using parse_append_headers [of hs "[]"] by (auto simp: headers_fit_def)
  with Some show ?thesis
    by (simp add: append_header_map_eq parse_header_map_def normal_headers_def unat_len16)
qed

lemma UnmarshalDataPacket_parts:
  "UnmarshalDataPacket bu (be_put32 sid @ be_put16 n @ xs) =
     (if len16 xs < n then Err ErrUnexpectedEOF
      else if length xs < unat n then Panic ''slice bounds out of range''
      else Ok \<lparr>dp_StreamID = sid, dp_Data = take (unat n) xs\<rparr>)"
  by (simp add: UnmarshalDataPacket_def Let_def)

lemma UnmarshalServiceRequestPacket_parts:
  "UnmarshalServiceRequestPacket bu (be_put32 sid @ n # xs) =
     (case parse_services (unat n) xs of
        Err e \<Rightarrow> Err e
      | Panic s \<Rightarrow> Panic s
      | Ok (ss, rest) \<Rightarrow>
          (case parse_header_map bu rest of
             Err e \<Rightarrow> Err e
           | Panic s \<Rightarrow> Panic s
           | Ok hs \<Rightarrow> Ok \<lparr>req_StreamId = sid, req_Services = ss, req_Headers = hs\<rparr>))"
  by (simp add: UnmarshalServiceRequestPacket_def Let_def)

lemma UnmarshalServiceResponsePacket_parts:
  "UnmarshalServiceResponsePacket bu (be_put32 sid @ b # xs) =
     (case parse_header_map bu xs of
        Err e \<Rightarrow> Err e
      | Panic s \<Rightarrow> Panic s
      | Ok hs \<Rightarrow> Ok \<lparr>resp_StreamId = sid, resp_Handled = (b = 1), resp_Headers = hs\<rparr>)"
  by (simp add: UnmarshalServiceResponsePacket_def Let_def)

lemma DataPacket_AppendTo_eq:
  "DataPacket_AppendTo bu p dst =
     dst @ be_put32 (dp_StreamID p) @ be_put16 (len16 (dp_Data p)) @ dp_Data p"
  by (simp add: DataPacket_AppendTo_def AppendUint32BE AppendUint16BE)

lemma ServiceRequestPacket_AppendTo_eq:
  "ServiceRequestPacket_AppendTo bu p dst =
     dst @ be_put32 (req_StreamId p) @ len8 (req_Services p) #
       concat (map (\<lambda>s. len8 s # s) (req_Services p)) @ append_header_map bu (req_Headers p) []"
  by (simp add: ServiceRequestPacket_AppendTo_def Let_def AppendUint32BE append_services_eq
      append_header_map_eq)

lemma ServiceResponsePacket_AppendTo_eq:
  "ServiceResponsePacket_AppendTo bu p dst =
     dst @ be_put32 (resp_StreamId p) @ (if resp_Handled p then 1 else 0) #
       append_header_map bu (resp_Headers p) []"
  by (simp add: ServiceResponsePacket_AppendTo_def Let_def AppendUint32BE append_header_map_eq)

end

section \<open>The contract of a codec\<close>

locale packet_codec =
  fixes append_to :: "'p \<Rightarrow> bytes \<Rightarrow> bytes"
    and unmarshal :: "bytes \<Rightarrow> 'p result"
    and fits :: "'p \<Rightarrow> bool"
    and normal :: "'p \<Rightarrow> 'p"
  assumes appends: "append_to p dst = dst @ append_to p []"
    and decode: "fits p \<Longrightarrow> unmarshal (append_to p []) = Ok (normal p)"
begin

text \<open>A receiver that strips the bytes put in front of the packet decodes it.\<close>

lemma tagged: "fits p \<Longrightarrow> unmarshal (drop (length dst) (append_to p dst)) = Ok (normal p)"
  using decode by (subst appends) simp

lemma injective:
  assumes "fits p" and "fits q" and "append_to p dst = append_to q dst"
  shows "normal p = normal q"
proof -
  from assms(3) have "append_to p [] = append_to q []"
    using appends [of p dst] appends [of q dst] by simp
  with decode [OF assms(1)] decode [OF assms(2)] show ?thesis by simp
qed

end

sublocale bytesutil_spec \<subseteq> data: packet_codec
  "DataPacket_AppendTo bu" "UnmarshalDataPacket bu" "\<lambda>p. length (dp_Data p) < 65536" "\<lambda>p. p"
  by unfold_locales
    (simp_all add: DataPacket_AppendTo_eq UnmarshalDataPacket_parts unat_len16)

sublocale bytesutil_spec \<subseteq> sreq: packet_codec
  "ServiceRequestPacket_AppendTo bu" "UnmarshalServiceRequestPacket bu"
  "\<lambda>p. services_fit (req_Services p) \<and> headers_fit (req_Headers p)"
  "\<lambda>p. p\<lparr>req_Headers := normal_headers (req_Headers p)\<rparr>"
  by unfold_locales
    (simp_all add: ServiceRequestPacket_AppendTo_eq UnmarshalServiceRequestPacket_parts
      services_fit_def unat_len8 parse_append_services parse_append_header_map)

sublocale bytesutil_spec \<subseteq> sresp: packet_codec
  "ServiceResponsePacket_AppendTo bu" "UnmarshalServiceResponsePacket bu"
  "\<lambda>p. headers_fit (resp_Headers p)"
  "\<lambda>p. p\<lparr>resp_Headers := normal_headers (resp_Headers p)\<rparr>"
  by unfold_locales
    (simp_all add: ServiceResponsePacket_AppendTo_eq UnmarshalServiceResponsePacket_parts
      parse_append_header_map)

text \<open>The laws of the three codecs under names that outlive the locale.\<close>

context bytesutil_spec
begin

lemmas request_tagged = sreq.tagged
  and response_tagged = sresp.tagged
  and data_tagged = data.tagged and data_injective = data.injective

end

section \<open>Properties\<close>

text \<open>
  (C22) Service requests round trip: a request whose services and headers fit their length
  fields, encoded behind any bytes \<open>dst\<close> (the opcode), decodes to the same stream id,
  the same services in the same order and the same headers; a nil header map arrives as an
  empty one.
\<close>

theorem service_request_roundtrip:
  assumes "bytesutil_spec bu" and "services_fit (req_Services p)" and "headers_fit (req_Headers p)"
  shows "UnmarshalServiceRequestPacket bu
      (drop (length dst) (ServiceRequestPacket_AppendTo bu p dst)) =
    Ok (p\<lparr>req_Headers := normal_headers (req_Headers p)\<rparr>)"
  using bytesutil_spec.request_tagged [OF assms(1)] assms(2,3) by blast

definition example_request :: ServiceRequestPacket where
  "example_request = \<lparr>req_StreamId = 3, req_Services = [[97], [98, 99]],
     req_Headers = Some [([107], [118, 118]), ([], [])]\<rparr>"

theorem service_request_roundtrip_witness:
  "UnmarshalServiceRequestPacket (bytesutil_model 0)
      (drop (length [1 :: byte]) (ServiceRequestPacket_AppendTo (bytesutil_model 0) example_request [1])) =
    Ok (example_request\<lparr>req_Headers := normal_headers (req_Headers example_request)\<rparr>)"
  by (rule service_request_roundtrip [OF bm.bytesutil_spec_axioms])
    (simp_all add: example_request_def services_fit_def headers_fit_def)

text \<open>
  Service responses round trip in the same way, the flag that says whether the service
  was handled included.
\<close>

lemma service_response_roundtrip:
  assumes "bytesutil_spec bu" and "headers_fit (resp_Headers p)"
  shows "UnmarshalServiceResponsePacket bu
      (drop (length dst) (ServiceResponsePacket_AppendTo bu p dst)) =
    Ok (p\<lparr>resp_Headers := normal_headers (resp_Headers p)\<rparr>)"
  using bytesutil_spec.response_tagged [OF assms(1)] assms(2) by blast

text \<open>
  (C26) What a data packet of any size becomes on the other side: the length field holds the
  length modulo \<open>2 ^ 16\<close>, so the payload comes back cut to that many bytes; it comes back
  whole exactly when it is shorter than 65536 bytes.
\<close>

theorem data_packet_decoded:
  assumes "bytesutil_spec bu"
  shows "UnmarshalDataPacket bu (DataPacket_AppendTo bu p []) =
      Ok (p\<lparr>dp_Data := take (length (dp_Data p) mod 65536) (dp_Data p)\<rparr>) \<and>
    (UnmarshalDataPacket bu (DataPacket_AppendTo bu p []) = Ok p \<longleftrightarrow> length (dp_Data p) < 65536)"
proof -
  let ?n = "length (dp_Data p)"
  have "unat (len16 (dp_Data p)) = ?n mod 65536"
    by (simp add: unat_of_nat)
  then have "UnmarshalDataPacket bu (DataPacket_AppendTo bu p []) =
      Ok (p\<lparr>dp_Data := take (?n mod 65536) (dp_Data p)\<rparr>)"
    by (simp add: bytesutil_spec.DataPacket_AppendTo_eq [OF assms]
        bytesutil_spec.UnmarshalDataPacket_parts [OF assms] not_less)
  moreover have "take (?n mod 65536) (dp_Data p) = dp_Data p \<longleftrightarrow> ?n < 65536"
    using mod_less_divisor [of 65536 ?n] by (auto simp: take_all_iff)
  ultimately show ?thesis by (cases p) simp
qed

theorem data_packet_decoded_witness:
  "UnmarshalDataPacket (bytesutil_model 0) (DataPacket_AppendTo (bytesutil_model 0)
     \<lparr>dp_StreamID = 5, dp_Data = [1, 2, 3]\<rparr> []) = Ok \<lparr>dp_StreamID = 5, dp_Data = [1, 2, 3]\<rparr>"
  using data_packet_decoded [OF bm.bytesutil_spec_axioms, of 0 "\<lparr>dp_StreamID = 5, dp_Data = [1, 2, 3]\<rparr>"]
  by simp

text \<open>
  Exactly which inputs the data decoder accepts. The check compares the announced size
  with the remaining length cut to 16 bits, so the decoder never slices out of range, and it
  rejects a complete packet that is followed by so many bytes that the cut length is smaller
  than the announced size.
\<close>

lemma UnmarshalDataPacket_accepts:
  "UnmarshalDataPacket bu buf =
     (if 6 \<le> length buf \<and> unat (Uint16BE bu (take 2 (drop 4 buf))) \<le> (length buf - 6) mod 65536
      then Ok \<lparr>dp_StreamID = Uint32BE bu (take 4 buf),
              dp_Data = take (unat (Uint16BE bu (take 2 (drop 4 buf)))) (drop 6 buf)\<rparr>
      else Err ErrUnexpectedEOF)"
proof -
  have "(len16 (drop 6 buf) < Uint16BE bu (take 2 (drop 4 buf))) \<longleftrightarrow>
      (length buf - 6) mod 65536 < unat (Uint16BE bu (take 2 (drop 4 buf)))"
    by (simp add: word_less_nat_alt unat_of_nat)
  moreover have "(length buf - 6) mod 65536 \<le> length buf - 6" by simp
  ultimately show ?thesis
    by (auto simp: UnmarshalDataPacket_def Let_def not_less dest: order_trans)
qed

text \<open>
  The request decoder panics on exactly one input length: after the stream id it reads
  the number of services without checking that a byte is left, so a four-byte packet is an
  index out of range. On every other input it returns a packet or an error.
\<close>

lemma UnmarshalServiceRequestPacket_panics:
  "is_panic (UnmarshalServiceRequestPacket bu buf) \<longleftrightarrow> length buf = 4"
proof (cases "length buf \<le> 4")
  case True
  then show ?thesis by (auto simp: UnmarshalServiceRequestPacket_def Let_def)
next
  case False
  then obtain n xs where d: "drop 4 buf = n # xs" by (cases "drop 4 buf") auto
  show ?thesis
    using False parse_services_no_panic [of "unat n" xs] parse_header_map_no_panic [of bu]
    by (auto simp: UnmarshalServiceRequestPacket_def Let_def d split: result.splits)
      (metis is_panic_simps(3))
qed

text \<open>
  The response decoder never panics, whatever bytes the peer sent.
\<close>

lemma UnmarshalServiceResponsePacket_no_panic:
  "\<not> is_panic (UnmarshalServiceResponsePacket bu buf)"
  using parse_header_map_no_panic [of bu]
  by (auto simp: UnmarshalServiceResponsePacket_def Let_def split: list.splits result.splits)
    (metis is_panic_simps(3))

lemma UnmarshalDataPacket_no_panic: "\<not> is_panic (UnmarshalDataPacket bu buf)"
  by (simp add: UnmarshalDataPacket_accepts)

end
