(* ===== verification/Rpc_Stream.thy ===== *)
theory Rpc_Stream
  imports Rpc_Packets
begin

text \<open>
  \<^verbatim>\<open>streaming_rpc/io.go\<close>, \<^verbatim>\<open>stream.go\<close> and the stream side of \<^verbatim>\<open>provider.go\<close>: the
  wrapped pipes, streams, and the operations of a provider on its stream table. Streams and
  providers are shared objects: they live in the state \<open>world\<close> and are named by addresses, so
  that an operation on an object that has left every table still has its effect. The index of
  providers is in \<^verbatim>\<open>Rpc_Providers\<close>.
\<close>

section \<open>Iteration over a map\<close>

text \<open>The order in which Go's \<^verbatim>\<open>range\<close> visits the keys of a map is not determined.\<close>

locale map_range =
  fixes iter :: "'k set \<Rightarrow> 'k list"
  assumes iter_set: "finite A \<Longrightarrow> set (iter A) = A"
    and iter_distinct: "finite A \<Longrightarrow> distinct (iter A)"

interpretation sorted_range: map_range "sorted_list_of_set :: ('k :: linorder) set \<Rightarrow> 'k list"
  by unfold_locales simp_all

section \<open>Pipes\<close>

text \<open>
  \<^verbatim>\<open>io.Pipe\<close>: the errors with which its ends were closed. \<^verbatim>\<open>CloseWithError\<close> keeps the first
  error of its end, and the ends report \<^verbatim>\<open>io.ErrClosedPipe\<close> once their own side is closed.
\<close>

record pipe =
  pp_rerr :: "goerr option"
  pp_werr :: "goerr option"

definition pipe_done :: "pipe \<Rightarrow> bool" where
  "pipe_done p \<longleftrightarrow> pp_rerr p \<noteq> None \<or> pp_werr p \<noteq> None"

definition store_once :: "goerr option \<Rightarrow> goerr \<Rightarrow> goerr option" where
  "store_once old e = (case old of None \<Rightarrow> Some e | Some _ \<Rightarrow> old)"

definition Reader_CloseWithError :: "goerr option \<Rightarrow> pipe \<Rightarrow> pipe" where
  "Reader_CloseWithError err p =
     p\<lparr>pp_rerr := store_once (pp_rerr p) (case err of None \<Rightarrow> ErrClosedPipe | Some e \<Rightarrow> e)\<rparr>"

definition Writer_CloseWithError :: "goerr option \<Rightarrow> pipe \<Rightarrow> pipe" where
  "Writer_CloseWithError err p =
     p\<lparr>pp_werr := store_once (pp_werr p) (case err of None \<Rightarrow> EOF | Some e \<Rightarrow> e)\<rparr>"

definition readCloseError :: "pipe \<Rightarrow> goerr" where
  "readCloseError p =
     (case pp_werr p of Some e \<Rightarrow> if pp_rerr p = None then e else ErrClosedPipe | None \<Rightarrow> ErrClosedPipe)"

definition writeCloseError :: "pipe \<Rightarrow> goerr" where
  "writeCloseError p =
     (case pp_rerr p of Some e \<Rightarrow> if pp_werr p = None then e else ErrClosedPipe | None \<Rightarrow> ErrClosedPipe)"

text \<open>
  A read of at most \<open>n\<close> bytes: \<open>offer\<close> is what a writer waiting at the pipe offers. Without
  an offer an open pipe blocks, which is \<open>None\<close>.
\<close>

definition PipeReader_Read :: "pipe \<Rightarrow> bytes option \<Rightarrow> nat \<Rightarrow> (bytes \<times> goerr option) option" where
  "PipeReader_Read p offer n =
     (if pipe_done p then Some ([], Some (readCloseError p))
      else case offer of None \<Rightarrow> None | Some b \<Rightarrow> Some (take n b, None))"

text \<open>
  A write waits for readers to take all of its bytes, or for the pipe to be closed after some
  of them; in the second case the fate carries the pipe as it is then.
\<close>

datatype fate = Taken | Cut nat pipe

definition PipeWriter_Write :: "pipe \<Rightarrow> bytes \<Rightarrow> fate \<Rightarrow> nat \<times> goerr option \<times> pipe" where
  "PipeWriter_Write p b f =
     (if pipe_done p then (0, Some (writeCloseError p), p)
      else case f of
          Taken \<Rightarrow> (length b, None, p)
        | Cut n q \<Rightarrow> (min n (length b), Some (writeCloseError q), q))"

section \<open>Wrapped pipes\<close>

definition pipeReader_Read :: "pipe \<Rightarrow> bytes option \<Rightarrow> nat \<Rightarrow> (bytes \<times> goerr option) option" where
  "pipeReader_Read p offer n =
     (case PipeReader_Read p offer n of
        None \<Rightarrow> None
      | Some (b, err) \<Rightarrow>
          Some (b, case err of
                     None \<Rightarrow> None
                   | Some e \<Rightarrow> if errors_Is e ErrClosedPipe then Some EOF else Some e))"

definition pipeWriter_Write :: "pipe \<Rightarrow> bytes \<Rightarrow> fate \<Rightarrow> nat \<times> goerr option \<times> pipe" where
  "pipeWriter_Write p b f =
     (case PipeWriter_Write p b f of
        (n, err, p) \<Rightarrow>
          (n, case err of
                None \<Rightarrow> None
              | Some e \<Rightarrow>
                  if errors_Is e ErrClosedPipe then Some (Wrapf ''%s: %w'' [ArgErr e] EOF) else Some e,
           p))"

definition createWrappedPipe :: pipe where
  "createWrappedPipe = \<lparr>pp_rerr = None, pp_werr = None\<rparr>"

section \<open>Streams and providers\<close>

text \<open>
  A stream; \<open>st_read\<close> records the bytes its readers have taken, which the code does not store.
  The field \<^verbatim>\<open>received\<close> of the struct is never used and is left out.
\<close>

record Stream =
  st_ID :: u32
  st_pipe :: pipe
  st_Header :: "ServiceResponsePacket option"
  st_wg :: int
  st_once :: bool
  st_read :: bytes

record 'id Provider =
  pv_kadId :: "'id option"
  pv_conn :: "nat option"
  pv_services :: "gostring set"
  pv_counter :: u32
  pv_streams :: "u32 \<rightharpoonup> nat"

text \<open>
  The shared state: the index of \<^verbatim>\<open>providers.go\<close> and the store of providers and streams with
  the next free addresses. Connections are named by numbers.
\<close>

record 'id world =
  w_services :: "gostring \<rightharpoonup> nat set"
  w_providers :: "nat \<rightharpoonup> nat"
  w_pv :: "nat \<Rightarrow> 'id Provider"
  w_sm :: "nat \<Rightarrow> Stream"
  w_npv :: nat
  w_nsm :: nat

definition new_Stream :: "u32 \<Rightarrow> Stream" where
  "new_Stream sid = \<lparr>st_ID = sid, st_pipe = createWrappedPipe, st_Header = None, st_wg = 1,
     st_once = False, st_read = []\<rparr>"

definition put_stream :: "nat \<Rightarrow> u32 \<Rightarrow> 'id world \<Rightarrow> nat \<times> 'id world" where
  "put_stream a sid w =
     (w_nsm w, w\<lparr>w_sm := (w_sm w)(w_nsm w := new_Stream sid), w_nsm := Suc (w_nsm w),
       w_pv := (w_pv w)(a := (w_pv w a)\<lparr>pv_streams := (pv_streams (w_pv w a))(sid \<mapsto> w_nsm w)\<rparr>)\<rparr>)"

definition NextStream :: "nat \<Rightarrow> 'id world \<Rightarrow> nat \<times> 'id world" where
  "NextStream a w =
     (let sid = pv_counter (w_pv w a);
          w = w\<lparr>w_pv := (w_pv w)(a := (w_pv w a)\<lparr>pv_counter := sid + 2\<rparr>)\<rparr>
      in put_stream a sid w)"

definition GetStream :: "nat \<Rightarrow> u32 \<Rightarrow> 'id world \<Rightarrow> nat option" where
  "GetStream a sid w = pv_streams (w_pv w a) sid"

definition RegisterStreamWithServiceRequestPacket ::
  "nat \<Rightarrow> ServiceRequestPacket \<Rightarrow> 'id world \<Rightarrow> (nat \<times> bool) \<times> 'id world" where
  "RegisterStreamWithServiceRequestPacket a header w =
     (case pv_streams (w_pv w a) (req_StreamId header) of
        Some x \<Rightarrow> ((x, False), w)
      | None \<Rightarrow> (case put_stream a (req_StreamId header) w of (x, w) \<Rightarrow> ((x, True), w)))"

text \<open>\<^verbatim>\<open>stream.once.Do(stream.wg.Done)\<close>.\<close>

definition once_Done :: "Stream \<Rightarrow> Stream" where
  "once_Done s = (if st_once s then s else s\<lparr>st_once := True, st_wg := st_wg s - 1\<rparr>)"

definition shut_stream :: "goerr \<Rightarrow> Stream \<Rightarrow> Stream" where
  "shut_stream err s =
     once_Done (s\<lparr>st_pipe := Writer_CloseWithError (Some err) (Reader_CloseWithError (Some err) (st_pipe s))\<rparr>)"

definition CloseStreamWithError :: "nat \<Rightarrow> nat \<Rightarrow> goerr \<Rightarrow> 'id world \<Rightarrow> 'id world" where
  "CloseStreamWithError a x err w =
     w\<lparr>w_sm := (w_sm w)(x := shut_stream err (w_sm w x)),
       w_pv := (w_pv w)(a := (w_pv w a)\<lparr>pv_streams := (pv_streams (w_pv w a))(st_ID (w_sm w x) := None)\<rparr>)\<rparr>"

definition err_provider_closed :: goerr where
  "err_provider_closed = Wrapf ''provider connection closed: %w'' [] EOF"

definition close_one :: "nat \<Rightarrow> u32 \<Rightarrow> 'id world \<Rightarrow> 'id world" where
  "close_one a sid w =
     (case pv_streams (w_pv w a) sid of
        None \<Rightarrow> w
      | Some x \<Rightarrow>
          w\<lparr>w_sm := (w_sm w)(x := shut_stream err_provider_closed (w_sm w x)),
            w_pv := (w_pv w)(a := (w_pv w a)\<lparr>pv_streams := (pv_streams (w_pv w a))(sid := None)\<rparr>)\<rparr>)"

definition Provider_Close :: "(u32 set \<Rightarrow> u32 list) \<Rightarrow> nat \<Rightarrow> 'id world \<Rightarrow> 'id world" where
  "Provider_Close iter a w = fold (close_one a) (iter (dom (pv_streams (w_pv w a)))) w"

section \<open>Well-formed streams\<close>

text \<open>
  The stream tables are well formed: finite, every entry is an allocated stream with the id it
  is filed under, no stream is filed twice, and the counter of every allocated stream is 1 until
  its \<^verbatim>\<open>once\<close> has fired and 0 after it.
\<close>

definition tables :: "(nat \<Rightarrow> u32 \<rightharpoonup> nat) \<Rightarrow> (nat \<Rightarrow> Stream) \<Rightarrow> nat \<Rightarrow> bool" where
  "tables T S n \<longleftrightarrow>
     (\<forall>a. finite (dom (T a))) \<and>
     (\<forall>a sid x. T a sid = Some x \<longrightarrow> x < n \<and> st_ID (S x) = sid) \<and>
     (\<forall>a b sid x. T a sid = Some x \<longrightarrow> T b sid = Some x \<longrightarrow> a = b) \<and>
     (\<forall>x < n. st_wg (S x) = (if st_once (S x) then 0 else 1))"

definition streams_ok :: "'id world \<Rightarrow> bool" where
  "streams_ok w \<longleftrightarrow> tables (pv_streams \<circ> w_pv w) (w_sm w) (w_nsm w)"

lemma st_ID_shut [simp]: "st_ID (shut_stream err s) = st_ID s"
  by (simp add: shut_stream_def once_Done_def)

lemma shut_frame [simp]:
  "st_read (shut_stream err s) = st_read s" "st_Header (shut_stream err s) = st_Header s"
  by (simp_all add: shut_stream_def once_Done_def)

lemma shut_wg:
  "st_wg s = (if st_once s then 0 else 1) \<Longrightarrow>
     st_wg (shut_stream err s) = 0 \<and> st_once (shut_stream err s)"
  by (simp add: shut_stream_def once_Done_def)

lemma shut_pipe:
  "pp_rerr (st_pipe (shut_stream err s)) \<noteq> None \<and> pp_werr (st_pipe (shut_stream err s)) \<noteq> None"
  by (simp add: shut_stream_def once_Done_def Reader_CloseWithError_def Writer_CloseWithError_def
      store_once_def split: option.split)

lemma shut_reads: "pipeReader_Read (st_pipe (shut_stream err s)) offer n = Some ([], Some EOF)"
  using shut_pipe [of err s]
  by (auto simp: pipeReader_Read_def PipeReader_Read_def pipe_done_def readCloseError_def)

lemma tables_put:
  assumes "tables T S n"
  shows "tables (T(a := (T a)(sid \<mapsto> n))) (S(n := new_Stream sid)) (Suc n)"
proof -
  have "T b s \<noteq> Some n" for b s using assms by (auto simp: tables_def)
  with assms show ?thesis
    by (auto simp: tables_def new_Stream_def less_Suc_eq split: if_splits)
qed

lemma tables_drop:
  assumes "tables T S n" "st_ID s = st_ID (S x)"
    and "st_wg (S x) = (if st_once (S x) then 0 else 1) \<longrightarrow> st_wg s = (if st_once s then 0 else 1)"
    and "\<And>sid y. R sid = Some y \<Longrightarrow> T a sid = Some y"
  shows "tables (T(a := R)) (S(x := s)) n"
  unfolding tables_def
proof (intro conjI allI impI)
  fix b c sid' y
  have old: "(T(a := R)) b sid' = Some y \<Longrightarrow> T b sid' = Some y" for b sid' y
    using assms(4) by (auto split: if_splits)
  then have "dom ((T(a := R)) b) \<subseteq> dom (T b)" by blast
  with assms(1) show "finite (dom ((T(a := R)) b))" by (auto simp: tables_def intro: finite_subset)
  show "st_wg ((S(x := s)) y) = (if st_once ((S(x := s)) y) then 0 else 1)" if "y < n"
    using assms(1,3) that by (auto simp: tables_def)
  assume "(T(a := R)) b sid' = Some y"
  then have *: "T b sid' = Some y" by (rule old)
  show "y < n" using assms(1) * by (auto simp: tables_def)
  show "st_ID ((S(x := s)) y) = sid'" using assms(1,2) * by (auto simp: tables_def)
  assume "(T(a := R)) c sid' = Some y"
  from old [OF this] * assms(1) show "b = c" unfolding tables_def by blast
qed

lemma put_stream_ok:
  assumes "streams_ok w" "put_stream a sid w = (x, w')"
  shows "streams_ok w'"
  using assms tables_put [of "pv_streams \<circ> w_pv w"]
  by (auto simp: streams_ok_def put_stream_def fun_upd_comp simp del: fun_upd_apply)

lemma counter_ok:
  "streams_ok w \<Longrightarrow> streams_ok (w\<lparr>w_pv := (w_pv w)(a := (w_pv w a)\<lparr>pv_counter := c\<rparr>)\<rparr>)"
  using tables_drop [of "pv_streams \<circ> w_pv w" "w_sm w" "w_nsm w" "w_sm w 0" 0 "pv_streams (w_pv w a)" a]
  by (simp add: streams_ok_def fun_upd_comp del: fun_upd_apply)

lemma NextStream_ok: "streams_ok w \<Longrightarrow> NextStream a w = (x, w') \<Longrightarrow> streams_ok w'"
  using put_stream_ok [OF counter_ok] by (simp add: NextStream_def Let_def)

lemma Register_ok:
  "streams_ok w \<Longrightarrow> RegisterStreamWithServiceRequestPacket a p w = (r, w') \<Longrightarrow> streams_ok w'"
  using put_stream_ok [of w]
  by (auto simp: RegisterStreamWithServiceRequestPacket_def split: option.splits prod.splits)

lemma drop_ok:
  assumes "streams_ok w"
  shows "streams_ok (w\<lparr>w_sm := (w_sm w)(x := shut_stream err (w_sm w x)),
    w_pv := (w_pv w)(a := (w_pv w a)\<lparr>pv_streams := (pv_streams (w_pv w a))(sid := None)\<rparr>)\<rparr>)"
proof -
  have "tables ((pv_streams \<circ> w_pv w)(a := (pv_streams (w_pv w a))(sid := None)))
      ((w_sm w)(x := shut_stream err (w_sm w x))) (w_nsm w)"
    using assms by (intro tables_drop) (auto simp: streams_ok_def shut_wg split: if_splits)
  then show ?thesis by (simp add: streams_ok_def fun_upd_comp del: fun_upd_apply)
qed

lemma CloseStreamWithError_ok: "streams_ok w \<Longrightarrow> streams_ok (CloseStreamWithError a x err w)"
  unfolding CloseStreamWithError_def by (rule drop_ok)

lemma close_one_ok: "streams_ok w \<Longrightarrow> streams_ok (close_one a sid w)"
  by (auto simp: close_one_def intro: drop_ok split: option.split)

lemma fold_close_ok: "streams_ok w \<Longrightarrow> streams_ok (fold (close_one a) sids w)"
  by (induction sids arbitrary: w) (auto intro: close_one_ok)

lemma Provider_Close_ok: "streams_ok w \<Longrightarrow> streams_ok (Provider_Close iter a w)"
  by (simp add: Provider_Close_def fold_close_ok)

section \<open>Closing a provider\<close>

lemma close_one_frame [simp]:
  "w_services (close_one a sid w) = w_services w" "w_providers (close_one a sid w) = w_providers w"
  "w_npv (close_one a sid w) = w_npv w" "w_nsm (close_one a sid w) = w_nsm w"
  by (simp_all add: close_one_def split: option.split)

lemma close_one_pv:
  "w_pv (close_one a sid w) =
     (w_pv w)(a := (w_pv w a)\<lparr>pv_streams := (pv_streams (w_pv w a))(sid := None)\<rparr>)"
proof (cases "pv_streams (w_pv w a) sid")
  case None
  then have "(pv_streams (w_pv w a))(sid := None) = pv_streams (w_pv w a)" by (simp add: fun_upd_idem)
  with None show ?thesis by (simp add: close_one_def)
qed (simp add: close_one_def)

lemma fold_close_frame [simp]:
  "w_services (fold (close_one a) sids w) = w_services w"
  "w_providers (fold (close_one a) sids w) = w_providers w"
  "w_npv (fold (close_one a) sids w) = w_npv w" "w_nsm (fold (close_one a) sids w) = w_nsm w"
  by (induction sids arbitrary: w) simp_all

lemma fold_close_pv:
  "w_pv (fold (close_one a) sids w) =
     (w_pv w)(a := (w_pv w a)\<lparr>pv_streams := (pv_streams (w_pv w a)) |` (- set sids)\<rparr>)"
proof (induction sids arbitrary: w)
  case Nil
  then show ?case by (simp add: restrict_map_def fun_upd_idem)
next
  case (Cons sid sids)
  have eq: "(pv_streams (w_pv w a)) |` (- set (sid # sids)) =
      ((pv_streams (w_pv w a))(sid := None)) |` (- set sids)"
    by (auto simp: restrict_map_def)
  show ?case unfolding eq
    by (simp add: Cons.IH close_one_pv fun_eq_iff fun_upd_def del: restrict_fun_upd fun_upd_restrict_conv)
qed

lemma fold_close_sm:
  assumes "streams_ok w" "distinct sids"
  shows "w_sm (fold (close_one a) sids w) x =
    (if \<exists>sid \<in> set sids. pv_streams (w_pv w a) sid = Some x
     then shut_stream err_provider_closed (w_sm w x) else w_sm w x)"
  using assms
proof (induction sids arbitrary: w)
  case Nil
  then show ?case by simp
next
  case (Cons sid sids)
  let ?w = "close_one a sid w"
  have one: "w_sm ?w x = (if pv_streams (w_pv w a) sid = Some x
      then shut_stream err_provider_closed (w_sm w x) else w_sm w x)"
    by (auto simp: close_one_def split: option.split)
  have id: "s = st_ID (w_sm w x)" if "pv_streams (w_pv w a) s = Some x" for s
    using Cons.prems(1) that by (auto simp: streams_ok_def tables_def)
  have "w_sm (fold (close_one a) sids ?w) x =
    (if \<exists>s \<in> set sids. pv_streams (w_pv ?w a) s = Some x
     then shut_stream err_provider_closed (w_sm ?w x) else w_sm ?w x)"
    using Cons.prems by (intro Cons.IH close_one_ok) auto
  moreover have "(\<exists>s \<in> set sids. pv_streams (w_pv ?w a) s = Some x) \<longleftrightarrow>
      (\<exists>s \<in> set sids. pv_streams (w_pv w a) s = Some x)"
    using Cons.prems(2) by (auto simp: close_one_pv)
  ultimately show ?case using id Cons.prems(2) by (auto simp: one)
qed

section \<open>Stream ids\<close>

fun next_streams :: "nat \<Rightarrow> 'id world \<Rightarrow> nat \<Rightarrow> u32 list" where
  "next_streams a w 0 = []"
| "next_streams a w (Suc n) =
     (case NextStream a w of (x, w) \<Rightarrow> st_ID (w_sm w x) # next_streams a w n)"

lemma NextStream_step:
  "NextStream a w = (x, w') \<Longrightarrow>
     st_ID (w_sm w' x) = pv_counter (w_pv w a) \<and> pv_counter (w_pv w' a) = pv_counter (w_pv w a) + 2"
  by (auto simp: NextStream_def put_stream_def new_Stream_def Let_def)

lemma next_streams_eq:
  "next_streams a w n = map (\<lambda>i. pv_counter (w_pv w a) + 2 * of_nat i) [0..<n]"
proof (induction n arbitrary: w)
  case 0
  then show ?case by simp
next
  case (Suc n)
  obtain x w' where st: "NextStream a w = (x, w')" by fastforce
  have "[0..<Suc n] = 0 # map Suc [0..<n]"
    by (simp only: upt_conv_Cons map_Suc_upt zero_less_Suc)
  with st NextStream_step [OF st] show ?case
    by (simp add: Suc.IH o_def algebra_simps del: upt_Suc)
qed

section \<open>Properties\<close>

text \<open>
  (C27) Stream ids of the two ends of a connection never meet: the end that dialed counts its
  streams 1, 3, 5, and so on, the other end 0, 2, 4, and so on. The ids of one end are pairwise
  different for the first \<open>2 ^ 31\<close> streams, and no id of one end is ever an id of the other, even
  after the counters wrap.
\<close>

theorem stream_ids_disjoint:
  assumes "pv_counter (w_pv w a) = 1" and "pv_counter (w_pv v b) = 0"
  shows "next_streams a w n = map (\<lambda>i. of_nat (2 * i + 1)) [0..<n] \<and>
    next_streams b v m = map (\<lambda>i. of_nat (2 * i)) [0..<m] \<and>
    set (next_streams a w n) \<inter> set (next_streams b v m) = {} \<and>
    (n \<le> 2 ^ 31 \<longrightarrow> distinct (next_streams a w n)) \<and> (m \<le> 2 ^ 31 \<longrightarrow> distinct (next_streams b v m))"
proof -
  have A: "next_streams a w n = map (\<lambda>i. of_nat (2 * i + 1)) [0..<n]"
    by (simp add: next_streams_eq assms)
  have B: "next_streams b v m = map (\<lambda>i. of_nat (2 * i)) [0..<m]"
    by (simp add: next_streams_eq assms)
  have "(of_nat (2 * i + 1) :: u32) \<noteq> of_nat (2 * j)" for i j
    using u32_parity [of "2 * i + 1" "2 * j"] by auto
  moreover have "n \<le> 2 ^ 31 \<Longrightarrow> distinct (map (\<lambda>i. of_nat (2 * i + 1) :: u32) [0..<n])"
    by (auto simp: distinct_map inj_on_def u32_of_nat_inj simp del: of_nat_add of_nat_mult of_nat_Suc)
  moreover have "m \<le> 2 ^ 31 \<Longrightarrow> distinct (map (\<lambda>i. of_nat (2 * i) :: u32) [0..<m])"
    by (auto simp: distinct_map inj_on_def u32_of_nat_inj simp del: of_nat_add of_nat_mult of_nat_Suc)
  ultimately show ?thesis by (auto simp: A B simp del: of_nat_add of_nat_mult of_nat_Suc)
qed

definition new_world :: "'id world" where
  "new_world = \<lparr>w_services = Map.empty, w_providers = Map.empty,
     w_pv = (\<lambda>_. \<lparr>pv_kadId = None, pv_conn = None, pv_services = {}, pv_counter = 0, pv_streams = Map.empty\<rparr>),
     w_sm = (\<lambda>_. new_Stream 0), w_npv = 0, w_nsm = 0\<rparr>"

definition dialed_world :: "unit world" where
  "dialed_world = new_world\<lparr>w_pv := (w_pv new_world)(0 := (w_pv new_world 0)\<lparr>pv_counter := 1\<rparr>)\<rparr>"

theorem stream_ids_disjoint_witness:
  "next_streams 0 dialed_world 3 = [1, 3, 5] \<and> next_streams 0 (new_world :: unit world) 2 = [0, 2]"
proof -
  have "pv_counter (w_pv dialed_world 0) = 1" "pv_counter (w_pv (new_world :: unit world) 0) = 0"
    by (simp_all add: dialed_world_def new_world_def)
  from stream_ids_disjoint [OF this, of 3 2] show ?thesis by (simp add: upt_rec)
qed

text \<open>
  What closing a stream does: whoever waits for its header is released, its id is free
  again, its writers fail with an error that wraps \<^verbatim>\<open>io.EOF\<close>, and its readers see a plain
  \<^verbatim>\<open>io.EOF\<close> whatever the error was: the reason a stream was aborted never reaches a reader,
  who cannot tell it from the regular end.
\<close>

lemma closed_stream_reads_EOF:
  assumes "streams_ok w" and "x < w_nsm w" and "w' = CloseStreamWithError a x err w"
  shows "pipeReader_Read (st_pipe (w_sm w' x)) offer n = Some ([], Some EOF) \<and>
    fst (snd (pipeWriter_Write (st_pipe (w_sm w' x)) b f)) = Some (Wrapf ''%s: %w'' [ArgErr ErrClosedPipe] EOF) \<and>
    st_wg (w_sm w' x) = 0 \<and> GetStream a (st_ID (w_sm w x)) w' = None"
proof -
  have sx: "w_sm w' x = shut_stream err (w_sm w x)" by (simp add: assms(3) CloseStreamWithError_def)
  obtain r v where "pp_rerr (st_pipe (w_sm w' x)) = Some r" "pp_werr (st_pipe (w_sm w' x)) = Some v"
    using shut_pipe [of err "w_sm w x"] by (auto simp: sx)
  then have "fst (snd (pipeWriter_Write (st_pipe (w_sm w' x)) b f)) = Some (Wrapf ''%s: %w'' [ArgErr ErrClosedPipe] EOF)"
    by (simp add: pipe_done_def pipeWriter_Write_def PipeWriter_Write_def writeCloseError_def)
  moreover have "st_wg (w_sm w' x) = 0"
    using assms(1,2) shut_wg [of "w_sm w x" err] by (auto simp: sx streams_ok_def tables_def)
  ultimately show ?thesis by (simp add: assms(3) GetStream_def CloseStreamWithError_def shut_reads)
qed

text \<open>
  (C25) Closing a provider ends all of its streams and nothing else: its table is empty, every
  stream that was in it has released its waiter and ends its readers, and streams and providers
  outside of it are untouched, in whatever order the table is visited.
\<close>

theorem provider_close_ends_streams:
  assumes "streams_ok w" and "map_range iter" and "w' = Provider_Close iter a w"
  shows "pv_streams (w_pv w' a) = Map.empty \<and> (\<forall>b. b \<noteq> a \<longrightarrow> w_pv w' b = w_pv w b) \<and>
    (\<forall>x. x \<in> ran (pv_streams (w_pv w a)) \<longrightarrow> st_wg (w_sm w' x) = 0 \<and>
       (\<forall>offer n. pipeReader_Read (st_pipe (w_sm w' x)) offer n = Some ([], Some EOF))) \<and>
    (\<forall>x. x \<notin> ran (pv_streams (w_pv w a)) \<longrightarrow> w_sm w' x = w_sm w x)"
proof -
  let ?d = "dom (pv_streams (w_pv w a))"
  have fin: "finite ?d" using assms(1) by (simp add: streams_ok_def tables_def)
  then have it: "set (iter ?d) = ?d" "distinct (iter ?d)"
    using assms(2) by (simp_all add: map_range.iter_set map_range.iter_distinct)
  have none: "(pv_streams (w_pv w a)) |` (- ?d) = Map.empty" by (auto simp: restrict_map_def)
  have pv: "w_pv w' = (w_pv w)(a := (w_pv w a)\<lparr>pv_streams := Map.empty\<rparr>)"
    by (simp add: assms(3) Provider_Close_def fold_close_pv it none)
  have sm: "w_sm w' x = (if x \<in> ran (pv_streams (w_pv w a))
      then shut_stream err_provider_closed (w_sm w x) else w_sm w x)" for x
  proof -
    have "(\<exists>sid \<in> set (iter ?d). pv_streams (w_pv w a) sid = Some x) \<longleftrightarrow> x \<in> ran (pv_streams (w_pv w a))"
      unfolding it by (auto simp: ran_def)
    with fold_close_sm [OF assms(1) it(2), of a x] show ?thesis
      by (simp add: assms(3) Provider_Close_def)
  qed
  have x: "x < w_nsm w \<and> st_wg (w_sm w x) = (if st_once (w_sm w x) then 0 else 1)"
    if "x \<in> ran (pv_streams (w_pv w a))" for x
    using that assms(1) by (auto simp: streams_ok_def tables_def ran_def)
  from sm x shut_wg show ?thesis by (simp add: pv shut_reads)
qed

theorem provider_close_ends_streams_witness:
  "pv_streams (w_pv (Provider_Close sorted_list_of_set 0 (snd (NextStream 0 dialed_world))) 0) = Map.empty"
proof -
  have "streams_ok dialed_world"
    by (auto simp: dialed_world_def new_world_def streams_ok_def tables_def)
  then have "streams_ok (snd (NextStream 0 dialed_world))"
    using NextStream_ok [of dialed_world 0] by (metis prod.collapse)
  from provider_close_ends_streams [OF this sorted_range.map_range_axioms refl] show ?thesis by blast
qed

end
