(* ===== verification/Rpc_Providers.thy ===== *)
theory Rpc_Providers
  imports Rpc_Stream "HOL-Library.List_Lexorder"
begin

text \<open>
  \<^verbatim>\<open>streaming_rpc/providers.go\<close>: the index of the connected providers and of the services
  they offer. The two maps of the struct are the first two fields of \<open>world\<close>; providers are
  addresses into its store.
\<close>

section \<open>Operations\<close>

definition NewProviders :: "'id world \<Rightarrow> 'id world" where
  "NewProviders w = w\<lparr>w_services := Map.empty, w_providers := Map.empty\<rparr>"

definition FindProvider :: "nat \<Rightarrow> 'id world \<Rightarrow> nat option" where
  "FindProvider conn w = w_providers w conn"

definition offering :: "'id world \<Rightarrow> gostring \<Rightarrow> nat set" where
  "offering w s = (case w_services w s of None \<Rightarrow> {} | Some A \<Rightarrow> A)"

text \<open>An entry of the result is \<open>None\<close> where the code would return a nil pointer.\<close>

definition getProviders :: "(nat set \<Rightarrow> nat list) \<Rightarrow> gostring list \<Rightarrow> 'id world \<Rightarrow> nat option list" where
  "getProviders iter services w =
     map (w_providers w) (concat (map (\<lambda>service. iter (offering w service)) services))"

definition add_service :: "nat \<Rightarrow> nat \<Rightarrow> gostring \<Rightarrow> 'id world \<Rightarrow> 'id world" where
  "add_service a conn service w =
     w\<lparr>w_pv := (w_pv w)(a := (w_pv w a)\<lparr>pv_services := insert service (pv_services (w_pv w a))\<rparr>),
       w_services := (w_services w)(service \<mapsto> insert conn (offering w service))\<rparr>"

definition new_provider :: "nat \<Rightarrow> bool \<Rightarrow> 'id world \<Rightarrow> 'id world" where
  "new_provider conn outgoing w =
     w\<lparr>w_pv := (w_pv w)(w_npv w := \<lparr>pv_kadId = None, pv_conn = None, pv_services = {},
         pv_counter = (if outgoing then 1 else 0), pv_streams = Map.empty\<rparr>),
       w_npv := Suc (w_npv w), w_providers := (w_providers w)(conn \<mapsto> w_npv w)\<rparr>"

definition registerProvider ::
  "nat \<Rightarrow> 'id option \<Rightarrow> gostring list \<Rightarrow> bool \<Rightarrow> 'id world \<Rightarrow> (nat \<times> bool) \<times> 'id world" where
  "registerProvider conn kid services outgoing w =
     (case (case w_providers w conn of
              Some a \<Rightarrow> (a, True, w)
            | None \<Rightarrow> (w_npv w, False, new_provider conn outgoing w)) of
        (a, exists, w) \<Rightarrow>
          (let w = w\<lparr>w_pv := (w_pv w)(a := (w_pv w a)\<lparr>pv_kadId := kid, pv_conn := Some conn\<rparr>)\<rparr>
           in ((a, exists), fold (add_service a conn) services w)))"

definition drop_service :: "nat \<Rightarrow> gostring \<Rightarrow> 'id world \<Rightarrow> 'id world" where
  "drop_service conn service w =
     (let A = offering w service - {conn}
      in w\<lparr>w_services := (w_services w)(service := if A = {} then None else Some A)\<rparr>)"

definition deregisterProvider ::
  "(gostring set \<Rightarrow> gostring list) \<Rightarrow> (u32 set \<Rightarrow> u32 list) \<Rightarrow> nat \<Rightarrow> 'id world \<Rightarrow> nat option \<times> 'id world" where
  "deregisterProvider siter iter conn w =
     (case w_providers w conn of
        None \<Rightarrow> (None, w)
      | Some a \<Rightarrow>
          (let w = w\<lparr>w_providers := (w_providers w)(conn := None)\<rparr>;
               w = fold (drop_service conn) (siter (pv_services (w_pv w a))) w
           in (Some a, Provider_Close iter a w)))"

section \<open>The invariant of the index\<close>

text \<open>
  The index is exact: a connection is filed under a service exactly when its provider offers
  the service, no service has an empty set, and every provider knows its connection.
\<close>

definition index_ok :: "'id world \<Rightarrow> bool" where
  "index_ok w \<longleftrightarrow>
     (\<forall>c a. w_providers w c = Some a \<longrightarrow> a < w_npv w \<and> pv_conn (w_pv w a) = Some c) \<and>
     (\<forall>s A. w_services w s = Some A \<longrightarrow> A \<noteq> {} \<and> finite A) \<and>
     (\<forall>s c. c \<in> offering w s \<longleftrightarrow> (\<exists>a. w_providers w c = Some a \<and> s \<in> pv_services (w_pv w a))) \<and>
     (\<forall>c a. w_providers w c = Some a \<longrightarrow> finite (pv_services (w_pv w a)))"

lemma index_ok_new [simp]: "index_ok new_world"
  by (simp add: index_ok_def new_world_def offering_def)

lemma index_injective:
  "index_ok w \<Longrightarrow> w_providers w c = Some a \<Longrightarrow> w_providers w d = Some a \<Longrightarrow> c = d"
  by (auto simp: index_ok_def) (metis option.inject)

lemma add_services:
  "w_providers (fold (add_service a conn) ss w) = w_providers w \<and>
   w_npv (fold (add_service a conn) ss w) = w_npv w \<and>
   w_sm (fold (add_service a conn) ss w) = w_sm w \<and> w_nsm (fold (add_service a conn) ss w) = w_nsm w \<and>
   w_pv (fold (add_service a conn) ss w) =
     (w_pv w)(a := (w_pv w a)\<lparr>pv_services := pv_services (w_pv w a) \<union> set ss\<rparr>) \<and>
   w_services (fold (add_service a conn) ss w) =
     (\<lambda>s. if s \<in> set ss then Some (insert conn (offering w s)) else w_services w s)"
proof (induction ss arbitrary: w)
  case Nil
  then show ?case by (simp add: fun_upd_idem)
next
  case (Cons s ss)
  show ?case by (auto simp: Cons.IH) (auto simp: add_service_def offering_def fun_eq_iff)
qed

text \<open>What registering changes.\<close>

lemma register_effect:
  assumes "registerProvider conn kid ss outgoing w = ((a, exists), w')"
  shows "a = (case w_providers w conn of None \<Rightarrow> w_npv w | Some b \<Rightarrow> b)"
    and "exists \<longleftrightarrow> w_providers w conn \<noteq> None"
    and "w_providers w' = (w_providers w)(conn \<mapsto> a)"
    and "w_npv w' = (if exists then w_npv w else Suc (w_npv w))"
    and "w_pv w' = (w_pv w)(a := \<lparr>pv_kadId = kid, pv_conn = Some conn,
      pv_services = (if exists then pv_services (w_pv w a) else {}) \<union> set ss,
      pv_counter = (if exists then pv_counter (w_pv w a) else if outgoing then 1 else 0),
      pv_streams = (if exists then pv_streams (w_pv w a) else Map.empty)\<rparr>)"
    and "w_services w' = (\<lambda>s. if s \<in> set ss then Some (insert conn (offering w s)) else w_services w s)"
    and "w_sm w' = w_sm w" and "w_nsm w' = w_nsm w"
  using assms
  by (auto simp: registerProvider_def new_provider_def add_services Let_def offering_def fun_upd_idem
      split: option.splits)

lemma offering_register:
  assumes "registerProvider conn kid ss outgoing w = (r, w')"
  shows "offering w' s = (if s \<in> set ss then insert conn (offering w s) else offering w s)"
proof (cases r)
  case (Pair a e)
  with assms register_effect(6) [of conn kid ss outgoing w a e w'] show ?thesis
    by (simp add: offering_def)
qed

lemma register_index_ok:
  assumes "index_ok w" "registerProvider conn kid ss outgoing w = ((a, e), w')"
  shows "index_ok w'"
proof -
  note eff = register_effect [OF assms(2)]
  have ok: "w_providers w c = Some b \<Longrightarrow> b < w_npv w \<and> pv_conn (w_pv w b) = Some c \<and>
      finite (pv_services (w_pv w b))" for c b
    using assms(1) unfolding index_ok_def by blast
  have e: "w_providers w conn = (if e then Some a else None)" "\<not> e \<Longrightarrow> a = w_npv w"
    using eff(1,2) by (auto split: option.splits)
  have old: "b \<noteq> a" if "w_providers w c = Some b" "c \<noteq> conn" for b c
    using that ok [of c b] e index_injective [OF assms(1)] by (cases e) auto
  have fin: "finite (offering w s)" for s
    using assms(1) by (auto simp: index_ok_def offering_def split: option.split)
  have mem: "c \<in> offering w s \<longleftrightarrow> (\<exists>a. w_providers w c = Some a \<and> s \<in> pv_services (w_pv w a))" for c s
    using assms(1) unfolding index_ok_def by blast
  have "c \<in> offering w' s \<longleftrightarrow> (\<exists>b. w_providers w' c = Some b \<and> s \<in> pv_services (w_pv w' b))" for c s
  proof (cases "c = conn")
    case True
    then show ?thesis
      using mem [of c s] e(1) by (cases e) (simp_all add: offering_register [OF assms(2)] eff(3,5))
  next
    case False
    with old mem [of c s] show ?thesis
      by (auto simp: offering_register [OF assms(2)] eff(3,5))
  qed
  moreover have "b < w_npv w' \<and> pv_conn (w_pv w' b) = Some c \<and> finite (pv_services (w_pv w' b))"
    if "w_providers w' c = Some b" for c b
  proof (cases "c = conn")
    case True
    with that have "b = a" by (simp add: eff(3))
    with True e ok [of conn a] show ?thesis by (cases e) (simp_all add: eff(4,5))
  next
    case False
    with that have "w_providers w c = Some b" by (simp add: eff(3))
    with ok [OF this] old [OF this False] show ?thesis by (simp add: eff(4,5))
  qed
  moreover have "A \<noteq> {} \<and> finite A" if "w_services w' s = Some A" for s A
    using assms(1) fin that unfolding index_ok_def eff(6) by (auto split: if_splits)
  ultimately show ?thesis unfolding index_ok_def by blast
qed

text \<open>What deregistering changes.\<close>

lemma drop_services:
  "w_providers (fold (drop_service conn) ss w) = w_providers w \<and>
   w_npv (fold (drop_service conn) ss w) = w_npv w \<and> w_pv (fold (drop_service conn) ss w) = w_pv w \<and>
   w_sm (fold (drop_service conn) ss w) = w_sm w \<and> w_nsm (fold (drop_service conn) ss w) = w_nsm w \<and>
   w_services (fold (drop_service conn) ss w) =
     (\<lambda>s. if s \<in> set ss then (if offering w s - {conn} = {} then None else Some (offering w s - {conn}))
          else w_services w s)"
proof (induction ss arbitrary: w)
  case Nil
  then show ?case by simp
next
  case (Cons s ss)
  show ?case by (auto simp: Cons.IH) (auto simp: drop_service_def offering_def Let_def fun_eq_iff)
qed

lemma deregister_effect:
  assumes "index_ok w" "map_range siter" "w_providers w conn = Some a"
    and "deregisterProvider siter iter conn w = (r, w')"
  shows "r = Some a" and "w_providers w' = (w_providers w)(conn := None)"
    and "w_npv w' = w_npv w" and "pv_services (w_pv w' b) = pv_services (w_pv w b)"
    and "pv_conn (w_pv w' b) = pv_conn (w_pv w b)" and "pv_kadId (w_pv w' b) = pv_kadId (w_pv w b)"
    and "w_services w' = (\<lambda>s. if s \<in> pv_services (w_pv w a)
      then (if offering w s - {conn} = {} then None else Some (offering w s - {conn}))
      else w_services w s)"
proof -
  have fin: "finite (pv_services (w_pv w a))" using assms(1,3) by (auto simp: index_ok_def)
  then have it: "set (siter (pv_services (w_pv w a))) = pv_services (w_pv w a)"
    using assms(2) by (simp add: map_range.iter_set)
  let ?w = "w\<lparr>w_providers := (w_providers w)(conn := None)\<rparr>"
  have pv: "w_pv w' = (w_pv w)(a := (w_pv w a)\<lparr>pv_streams := pv_streams (w_pv w' a)\<rparr>)"
    using assms(3,4) drop_services [of conn "siter (pv_services (w_pv w a))" ?w]
    by (auto simp: deregisterProvider_def Let_def Provider_Close_def fold_close_pv)
  show "pv_services (w_pv w' b) = pv_services (w_pv w b)"
    "pv_conn (w_pv w' b) = pv_conn (w_pv w b)" "pv_kadId (w_pv w' b) = pv_kadId (w_pv w b)"
    by (subst pv, simp)+
  have "offering ?w = offering w" by (simp add: offering_def fun_eq_iff)
  with assms(3,4) it drop_services [of conn "siter (pv_services (w_pv w a))" ?w]
  show "r = Some a" "w_providers w' = (w_providers w)(conn := None)" "w_npv w' = w_npv w"
    "w_services w' = (\<lambda>s. if s \<in> pv_services (w_pv w a)
      then (if offering w s - {conn} = {} then None else Some (offering w s - {conn}))
      else w_services w s)"
    by (auto simp: deregisterProvider_def Let_def Provider_Close_def)
qed

lemma deregister_index_ok:
  assumes "index_ok w" "map_range siter" "deregisterProvider siter iter conn w = (r, w')"
  shows "index_ok w'"
proof (cases "w_providers w conn")
  case None
  with assms show ?thesis by (simp add: deregisterProvider_def)
next
  case (Some a)
  note eff = deregister_effect [OF assms(1,2) Some assms(3)]
  have mem: "c \<in> offering w s \<longleftrightarrow> (\<exists>a. w_providers w c = Some a \<and> s \<in> pv_services (w_pv w a))" for c s
    using assms(1) by (simp add: index_ok_def)
  have off: "offering w' s = offering w s - {conn}" for s
  proof (cases "s \<in> pv_services (w_pv w a)")
    case False
    with mem [of conn s] Some have "conn \<notin> offering w s" by simp
    with False show ?thesis by (simp add: offering_def eff(7))
  qed (simp add: offering_def eff(7))
  have "c \<in> offering w' s \<longleftrightarrow> (\<exists>b. w_providers w' c = Some b \<and> s \<in> pv_services (w_pv w' b))" for c s
    using mem [of c s] by (auto simp: off eff(2,4))
  moreover have "w_services w' s = Some A \<longrightarrow> A \<noteq> {} \<and> finite A" for s A
    using assms(1) by (auto simp: index_ok_def eff(7) offering_def split: if_splits option.splits)
  moreover have "w_providers w' c = Some b \<longrightarrow> b < w_npv w' \<and> pv_conn (w_pv w' b) = Some c \<and>
      finite (pv_services (w_pv w' b))" for c b
    using assms(1) by (auto simp: index_ok_def eff(2-5))
  ultimately show ?thesis unfolding index_ok_def by blast
qed

lemma register_streams_ok:
  assumes "streams_ok w" "registerProvider conn kid ss outgoing w = ((a, e), w')"
  shows "streams_ok w'"
proof -
  note eff = register_effect [OF assms(2)]
  let ?R = "pv_streams (w_pv w' a)"
  have "tables ((pv_streams \<circ> w_pv w)(a := ?R)) ((w_sm w)(0 := w_sm w 0)) (w_nsm w)"
    using assms(1) by (intro tables_drop) (auto simp: streams_ok_def eff(5) split: if_splits)
  moreover have "pv_streams \<circ> w_pv w' = (pv_streams \<circ> w_pv w)(a := ?R)"
    by (rule ext) (simp add: eff(5))
  ultimately show ?thesis by (simp add: streams_ok_def eff(7,8))
qed

lemma deregister_streams_ok:
  assumes "streams_ok w" "deregisterProvider siter iter conn w = (r, w')"
  shows "streams_ok w'"
proof (cases "w_providers w conn")
  case None
  with assms show ?thesis by (simp add: deregisterProvider_def)
next
  case (Some a)
  let ?w = "fold (drop_service conn) (siter (pv_services (w_pv w a)))
    (w\<lparr>w_providers := (w_providers w)(conn := None)\<rparr>)"
  have "streams_ok ?w"
    using assms(1) drop_services [of conn "siter (pv_services (w_pv w a))"
        "w\<lparr>w_providers := (w_providers w)(conn := None)\<rparr>"]
    by (simp add: streams_ok_def)
  then show ?thesis
    using assms(2) Some Provider_Close_ok by (auto simp: deregisterProvider_def Let_def)
qed

lemma stream_ops_index:
  "index_ok (snd (NextStream a w)) = index_ok w"
  "index_ok (snd (RegisterStreamWithServiceRequestPacket a p w)) = index_ok w"
  "index_ok (CloseStreamWithError a x err w) = index_ok w"
proof -
  have fr: "index_ok w' = index_ok w"
    if "w_providers w' = w_providers w" "w_services w' = w_services w" "w_npv w' = w_npv w"
      "\<And>b. pv_services (w_pv w' b) = pv_services (w_pv w b)" "\<And>b. pv_conn (w_pv w' b) = pv_conn (w_pv w b)"
    for w w' :: "'a world"
    using that by (simp add: index_ok_def offering_def)
  show "index_ok (snd (NextStream a w)) = index_ok w"
    by (rule fr) (simp_all add: NextStream_def put_stream_def Let_def)
  show "index_ok (snd (RegisterStreamWithServiceRequestPacket a p w)) = index_ok w"
    by (rule fr) (simp_all add: RegisterStreamWithServiceRequestPacket_def put_stream_def split: option.split)
  show "index_ok (CloseStreamWithError a x err w) = index_ok w"
    by (rule fr) (simp_all add: CloseStreamWithError_def)
qed

section \<open>Histories\<close>

text \<open>Everything the node does to the index and to the stream tables, in any order.\<close>

datatype 'id index_op =
    Register nat "'id option" "gostring list" bool
  | Deregister nat
  | Next nat
  | Incoming nat ServiceRequestPacket
  | CloseStream nat nat goerr

fun index_step ::
  "(gostring set \<Rightarrow> gostring list) \<Rightarrow> (u32 set \<Rightarrow> u32 list) \<Rightarrow> 'id index_op \<Rightarrow> 'id world \<Rightarrow> 'id world" where
  "index_step siter iter (Register c kid ss out) w = snd (registerProvider c kid ss out w)"
| "index_step siter iter (Deregister c) w = snd (deregisterProvider siter iter c w)"
| "index_step siter iter (Next a) w = snd (NextStream a w)"
| "index_step siter iter (Incoming a p) w = snd (RegisterStreamWithServiceRequestPacket a p w)"
| "index_step siter iter (CloseStream a x e) w = CloseStreamWithError a x e w"

definition index_run ::
  "(gostring set \<Rightarrow> gostring list) \<Rightarrow> (u32 set \<Rightarrow> u32 list) \<Rightarrow> 'id index_op list \<Rightarrow> 'id world" where
  "index_run siter iter ops = fold (index_step siter iter) ops new_world"

lemma index_step_ok:
  assumes "map_range siter" "index_ok w" "streams_ok w"
  shows "index_ok (index_step siter iter op w) \<and> streams_ok (index_step siter iter op w)"
proof (cases op)
  case (Register c kid ss out)
  obtain a e w' where "registerProvider c kid ss out w = ((a, e), w')" by (metis prod.exhaust)
  with assms Register show ?thesis by (auto intro: register_index_ok register_streams_ok)
next
  case (Deregister c)
  obtain r w' where "deregisterProvider siter iter c w = (r, w')" by (metis prod.exhaust)
  with assms Deregister show ?thesis by (auto intro: deregister_index_ok deregister_streams_ok)
next
  case (Next a)
  with assms show ?thesis by (simp add: stream_ops_index) (metis NextStream_ok prod.collapse)
next
  case (Incoming a p)
  with assms show ?thesis by (simp add: stream_ops_index) (metis Register_ok prod.collapse)
next
  case (CloseStream a x e)
  with assms show ?thesis by (simp add: stream_ops_index CloseStreamWithError_ok)
qed

lemma streams_ok_new [simp]: "streams_ok new_world"
  by (simp add: streams_ok_def tables_def new_world_def)

lemma index_run_ok:
  assumes "map_range siter"
  shows "index_ok (index_run siter iter ops) \<and> streams_ok (index_run siter iter ops)"
proof -
  have "index_ok w \<Longrightarrow> streams_ok w \<Longrightarrow> index_ok (fold (index_step siter iter) ops w) \<and>
      streams_ok (fold (index_step siter iter) ops w)" for w
    by (induction ops arbitrary: w) (simp_all add: index_step_ok [OF assms])
  then show ?thesis by (simp add: index_run_def)
qed

section \<open>Properties\<close>

lemma count_list_concat: "count_list (concat xss) y = sum_list (map (\<lambda>xs. count_list xs y) xss)"
  by (induction xss) simp_all

lemma count_distinct_map:
  assumes "distinct xs" "\<And>x. x \<in> set xs \<Longrightarrow> f x = y \<longleftrightarrow> x = z"
  shows "count_list (map f xs) y = (if z \<in> set xs then 1 else 0)"
  using assms by (induction xs) auto

lemma sum_list_filter: "(\<Sum>x\<leftarrow>xs. if P x then 1 else 0) = length (filter P xs)"
  by (induction xs) auto

text \<open>
  The result of a lookup holds no nil pointer and only connected providers, and every connected
  provider occurs exactly once for each requested service it advertised.
\<close>

lemma get_providers_exact:
  assumes "map_range siter" and "map_range citer"
    and "w = index_run siter iter ops" and "P = getProviders citer services w"
  shows "None \<notin> set P \<and> (\<forall>a. Some a \<in> set P \<longrightarrow> (\<exists>c. w_providers w c = Some a)) \<and>
    (\<forall>c a. w_providers w c = Some a \<longrightarrow>
       count_list P (Some a) = length (filter (\<lambda>s. s \<in> pv_services (w_pv w a)) services))"
proof -
  have ix: "index_ok w" using index_run_ok [OF assms(1)] assms(3) by blast
  have fin: "finite (offering w s)" for s
    using ix by (auto simp: index_ok_def offering_def split: option.split)
  have it: "set (citer (offering w s)) = offering w s" "distinct (citer (offering w s))" for s
    using assms(2) fin by (simp_all add: map_range.iter_set map_range.iter_distinct)
  have mem: "c \<in> offering w s \<longleftrightarrow> (\<exists>a. w_providers w c = Some a \<and> s \<in> pv_services (w_pv w a))" for c s
    using ix unfolding index_ok_def by blast
  have "count_list P (Some a) = length (filter (\<lambda>s. s \<in> pv_services (w_pv w a)) services)"
    if c: "w_providers w c = Some a" for c a
  proof -
    have "count_list (map (w_providers w) (citer (offering w s))) (Some a) =
        (if s \<in> pv_services (w_pv w a) then 1 else 0)" for s
    proof -
      have "w_providers w x = Some a \<longleftrightarrow> x = c" for x using index_injective [OF ix _ c] c by blast
      then have "count_list (map (w_providers w) (citer (offering w s))) (Some a) =
          (if c \<in> set (citer (offering w s)) then 1 else 0)"
        by (intro count_distinct_map it)
      with mem [of c s] c show ?thesis by (simp add: it)
    qed
    then show ?thesis
      by (simp add: assms(4) getProviders_def map_concat count_list_concat o_def sum_list_filter)
  qed
  moreover have "\<exists>c a. p = Some a \<and> w_providers w c = Some a" if p: "p \<in> set P" for p
  proof -
    obtain c s where "p = w_providers w c" "c \<in> offering w s"
      using p by (auto simp: assms(4) getProviders_def it)
    with mem [of c s] show ?thesis by auto
  qed
  then have "None \<notin> set P" "\<forall>a. Some a \<in> set P \<longrightarrow> (\<exists>c. w_providers w c = Some a)" by blast+
  ultimately show ?thesis by blast
qed

section \<open>The index as a directory\<close>

text \<open>
  What the index promises: a directory that gives every connected peer its identity and the
  services it has advertised. Registering adds to an entry, deregistering removes it, and
  nothing that happens to streams changes it.
\<close>

type_synonym 'id directory = "nat \<rightharpoonup> 'id option \<times> gostring set"

fun directory_step :: "'id index_op \<Rightarrow> 'id directory \<Rightarrow> 'id directory" where
  "directory_step (Register c kid ss out) d =
     d(c \<mapsto> (kid, (case d c of None \<Rightarrow> {} | Some (_, S) \<Rightarrow> S) \<union> set ss))"
| "directory_step (Deregister c) d = d(c := None)"
| "directory_step _ d = d"

definition directory_of :: "'id index_op list \<Rightarrow> 'id directory" where
  "directory_of ops = fold directory_step ops Map.empty"

definition directory_services :: "'id directory \<Rightarrow> gostring \<Rightarrow> nat set option" where
  "directory_services d s =
     (let A = {c. \<exists>kid S. d c = Some (kid, S) \<and> s \<in> S} in if A = {} then None else Some A)"

definition directory_hits :: "'id directory \<Rightarrow> gostring list \<Rightarrow> nat \<Rightarrow> nat" where
  "directory_hits d services c =
     (case d c of None \<Rightarrow> 0 | Some (_, S) \<Rightarrow> length (filter (\<lambda>s. s \<in> S) services))"

text \<open>The abstraction.\<close>

definition directory :: "'id world \<Rightarrow> 'id directory" where
  "directory w c = map_option (\<lambda>a. (pv_kadId (w_pv w a), pv_services (w_pv w a))) (w_providers w c)"

lemma directory_new: "directory new_world = Map.empty"
  by (simp add: directory_def new_world_def fun_eq_iff)

lemma directory_frame:
  assumes "w_providers w' = w_providers w" "\<And>b. pv_services (w_pv w' b) = pv_services (w_pv w b)"
    "\<And>b. pv_kadId (w_pv w' b) = pv_kadId (w_pv w b)"
  shows "directory w' = directory w"
  using assms by (simp add: directory_def fun_eq_iff)

lemma directory_register:
  assumes "index_ok w"
  shows "directory (snd (registerProvider c kid ss out w)) = directory_step (Register c kid ss out) (directory w)"
proof -
  obtain a e w' where r: "registerProvider c kid ss out w = ((a, e), w')" by (metis prod.exhaust)
  note eff = register_effect [OF r]
  have other: "b \<noteq> a" if "w_providers w d = Some b" "d \<noteq> c" for b d
    using that index_injective [OF assms that(1), of c] assms eff(1)
    by (auto simp: index_ok_def split: option.splits)
  show ?thesis
  proof
    fix d
    show "directory (snd (registerProvider c kid ss out w)) d = directory_step (Register c kid ss out) (directory w) d"
    proof (cases "d = c")
      case True
      then show ?thesis using eff(1,2) by (auto simp: r directory_def eff(3,5) split: option.splits)
    next
      case False
      with other [of d] show ?thesis by (cases "w_providers w d") (auto simp: r directory_def eff(3,5))
    qed
  qed
qed

lemma directory_deregister:
  assumes "index_ok w" "map_range siter"
  shows "directory (snd (deregisterProvider siter iter c w)) = (directory w)(c := None)"
proof -
  obtain r w' where d: "deregisterProvider siter iter c w = (r, w')" by (metis prod.exhaust)
  show ?thesis
  proof (cases "w_providers w c")
    case None
    with d show ?thesis by (auto simp: deregisterProvider_def directory_def fun_eq_iff)
  next
    case (Some a)
    note eff = deregister_effect [OF assms Some d]
    show ?thesis by (auto simp: d directory_def eff(2,4,6) fun_eq_iff)
  qed
qed

lemma directory_streams:
  "directory (snd (NextStream a w)) = directory w"
  "directory (snd (RegisterStreamWithServiceRequestPacket a p w)) = directory w"
  "directory (CloseStreamWithError a x e w) = directory w"
  by (rule directory_frame;
      simp add: NextStream_def put_stream_def Let_def RegisterStreamWithServiceRequestPacket_def
        CloseStreamWithError_def split: option.split)+

lemma directory_index_step:
  assumes "index_ok w" "map_range siter"
  shows "directory (index_step siter iter op w) = directory_step op (directory w)"
  using directory_register [OF assms(1)] directory_deregister [OF assms] directory_streams
  by (cases op) simp_all

lemma directory_run:
  assumes "map_range siter"
  shows "directory (index_run siter iter ops) = directory_of ops"
proof -
  have "index_ok w \<Longrightarrow> streams_ok w \<Longrightarrow> directory (fold (index_step siter iter) ops w) = fold directory_step ops (directory w)" for w
    by (induction ops arbitrary: w) (simp_all add: index_step_ok [OF assms] directory_index_step [OF _ assms])
  then show ?thesis by (simp add: index_run_def directory_of_def directory_new)
qed

lemma services_directory:
  assumes "index_ok w"
  shows "w_services w = directory_services (directory w)"
proof
  fix s
  have "c \<in> offering w s \<longleftrightarrow> (\<exists>kid S. directory w c = Some (kid, S) \<and> s \<in> S)" for c
    using assms by (auto simp: index_ok_def directory_def)
  then have "{c. \<exists>kid S. directory w c = Some (kid, S) \<and> s \<in> S} = offering w s" by blast
  moreover have "w_services w s = (if offering w s = {} then None else Some (offering w s))"
    using assms by (auto simp: index_ok_def offering_def split: option.split)
  ultimately show "w_services w s = directory_services (directory w) s"
    by (simp add: directory_services_def)
qed

lemma map_the_count:
  assumes "None \<notin> set P" "\<And>b. Some b \<in> set P \<Longrightarrow> f b = f a \<longleftrightarrow> b = a"
  shows "count_list (map (\<lambda>p. f (the p)) P) (f a) = count_list P (Some a)"
  using assms
proof (induction P)
  case (Cons p P)
  then show ?case by (cases p) auto
qed simp

lemma lookup_directory:
  assumes "map_range siter" "map_range citer" "w = index_run siter iter ops" "P = getProviders citer services w"
  shows "None \<notin> set P \<and> count_list (map (\<lambda>p. pv_conn (w_pv w (the p))) P) (Some c) = directory_hits (directory w) services c"
proof -
  have ix: "index_ok w" using index_run_ok [OF assms(1)] assms(3) by blast
  have none: "None \<notin> set P" and members: "\<And>b. Some b \<in> set P \<Longrightarrow> \<exists>c. w_providers w c = Some b"
    and hits: "\<And>c a. w_providers w c = Some a \<Longrightarrow>
      count_list P (Some a) = length (filter (\<lambda>s. s \<in> pv_services (w_pv w a)) services)"
    using get_providers_exact [OF assms] by blast+
  have owner: "pv_conn (w_pv w b) = Some d" if "w_providers w d = Some b" for b d
    using ix that by (simp add: index_ok_def)
  have conn: "w_providers w d = Some b" if P: "Some b \<in> set P" "pv_conn (w_pv w b) = Some d" for b d
  proof -
    obtain c where "w_providers w c = Some b" using members [OF P(1)] by blast
    with owner [OF this] P(2) show ?thesis by simp
  qed
  show ?thesis
  proof (cases "w_providers w c")
    case None
    have "Some c \<notin> set (map (\<lambda>p. pv_conn (w_pv w (the p))) P)"
    proof
      assume "Some c \<in> set (map (\<lambda>p. pv_conn (w_pv w (the p))) P)"
      then obtain p where p: "p \<in> set P" "pv_conn (w_pv w (the p)) = Some c" by auto
      with none obtain b where "p = Some b" by (cases p) auto
      with conn [of b c] p None show False by simp
    qed
    with None none show ?thesis by (simp add: directory_hits_def directory_def count_list_0_iff del: set_map)
  next
    case (Some a)
    have "pv_conn (w_pv w b) = pv_conn (w_pv w a) \<longleftrightarrow> b = a" if "Some b \<in> set P" for b
      using conn [OF that, of c] owner [OF Some] Some by auto
    from map_the_count [OF none this] owner [OF Some]
    have "count_list (map (\<lambda>p. pv_conn (w_pv w (the p))) P) (Some c) = count_list P (Some a)" by simp
    with hits [OF Some] none Some show ?thesis by (simp add: directory_hits_def directory_def)
  qed
qed

text \<open>So a connection leaves no trace in the index.\<close>

lemma deregister_undoes_register:
  assumes "map_range siter" and "w = index_run siter iter ops" and "w_providers w conn = None"
    and "registerProvider conn kid services outgoing w = ((a, e), w')"
    and "deregisterProvider siter iter conn w' = (r, w'')"
  shows "\<not> e \<and> r = Some a \<and> w_providers w'' = w_providers w \<and> w_services w'' = w_services w"
proof -
  have ix: "index_ok w" using index_run_ok [OF assms(1)] assms(2) by blast
  note ix' = register_index_ok [OF ix assms(4)]
  note ix'' = deregister_index_ok [OF ix' assms(1,5)]
  note reg = register_effect [OF assms(4)]
  have a: "w_providers w' conn = Some a" "\<not> e" using reg(2,3) assms(3) by simp_all
  note dereg = deregister_effect [OF ix' assms(1) a(1) assms(5)]
  have "directory w conn = None" using assms(3) by (simp add: directory_def)
  then have "directory w'' = directory w"
    using directory_register [OF ix, of conn kid services outgoing] directory_deregister [OF ix' assms(1), of iter conn]
    by (simp add: assms(4,5) fun_upd_idem)
  then have "w_services w'' = w_services w" by (simp add: services_directory ix ix'')
  moreover have "w_providers w'' = w_providers w" using assms(3) by (auto simp: dereg(2) reg(3))
  ultimately show ?thesis using a(2) dereg(1) by blast
qed

section \<open>The refinement\<close>

text \<open>
  (C9) The index of providers implements a directory: after any history of connections,
  disconnections and streams, in any order, the two maps of the index are exactly the directory
  that the same history gives, a lookup by connection finds a provider with the identity and the
  services of the directory, and a lookup by services yields no nil pointer, every connected
  provider once for each requested service it has advertised, and nobody else. The directory is
  the whole of the index: two histories with the same directory have the same service map, so a
  connection that comes and goes leaves no trace.
\<close>

theorem provider_index_refines:
  assumes "map_range siter" and "map_range citer"
    and "w = index_run siter iter ops" and "P = getProviders citer services w"
  shows "directory w = directory_of ops \<and> w_services w = directory_services (directory_of ops) \<and>
    map_option (\<lambda>a. (pv_kadId (w_pv w a), pv_services (w_pv w a))) (FindProvider c w) = directory_of ops c \<and>
    None \<notin> set P \<and>
    count_list (map (\<lambda>p. pv_conn (w_pv w (the p))) P) (Some c) = directory_hits (directory_of ops) services c"
proof -
  have d: "directory w = directory_of ops" by (simp add: assms(3) directory_run [OF assms(1)])
  moreover have "index_ok w" using index_run_ok [OF assms(1)] assms(3) by blast
  ultimately show ?thesis
    using services_directory [of w] lookup_directory [OF assms] by (auto simp: FindProvider_def directory_def [symmetric])
qed

definition two_providers :: "unit index_op list" where
  "two_providers = [Register 7 None [[97], [98]] False, Register 8 (Some ()) [[98]] True, Next 0,
     Register 7 (Some ()) [[99]] True, Register 9 None [[98]] False, Deregister 9]"

theorem provider_index_refines_witness:
  "directory_of two_providers = [7 \<mapsto> (Some (), {[97], [98], [99]}), 8 \<mapsto> (Some (), {[98]})] \<and>
   w_services (index_run sorted_list_of_set sorted_list_of_set two_providers) [98] = Some {7, 8} \<and>
   directory_hits (directory_of two_providers) [[97], [98]] 7 = 2"
proof -
  have d: "directory_of two_providers = [7 \<mapsto> (Some (), {[97], [98], [99]}), 8 \<mapsto> (Some (), {[98]})]"
    by (auto simp: directory_of_def two_providers_def fun_eq_iff)
  moreover have "{c. \<exists>kid S. directory_of two_providers c = Some (kid, S) \<and> [98] \<in> S} = {7, 8}"
    by (auto simp: d split: if_splits)
  ultimately show ?thesis
    using provider_index_refines [OF sorted_range.map_range_axioms sorted_range.map_range_axioms
        refl refl, of sorted_list_of_set two_providers 7 "[[97], [98]]"]
    by (auto simp: directory_services_def directory_hits_def)
qed

end
