(* ===== verification/Kademlia.thy ===== *)
theory Kademlia
  imports Bytesutil
begin

text \<open>
  The parts of \<^verbatim>\<open>github.com/lithdew/kademlia\<close> that carlo calls. The package is not part of
  the repository: identities and routing tables are type parameters, and the functions are
  the fields of a record that the definitions using them take as an argument. The locale
  \<open>kademlia_spec\<close> names what carlo relies on: an identity that validates survives encoding
  and decoding and leaves the bytes behind it unread, decoding never panics, a signature has
  a fixed size, and a signature made with a secret key verifies under its public key. The
  locale is interpreted on a concrete encoding at the end of the theory.
\<close>

record ('id, 'tab) kademlia =
  ID_Pub :: "'id \<Rightarrow> bytes"
  ID_Host :: "'id \<Rightarrow> bytes"
  ID_Port :: "'id \<Rightarrow> u16"
  ID_AppendTo :: "'id \<Rightarrow> bytes \<Rightarrow> bytes"
  UnmarshalID :: "bytes \<Rightarrow> ('id \<times> bytes) result"
  ID_Validate :: "'id \<Rightarrow> goerr option"
  SizeSignature :: nat
  PrivateKey_Sign :: "bytes \<Rightarrow> bytes \<Rightarrow> bytes"
  Signature_Verify :: "bytes \<Rightarrow> bytes \<Rightarrow> bytes \<Rightarrow> bool"
  FindNodeRequest_AppendTo :: "bytes \<Rightarrow> bytes \<Rightarrow> bytes"
  UnmarshalFindNodeRequest :: "bytes \<Rightarrow> (bytes \<times> bytes) result"
  FindNodeResponse_AppendTo :: "'id list \<Rightarrow> bytes \<Rightarrow> bytes"
  UnmarshalFindNodeResponse :: "bytes \<Rightarrow> ('id list \<times> bytes) result"
  Table_ClosestTo :: "'tab \<Rightarrow> bytes \<Rightarrow> nat \<Rightarrow> 'id list"
  Table_Update :: "'tab \<Rightarrow> 'id \<Rightarrow> 'tab"
  Table_Delete :: "'tab \<Rightarrow> bytes \<Rightarrow> 'tab"
  DefaultBucketSize :: nat

locale kademlia_spec =
  fixes kad :: "('id, 'tab) kademlia" and keypair :: "bytes \<Rightarrow> bytes \<Rightarrow> bool"
  assumes ID_appends: "ID_AppendTo kad i dst = dst @ ID_AppendTo kad i []"
    and ID_decode: "ID_Validate kad i = None \<Longrightarrow>
      UnmarshalID kad (ID_AppendTo kad i [] @ rest) = Ok (i, rest)"
    and ID_no_panic: "UnmarshalID kad b \<noteq> Panic m"
    and find_no_panic: "UnmarshalFindNodeRequest kad b \<noteq> Panic m"
    and sign_size: "length (PrivateKey_Sign kad sk msg) = SizeSignature kad"
    and sign_verify: "keypair sk pub \<Longrightarrow>
      Signature_Verify kad (PrivateKey_Sign kad sk msg) pub msg"

section \<open>A concrete instance\<close>

text \<open>
  An identity is a public key, a host and a port, written with one-byte lengths; the table
  is the list of known identities.
\<close>

type_synonym kid = "bytes \<times> bytes \<times> u16"

fun kid_append :: "kid \<Rightarrow> bytes \<Rightarrow> bytes" where
  "kid_append (pub, host, port) dst =
     dst @ len8 pub # pub @ len8 host # host @ be_put16 port"

fun kid_unmarshal :: "bytes \<Rightarrow> (kid \<times> bytes) result" where
  "kid_unmarshal [] = Err ErrUnexpectedEOF"
| "kid_unmarshal (n # xs) =
     (case drop (unat n) xs of
        [] \<Rightarrow> Err ErrUnexpectedEOF
      | h # ys \<Rightarrow>
          if length ys < unat h + 2 then Err ErrUnexpectedEOF
          else Ok ((take (unat n) xs, take (unat h) ys, be_get16 (drop (unat h) ys)),
                   drop (unat h + 2) ys))"

fun kid_list :: "nat \<Rightarrow> bytes \<Rightarrow> (kid list \<times> bytes) result" where
  "kid_list 0 xs = Ok ([], xs)"
| "kid_list (Suc n) xs =
     (case kid_unmarshal xs of
        Err e \<Rightarrow> Err e
      | Panic m \<Rightarrow> Panic m
      | Ok (i, ys) \<Rightarrow>
          (case kid_list n ys of Err e \<Rightarrow> Err e | Panic m \<Rightarrow> Panic m | Ok (is, zs) \<Rightarrow> Ok (i # is, zs)))"

definition kid_response :: "bytes \<Rightarrow> (kid list \<times> bytes) result" where
  "kid_response b = (case b of [] \<Rightarrow> Err ErrUnexpectedEOF | n # xs \<Rightarrow> kid_list (unat n) xs)"

definition kid_validate :: "kid \<Rightarrow> goerr option" where
  "kid_validate i = (case i of (pub, host, _) \<Rightarrow>
     if length pub < 256 \<and> length host < 256 then None else Some (ErrNew ''bad id''))"

definition kad_sign :: "bytes \<Rightarrow> bytes \<Rightarrow> bytes" where
  "kad_sign sk msg = take 64 (sk @ msg @ replicate 64 0)"

definition kad_model :: "(kid, kid list) kademlia" where
  "kad_model = \<lparr>
     ID_Pub = fst, ID_Host = (\<lambda>i. fst (snd i)), ID_Port = (\<lambda>i. snd (snd i)),
     ID_AppendTo = kid_append, UnmarshalID = kid_unmarshal, ID_Validate = kid_validate,
     SizeSignature = 64, PrivateKey_Sign = kad_sign,
     Signature_Verify = (\<lambda>sig pub msg. sig = kad_sign pub msg),
     FindNodeRequest_AppendTo = (\<lambda>target dst. dst @ target),
     UnmarshalFindNodeRequest = (\<lambda>b. Ok (b, [])),
     FindNodeResponse_AppendTo = (\<lambda>ids dst. foldl (\<lambda>d i. kid_append i d) (dst @ [len8 ids]) ids),
     UnmarshalFindNodeResponse = kid_response,
     Table_ClosestTo = (\<lambda>t target n. take n t),
     Table_Update = (\<lambda>t i. i # filter (\<lambda>j. fst j \<noteq> fst i) t),
     Table_Delete = (\<lambda>t pub. filter (\<lambda>j. fst j \<noteq> pub) t),
     DefaultBucketSize = 16 \<rparr>"

lemma kid_unmarshal_append:
  assumes "kid_validate i = None"
  shows "kid_unmarshal (kid_append i [] @ rest) = Ok (i, rest)"
proof (cases i)
  case (fields pub host port)
  with assms have "length pub < 256" "length host < 256"
    by (auto simp: kid_validate_def split: if_splits)
  then show ?thesis by (simp add: fields unat_len8)
qed

lemma kid_list_append:
  "\<forall>i \<in> set is. kid_validate i = None \<Longrightarrow>
     kid_list (length is) (concat (map (\<lambda>i. kid_append i []) is) @ rest) = Ok (is, rest)"
  by (induction "is") (simp_all add: kid_unmarshal_append)

lemma kid_response_decodes:
  assumes "\<forall>i \<in> set is. kid_validate i = None" "length is < 256"
  shows "kid_response (len8 is # concat (map (\<lambda>i. kid_append i []) is)) = Ok (is, [])"
  using kid_list_append [OF assms(1), of "[]"] assms(2) by (simp add: kid_response_def unat_len8)

lemma kid_append_appends: "kid_append i dst = dst @ kid_append i []"
  by (cases i) simp

lemma kid_unmarshal_no_panic: "kid_unmarshal b \<noteq> Panic m"
  by (cases b) (auto split: list.split)

interpretation km: kademlia_spec kad_model "(=)"
proof unfold_locales
  show "ID_AppendTo kad_model i dst = dst @ ID_AppendTo kad_model i []" for i dst
    by (simp add: kad_model_def) (rule kid_append_appends)
qed (auto simp: kad_model_def kad_sign_def kid_unmarshal_append kid_unmarshal_no_panic)

end
