(* ===== verification/Rpc_Handshake.thy ===== *)
theory Rpc_Handshake
  imports Rpc_Packets Kademlia
begin

text \<open>
  \<^verbatim>\<open>streaming_rpc/handshakepacket.go\<close>: the handshake packet, the payload its signature
  covers, its codec and its validation, with \<^verbatim>\<open>utf8.ValidString\<close> of the standard library.
  The codec interprets \<open>packet_codec\<close> for every identity package that meets
  \<open>kademlia_spec\<close>.
\<close>

record 'id HandshakePacket =
  hs_KadId :: "'id option"
  hs_Services :: "gostring list"
  hs_Signature :: bytes

section \<open>UTF-8\<close>

definition in_range :: "byte \<Rightarrow> byte \<Rightarrow> byte \<Rightarrow> bool" where
  "in_range lo hi b \<longleftrightarrow> lo \<le> b \<and> b \<le> hi"

text \<open>The range of the second byte that the first byte of a sequence allows.\<close>

definition utf8_second :: "byte \<Rightarrow> byte \<Rightarrow> bool" where
  "utf8_second a b =
     (if a = 0xE0 then in_range 0xA0 0xBF b
      else if a = 0xED then in_range 0x80 0x9F b
      else if a = 0xF0 then in_range 0x90 0xBF b
      else if a = 0xF4 then in_range 0x80 0x8F b
      else in_range 0x80 0xBF b)"

fun ValidString :: "bytes \<Rightarrow> bool" where
  "ValidString [] = True"
| "ValidString (a # xs) =
     (if a < 0x80 then ValidString xs
      else if in_range 0xC2 0xDF a then
        (case xs of b # ys \<Rightarrow> utf8_second a b \<and> ValidString ys | _ \<Rightarrow> False)
      else if in_range 0xE0 0xEF a then
        (case xs of b # c # ys \<Rightarrow> utf8_second a b \<and> in_range 0x80 0xBF c \<and> ValidString ys
         | _ \<Rightarrow> False)
      else if in_range 0xF0 0xF4 a then
        (case xs of b # c # d # ys \<Rightarrow>
           utf8_second a b \<and> in_range 0x80 0xBF c \<and> in_range 0x80 0xBF d \<and> ValidString ys
         | _ \<Rightarrow> False)
      else False)"

section \<open>Encoding and decoding\<close>

text \<open>The bytes the signature covers: the identity, then the services with no separator.\<close>

definition HandshakePacket_AppendPayloadTo ::
  "('id, 'tab) kademlia \<Rightarrow> 'id HandshakePacket \<Rightarrow> bytes \<Rightarrow> bytes result" where
  "HandshakePacket_AppendPayloadTo kad h dst =
     (case hs_KadId h of
        None \<Rightarrow> Panic ''nil pointer dereference''
      | Some i \<Rightarrow> Ok (foldl (@) (ID_AppendTo kad i dst) (hs_Services h)))"

definition HandshakePacket_AppendTo ::
  "('id, 'tab) kademlia \<Rightarrow> 'id HandshakePacket \<Rightarrow> bytes \<Rightarrow> bytes" where
  "HandshakePacket_AppendTo kad h dst =
     (let dst = (case hs_KadId h of
                   Some i \<Rightarrow> ID_AppendTo kad i (dst @ [1])
                 | None \<Rightarrow> dst @ [0]);
          dst = dst @ [len8 (hs_Services h)];
          dst = append_services (hs_Services h) dst
      in case hs_KadId h of Some _ \<Rightarrow> dst @ hs_Signature h | None \<Rightarrow> dst)"

text \<open>The part of \<^verbatim>\<open>UnmarshalHandshakePacket\<close> behind the identity.\<close>

definition unmarshal_services_signature ::
  "('id, 'tab) kademlia \<Rightarrow> 'id option \<Rightarrow> bytes \<Rightarrow> 'id HandshakePacket result" where
  "unmarshal_services_signature kad kid buf =
     (case buf of
        [] \<Rightarrow> Err ErrUnexpectedEOF
      | sz # buf \<Rightarrow>
          if length buf < unat sz then Err ErrUnexpectedEOF
          else case parse_services (unat sz) buf of
              Err e \<Rightarrow> Err e
            | Panic s \<Rightarrow> Panic s
            | Ok (services, buf) \<Rightarrow>
                (case kid of
                   None \<Rightarrow> Ok \<lparr>hs_KadId = None, hs_Services = services,
                              hs_Signature = replicate (SizeSignature kad) 0\<rparr>
                 | Some i \<Rightarrow>
                     if length buf < SizeSignature kad then Err ErrUnexpectedEOF
                     else Ok \<lparr>hs_KadId = Some i, hs_Services = services,
                             hs_Signature = take (SizeSignature kad) buf\<rparr>))"

definition UnmarshalHandshakePacket ::
  "('id, 'tab) kademlia \<Rightarrow> bytes \<Rightarrow> 'id HandshakePacket result" where
  "UnmarshalHandshakePacket kad buf =
     (case buf of
        [] \<Rightarrow> Err ErrUnexpectedEOF
      | b0 # buf \<Rightarrow>
          if b0 = 1
          then case UnmarshalID kad buf of
                 Err e \<Rightarrow> Err e
               | Panic s \<Rightarrow> Panic s
               | Ok (i, leftover) \<Rightarrow> unmarshal_services_signature kad (Some i) leftover
          else unmarshal_services_signature kad None buf)"

section \<open>Validation\<close>

fun validate_services :: "gostring list \<Rightarrow> goerr option" where
  "validate_services [] = None"
| "validate_services (service # ss) =
     (if \<not> ValidString service
      then Some (Errorf ''service '%s' in hello packet is not valid utf8'' [ArgStr service])
      else if length service > 255
      then Some (Errorf ''service '%s' in hello packet is too large - must <= %d bytes''
             [ArgStr service, ArgNat 255])
      else validate_services ss)"

definition HandshakePacket_Validate ::
  "('id, 'tab) kademlia \<Rightarrow> 'id HandshakePacket \<Rightarrow> bytes \<Rightarrow> goerr option result" where
  "HandshakePacket_Validate kad h dst =
     (case (case hs_KadId h of None \<Rightarrow> None | Some i \<Rightarrow> ID_Validate kad i) of
        Some err \<Rightarrow> Ok (Some err)
      | None \<Rightarrow>
          (case validate_services (hs_Services h) of
             Some err \<Rightarrow> Ok (Some err)
           | None \<Rightarrow>
               (case hs_KadId h of
                  None \<Rightarrow> Ok None
                | Some i \<Rightarrow>
                    (case HandshakePacket_AppendPayloadTo kad h dst of
                       Ok payload \<Rightarrow>
                         Ok (if \<not> Signature_Verify kad (hs_Signature h) (ID_Pub kad i) payload
                             then Some (ErrNew ''signature is malformed'') else None)
                     | Err e \<Rightarrow> Err e
                     | Panic s \<Rightarrow> Panic s))))"

section \<open>Lemmas\<close>

lemma foldl_append_concat: "foldl (@) a xss = a @ concat xss"
  by (induction xss arbitrary: a) auto

lemma AppendPayloadTo_eq:
  "hs_KadId h = Some i \<Longrightarrow>
     HandshakePacket_AppendPayloadTo kad h dst = Ok (ID_AppendTo kad i dst @ concat (hs_Services h))"
  by (simp add: HandshakePacket_AppendPayloadTo_def foldl_append_concat)

lemma validate_services_None:
  "validate_services ss = None \<longleftrightarrow> (\<forall>s \<in> set ss. ValidString s \<and> length s \<le> 255)"
  by (induction ss) auto

lemma Validate_ok_iff:
  "HandshakePacket_Validate kad h dst = Ok None \<longleftrightarrow>
     (\<forall>s \<in> set (hs_Services h). ValidString s \<and> length s \<le> 255) \<and>
     (\<forall>i. hs_KadId h = Some i \<longrightarrow> ID_Validate kad i = None \<and>
        Signature_Verify kad (hs_Signature h) (ID_Pub kad i)
          (ID_AppendTo kad i dst @ concat (hs_Services h)))"
  by (auto simp: HandshakePacket_Validate_def AppendPayloadTo_eq validate_services_None [symmetric]
      split: option.splits if_splits)

lemma Validate_no_panic: "\<not> is_panic (HandshakePacket_Validate kad h dst)"
  by (auto simp: HandshakePacket_Validate_def AppendPayloadTo_eq split: option.split)

lemma length_append_services:
  "length ss \<le> length (concat (map (\<lambda>s. len8 s # s) ss))"
  by (induction ss) auto

definition handshake_fits :: "('id, 'tab) kademlia \<Rightarrow> 'id HandshakePacket \<Rightarrow> bool" where
  "handshake_fits kad h \<longleftrightarrow> services_fit (hs_Services h) \<and>
     (case hs_KadId h of None \<Rightarrow> True
      | Some i \<Rightarrow> ID_Validate kad i = None \<and> length (hs_Signature h) = SizeSignature kad)"

definition handshake_normal ::
  "('id, 'tab) kademlia \<Rightarrow> 'id HandshakePacket \<Rightarrow> 'id HandshakePacket" where
  "handshake_normal kad h =
     (case hs_KadId h of None \<Rightarrow> h\<lparr>hs_Signature := replicate (SizeSignature kad) 0\<rparr> | Some _ \<Rightarrow> h)"

context kademlia_spec
begin

lemma unmarshal_services_signature_ok:
  assumes "services_fit ss" and "\<And>i. kid = Some i \<Longrightarrow> length sig = SizeSignature kad"
  shows "unmarshal_services_signature kad kid
      (len8 ss # concat (map (\<lambda>s. len8 s # s) ss) @ (case kid of None \<Rightarrow> [] | Some _ \<Rightarrow> sig)) =
    Ok (handshake_normal kad \<lparr>hs_KadId = kid, hs_Services = ss, hs_Signature = sig\<rparr>)"
  using assms length_append_services [of ss]
  by (auto simp: unmarshal_services_signature_def services_fit_def unat_len8 parse_append_services
      handshake_normal_def split: option.split)

lemma HandshakePacket_AppendTo_eq:
  "HandshakePacket_AppendTo kad h dst =
     dst @ (case hs_KadId h of None \<Rightarrow> [0] | Some i \<Rightarrow> 1 # ID_AppendTo kad i []) @
       len8 (hs_Services h) # concat (map (\<lambda>s. len8 s # s) (hs_Services h)) @
       (case hs_KadId h of None \<Rightarrow> [] | Some _ \<Rightarrow> hs_Signature h)"
  by (simp add: HandshakePacket_AppendTo_def Let_def append_services_eq ID_appends [of _ "dst @ [1]"]
      split: option.split)

end

sublocale kademlia_spec \<subseteq> hand: packet_codec
  "HandshakePacket_AppendTo kad" "UnmarshalHandshakePacket kad"
  "handshake_fits kad" "handshake_normal kad"
proof unfold_locales
  fix p :: "'id HandshakePacket" and dst
  show "HandshakePacket_AppendTo kad p dst = dst @ HandshakePacket_AppendTo kad p []"
    by (simp add: HandshakePacket_AppendTo_eq)
  assume fits: "handshake_fits kad p"
  show "UnmarshalHandshakePacket kad (HandshakePacket_AppendTo kad p []) = Ok (handshake_normal kad p)"
  proof (cases p)
    case (fields kid ss sig)
    with fits show ?thesis
      using unmarshal_services_signature_ok [of ss kid sig]
      by (cases kid)
        (auto simp: UnmarshalHandshakePacket_def HandshakePacket_AppendTo_eq handshake_fits_def ID_decode)
  qed
qed

context kademlia_spec
begin

lemmas handshake_decodes = hand.decode and handshake_tagged = hand.tagged

lemma unmarshal_services_signature_no_panic:
  "\<not> is_panic (unmarshal_services_signature kad kid buf)"
  using parse_services_no_panic
  by (auto simp: unmarshal_services_signature_def split: list.split result.splits option.split)
    (metis is_panic_simps(3))

lemma handshake_no_panic: "\<not> is_panic (UnmarshalHandshakePacket kad buf)"
  using unmarshal_services_signature_no_panic
  by (auto simp: UnmarshalHandshakePacket_def ID_no_panic split: list.split result.split)

end

section \<open>Properties\<close>

text \<open>
  (C23) Handshakes round trip: a handshake whose services fit, with a valid identity and a
  signature of the right size or with no identity at all, decodes to itself; without an
  identity no signature is sent and the decoded signature is all zero.
\<close>

theorem handshake_roundtrip:
  assumes "kademlia_spec kad keypair" and "handshake_fits kad h"
  shows "UnmarshalHandshakePacket kad (drop (length dst) (HandshakePacket_AppendTo kad h dst)) =
    Ok (handshake_normal kad h)"
  using kademlia_spec.handshake_tagged [OF assms] .

definition example_kid :: kid where
  "example_kid = ([1, 2, 3], [127, 0, 0, 1], 9000)"

definition example_handshake :: "kid HandshakePacket" where
  "example_handshake = \<lparr>hs_KadId = Some example_kid, hs_Services = [[97, 98], [99]],
     hs_Signature = kad_sign [1, 2, 3] (kid_append example_kid [] @ [97, 98, 99])\<rparr>"

theorem handshake_roundtrip_witness:
  "UnmarshalHandshakePacket kad_model
     (drop (length [0 :: byte]) (HandshakePacket_AppendTo kad_model example_handshake [0])) =
   Ok (handshake_normal kad_model example_handshake)"
  by (rule handshake_roundtrip [OF km.kademlia_spec_axioms])
    (simp add: handshake_fits_def example_handshake_def services_fit_def example_kid_def
      kad_model_def kid_validate_def kad_sign_def)

text \<open>
  Whatever bytes a peer sends as a handshake, decoding and then validating the result
  returns: neither step panics, as long as decoding the identity does not.
\<close>

lemma handshake_decode_validate_no_panic:
  assumes "kademlia_spec kad keypair"
  shows "\<not> is_panic (UnmarshalHandshakePacket kad buf) \<and>
    \<not> is_panic (HandshakePacket_Validate kad h dst)"
  using kademlia_spec.handshake_no_panic [OF assms] Validate_no_panic by blast

text \<open>
  What a validated handshake guarantees, exactly: every advertised service is valid
  UTF-8 of at most 255 bytes, and an advertised identity is itself valid and has signed the
  identity followed by the services.
\<close>

lemma handshake_validate_exact:
  "HandshakePacket_Validate kad h dst = Ok None \<longleftrightarrow>
     (\<forall>s \<in> set (hs_Services h). ValidString s \<and> length s \<le> 255) \<and>
     (\<forall>i. hs_KadId h = Some i \<longrightarrow> ID_Validate kad i = None \<and>
        Signature_Verify kad (hs_Signature h) (ID_Pub kad i)
          (ID_AppendTo kad i dst @ concat (hs_Services h)))"
  by (rule Validate_ok_iff)

text \<open>
  (C32) The signature does not fix the service names: the signed payload has no separators, so
  a validated handshake stays valid, under the same signature, when its services are split or
  joined differently.
\<close>

theorem handshake_signature_regroups:
  assumes "HandshakePacket_Validate kad h dst = Ok None"
    and "concat ss = concat (hs_Services h)"
    and "\<forall>s \<in> set ss. ValidString s \<and> length s \<le> 255"
  shows "HandshakePacket_Validate kad (h\<lparr>hs_Services := ss\<rparr>) dst = Ok None"
  using assms by (auto simp: Validate_ok_iff)

theorem handshake_signature_regroups_witness:
  "HandshakePacket_Validate kad_model (example_handshake\<lparr>hs_Services := [[97], [98, 99]]\<rparr>) [] = Ok None"
  by (rule handshake_signature_regroups)
    (simp_all add: Validate_ok_iff example_handshake_def example_kid_def kad_model_def
      kid_validate_def in_range_def)

end
