(* ===== verification/Rpc_Context.thy ===== *)
theory Rpc_Context
  imports Rpc_Providers Rpc_Handshake
begin

text \<open>
  \<^verbatim>\<open>streaming_rpc/context.go\<close>, \<^verbatim>\<open>contextpool.go\<close> and the sending half of
  \<^verbatim>\<open>provider.go\<close>: how a handler's response and a request's body are cut into packets. What
  \<^verbatim>\<open>Conn.Send\<close> returns is decided by the connection: \<open>env k\<close> is the outcome of the \<open>k\<close>-th send,
  and the messages handed to the connection are collected in order.
\<close>

definition ChunkSize :: nat where "ChunkSize = 2048"

definition OpCodeHandshake :: u8 where "OpCodeHandshake = 0"
definition OpCodeServiceRequest :: u8 where "OpCodeServiceRequest = 1"
definition OpCodeServiceResponse :: u8 where "OpCodeServiceResponse = 2"
definition OpCodeData :: u8 where "OpCodeData = 3"
definition OpCodeFindNodeRequest :: u8 where "OpCodeFindNodeRequest = 4"
definition OpCodeFindNodeResponse :: u8 where "OpCodeFindNodeResponse = 5"

lemmas opcode_defs = OpCodeHandshake_def OpCodeServiceRequest_def OpCodeServiceResponse_def
  OpCodeData_def OpCodeFindNodeRequest_def OpCodeFindNodeResponse_def

type_synonym outcomes = "nat \<Rightarrow> goerr option"

definition Send :: "outcomes \<Rightarrow> bytes \<Rightarrow> bytes list \<Rightarrow> goerr option \<times> bytes list" where
  "Send env m out = (env (length out), out @ [m])"

section \<open>Contexts\<close>

record 'id RpcContext =
  rc_KadId :: 'id
  rc_Headers :: headers
  rc_Body :: nat
  rc_streamId :: u32
  rc_conn :: nat
  rc_responseHeaders :: "(gostring \<times> gostring) list"
  rc_written :: bool

definition WriteHeader :: "gostring \<Rightarrow> gostring \<Rightarrow> 'id RpcContext \<Rightarrow> 'id RpcContext" where
  "WriteHeader key val c = c\<lparr>rc_responseHeaders := AList.update key val (rc_responseHeaders c)\<rparr>"

text \<open>The loop over the chunks, from index \<open>i\<close> on.\<close>

function write_chunks ::
  "bytesutil \<Rightarrow> outcomes \<Rightarrow> u32 \<Rightarrow> bytes \<Rightarrow> nat \<Rightarrow> bytes list \<Rightarrow> goerr option \<times> bytes list" where
  "write_chunks bu env sid data i out =
     (if i < length data
      then
        (let end = (if i + ChunkSize > length data then length data else i + ChunkSize);
             packet = \<lparr>dp_StreamID = sid, dp_Data = take (end - i) (drop i data)\<rparr>
         in case Send env (DataPacket_AppendTo bu packet [OpCodeData]) out of
              (Some err, out) \<Rightarrow> (Some err, out)
            | (None, out) \<Rightarrow> write_chunks bu env sid data (i + ChunkSize) out)
      else (None, out))"
  by pat_completeness auto
termination
  by (relation "measure (\<lambda>(bu, env, sid, data, i, out). length data - i)") (auto simp: ChunkSize_def)

declare write_chunks.simps [simp del]

definition response_packet :: "u32 \<Rightarrow> bool \<Rightarrow> headers \<Rightarrow> ServiceResponsePacket" where
  "response_packet sid handled hs = \<lparr>resp_StreamId = sid, resp_Handled = handled, resp_Headers = hs\<rparr>"

text \<open>\<^verbatim>\<open>(*Context).Write\<close>: the number of bytes or the error.\<close>

definition Context_Write ::
  "bytesutil \<Rightarrow> outcomes \<Rightarrow> 'id RpcContext \<Rightarrow> bytes \<Rightarrow> bytes list \<Rightarrow>
   (goerr + nat) \<times> 'id RpcContext \<times> bytes list" where
  "Context_Write bu env c data out =
     (if length data = 0 then (Inr 0, c, out)
      else
        (case (if \<not> rc_written c
               then (case Send env (ServiceResponsePacket_AppendTo bu
                            (response_packet (rc_streamId c) True (Some (rc_responseHeaders c)))
                            [OpCodeServiceResponse]) out of
                       (err, out) \<Rightarrow> (err, c\<lparr>rc_written := True\<rparr>, out))
               else (None, c, out)) of
           (Some err, c, out) \<Rightarrow> (Inl err, c, out)
         | (None, c, out) \<Rightarrow>
             (case write_chunks bu env (rc_streamId c) data 0 out of
                (Some err, out) \<Rightarrow> (Inl err, c, out)
              | (None, out) \<Rightarrow> (Inr (length data), c, out))))"

section \<open>The pool of contexts\<close>

definition RpcContextPool_acquire ::
  "'id \<Rightarrow> headers \<Rightarrow> nat \<Rightarrow> u32 \<Rightarrow> nat \<Rightarrow> 'id RpcContext list \<Rightarrow> nat option \<Rightarrow>
   'id RpcContext \<times> 'id RpcContext list" where
  "RpcContextPool_acquire kid hs body sid conn p pick =
     (case (case pick of
              Some i \<Rightarrow> if i < length p then (p ! i, take i p @ drop (Suc i) p)
                       else (\<lparr>rc_KadId = kid, rc_Headers = None, rc_Body = 0, rc_streamId = 0, rc_conn = 0,
                             rc_responseHeaders = [], rc_written = False\<rparr>, p)
            | None \<Rightarrow> (\<lparr>rc_KadId = kid, rc_Headers = None, rc_Body = 0, rc_streamId = 0, rc_conn = 0,
                       rc_responseHeaders = [], rc_written = False\<rparr>, p)) of
        (ctx, p) \<Rightarrow>
          (ctx\<lparr>rc_KadId := kid, rc_Headers := hs, rc_Body := body, rc_streamId := sid, rc_conn := conn\<rparr>, p))"

definition RpcContextPool_release :: "'id RpcContext \<Rightarrow> 'id RpcContext list \<Rightarrow> 'id RpcContext list" where
  "RpcContextPool_release ctx p = ctx\<lparr>rc_written := False, rc_responseHeaders := []\<rparr> # p"

section \<open>Pushing a request\<close>

definition ErrProviderNotAvailable :: goerr where
  "ErrProviderNotAvailable = ErrNew ''provider unable to provide service''"

datatype push_state = Blocked | Failed goerr | Sent

text \<open>
  The loop over the body; \<open>reads\<close> are the results of its successive reads, and the loop blocks
  when they run out before the body has ended.
\<close>

fun push_body ::
  "bytesutil \<Rightarrow> outcomes \<Rightarrow> nat \<Rightarrow> nat \<Rightarrow> u32 \<Rightarrow> (bytes \<times> goerr option) list \<Rightarrow> 'id world \<Rightarrow> bytes list \<Rightarrow>
   push_state \<times> 'id world \<times> bytes list" where
  "push_body bu env a x sid [] w out = (Blocked, w, out)"
| "push_body bu env a x sid ((chunk, err) # reads) w out =
     (if err \<noteq> None \<and> err \<noteq> Some EOF
      then (let e = Wrapf ''failed reading body: %w'' [] (the err)
            in (Failed e, CloseStreamWithError a x e w, out))
      else
        (case Send env (DataPacket_AppendTo bu \<lparr>dp_StreamID = sid, dp_Data = chunk\<rparr> [OpCodeData]) out of
           (Some e, out) \<Rightarrow>
             (let e = Wrapf ''failed writing body chunk as a data packet to peer: %w'' [] e
              in (Failed e, CloseStreamWithError a x e w, out))
         | (None, out) \<Rightarrow>
             if err = Some EOF \<and> length chunk = 0 then (Sent, w, out)
             else push_body bu env a x sid reads w out))"

definition Provider_Push ::
  "bytesutil \<Rightarrow> outcomes \<Rightarrow> gostring list \<Rightarrow> headers \<Rightarrow> (bytes \<times> goerr option) list \<Rightarrow> nat \<Rightarrow> 'id world \<Rightarrow>
   bytes list \<Rightarrow> nat \<times> push_state \<times> 'id world \<times> bytes list" where
  "Provider_Push bu env services hs reads a w out =
     (case NextStream a w of
        (x, w) \<Rightarrow>
          (let sid = st_ID (w_sm w x);
               header = \<lparr>req_StreamId = sid, req_Services = services, req_Headers = hs\<rparr>
           in case Send env (ServiceRequestPacket_AppendTo bu header [OpCodeServiceRequest]) out of
                (Some e, out) \<Rightarrow>
                  (let e = Wrapf ''failed to send stream header: %s: %w'' [ArgErr e] ErrProviderNotAvailable
                   in (x, Failed e, CloseStreamWithError a x e w, out))
              | (None, out) \<Rightarrow> (x, push_body bu env a x sid reads w out)))"

text \<open>What \<^verbatim>\<open>Push\<close> returns once the wait group of its stream has been released.\<close>

definition push_result :: "gostring list \<Rightarrow> nat \<Rightarrow> 'id world \<Rightarrow> goerr + nat" where
  "push_result services x w =
     (case st_Header (w_sm w x) of
        None \<Rightarrow> Inl (Wrapf ''no response headers were returned: %w'' [] EOF)
      | Some h \<Rightarrow>
          if \<not> resp_Handled h then Inl (Errorf ''provider unable to service: %s'' [ArgStrs services])
          else Inr x)"

section \<open>What is sent\<close>

text \<open>The data packets for a list of chunks.\<close>

definition data_messages :: "bytesutil \<Rightarrow> u32 \<Rightarrow> bytes list \<Rightarrow> bytes list" where
  "data_messages bu sid chunks =
     map (\<lambda>d. DataPacket_AppendTo bu \<lparr>dp_StreamID = sid, dp_Data = d\<rparr> [OpCodeData]) chunks"

function chunks_of :: "bytes \<Rightarrow> bytes list" where
  "chunks_of bs = (if bs = [] then [] else take ChunkSize bs # chunks_of (drop ChunkSize bs))"
  by pat_completeness auto
termination
  by (relation "measure length") (auto simp: ChunkSize_def)

declare chunks_of.simps [simp del]

lemma chunks_of_Nil [simp]: "chunks_of [] = []"
  by (simp add: chunks_of.simps)

lemma concat_chunks_of [simp]: "concat (chunks_of bs) = bs"
proof (induction bs rule: chunks_of.induct)
  case (1 bs)
  then show ?case by (simp add: chunks_of.simps [of bs])
qed

lemma chunks_of_sizes: "\<forall>c \<in> set (chunks_of bs). c \<noteq> [] \<and> length c \<le> ChunkSize"
proof (induction bs rule: chunks_of.induct)
  case (1 bs)
  then show ?case by (auto simp: chunks_of.simps [of bs] ChunkSize_def)
qed

lemma Send_ok [simp]: "Send (\<lambda>_. None) m out = (None, out @ [m])"
  by (simp add: Send_def)

lemma write_chunks_ok:
  "write_chunks bu (\<lambda>_. None) sid data i out =
     (None, out @ data_messages bu sid (chunks_of (drop i data)))"
proof (induction bu "\<lambda>_ :: nat. None :: goerr option" sid data i out rule: write_chunks.induct)
  case (1 bu sid data i out)
  show ?case
  proof (cases "i < length data")
    case True
    have "take (min (length data - i) ChunkSize) (drop i data) = take ChunkSize (drop i data)"
      by (cases "length data - i \<le> ChunkSize") (simp_all add: min_def)
    moreover have "(if i + ChunkSize > length data then length data else i + ChunkSize) - i =
        min (length data - i) ChunkSize"
      by auto
    ultimately show ?thesis
      using True 1 chunks_of.simps [of "drop i data"]
      by (simp add: write_chunks.simps [of bu _ sid data i] Let_def data_messages_def add.commute)
  next
    case False
    then show ?thesis by (simp add: write_chunks.simps [of bu _ sid data i] data_messages_def)
  qed
qed

text \<open>A handler's calls on its context while the connection accepts everything.\<close>

lemma Context_Write_ok:
  "Context_Write bu (\<lambda>_. None) c data out =
     (if data = [] then (Inr 0, c, out)
      else (Inr (length data), c\<lparr>rc_written := True\<rparr>,
        out @ (if rc_written c then [] else [ServiceResponsePacket_AppendTo bu
             (response_packet (rc_streamId c) True (Some (rc_responseHeaders c))) [OpCodeServiceResponse]]) @
          data_messages bu (rc_streamId c) (chunks_of data)))"
  by (simp add: Context_Write_def write_chunks_ok)

text \<open>The chunks a body hands out up to its end, the empty one at the end included.\<close>

fun body_chunks :: "(bytes \<times> goerr option) list \<Rightarrow> bytes list option" where
  "body_chunks [] = None"
| "body_chunks ((chunk, err) # reads) =
     (if err \<noteq> None \<and> err \<noteq> Some EOF then None
      else if err = Some EOF \<and> length chunk = 0 then Some [[]]
      else map_option ((#) chunk) (body_chunks reads))"

lemma push_body_ok:
  "body_chunks reads = Some cs \<Longrightarrow>
     push_body bu (\<lambda>_. None) a x sid reads w out = (Sent, w, out @ data_messages bu sid cs)"
  by (induction reads arbitrary: cs out rule: body_chunks.induct)
    (auto simp: data_messages_def split: if_splits)

end
