(* ===== verification/Rpc_Address.thy ===== *)
theory Rpc_Address
  imports Carlo_Prelude
begin

text \<open>
  How an address is printed: \<^verbatim>\<open>HostAddr\<close> of \<^verbatim>\<open>streaming_rpc/provider.go\<close>, with what it calls of
  the standard library (\<^verbatim>\<open>net.IP.String\<close>, \<^verbatim>\<open>strconv.FormatUint\<close> and \<^verbatim>\<open>net.JoinHostPort\<close>). The
  printed address is the key under which a node keeps its clients, so what matters is that
  different endpoints are printed differently.
\<close>

section \<open>Numbers\<close>

definition digit :: "nat \<Rightarrow> byte" where
  "digit d = of_nat (if d < 10 then 48 + d else 87 + d)"

text \<open>\<^verbatim>\<open>strconv.FormatUint(n, base)\<close>, for bases from 2 to 16.\<close>

function FormatUint :: "nat \<Rightarrow> nat \<Rightarrow> bytes" where
  "FormatUint base n =
     (if base < 2 \<or> n < base then [digit n] else FormatUint base (n div base) @ [digit (n mod base)])"
  by pat_completeness auto
termination
  by (relation "measure snd") auto

declare FormatUint.simps [simp del]

section \<open>Addresses\<close>

fun all_zero :: "bytes \<Rightarrow> bool" where
  "all_zero [] = True"
| "all_zero (b # bs) = (b = 0 \<and> all_zero bs)"

text \<open>\<^verbatim>\<open>IP.To4\<close>: four bytes, or sixteen with the prefix of a mapped address.\<close>

definition To4 :: "bytes \<Rightarrow> bytes option" where
  "To4 ip =
     (if length ip = 4 then Some ip
      else if length ip = 16 \<and> all_zero (take 10 ip) \<and> ip ! 10 = 0xFF \<and> ip ! 11 = 0xFF
      then Some (drop 12 ip) else None)"

definition dot :: byte where "dot = 46"
definition colon :: byte where "colon = 58"

fun join :: "byte \<Rightarrow> bytes list \<Rightarrow> bytes" where
  "join sep [] = []"
| "join sep [x] = x"
| "join sep (x # y # xs) = x @ sep # join sep (y # xs)"

definition dotted :: "bytes \<Rightarrow> bytes" where
  "dotted ip = join dot (map (\<lambda>b. FormatUint 10 (unat b)) ip)"

text \<open>The sixteen-bit groups of an IPv6 address.\<close>

fun groups :: "bytes \<Rightarrow> nat list" where
  "groups (a # b # bs) = (256 * unat a + unat b) # groups bs"
| "groups _ = []"

definition zeros_at :: "nat list \<Rightarrow> nat \<Rightarrow> nat" where
  "zeros_at gs i = length (takeWhile (\<lambda>g. g = 0) (drop i gs))"

text \<open>The first longest run of at least two zero groups: its start and its end.\<close>

fun zero_run :: "nat list \<Rightarrow> nat list \<Rightarrow> nat \<times> nat \<Rightarrow> nat \<times> nat" where
  "zero_run gs [] best = best"
| "zero_run gs (i # is) best =
     (let l = zeros_at gs i
      in zero_run gs is (if 2 \<le> l \<and> snd best - fst best < l then (i, i + l) else best))"

definition hex_groups :: "nat list \<Rightarrow> bytes" where
  "hex_groups gs = join colon (map (FormatUint 16) gs)"

definition string6 :: "bytes \<Rightarrow> bytes" where
  "string6 ip =
     (let gs = groups ip;
          (s, e) = zero_run gs [0..<8] (255, 255)
      in if s = 255 then hex_groups gs
         else hex_groups (take s gs) @ [colon, colon] @ hex_groups (drop e gs))"

definition hex_byte :: "byte \<Rightarrow> bytes" where
  "hex_byte b = [digit (unat b div 16), digit (unat b mod 16)]"

text \<open>\<^verbatim>\<open>IP.String\<close>: the question mark is 63; the empty address is printed as \<^verbatim>\<open><nil>\<close>.\<close>

definition IP_String :: "bytes \<Rightarrow> bytes" where
  "IP_String ip =
     (if ip = [] then [60, 110, 105, 108, 62]
      else if length ip \<noteq> 4 \<and> length ip \<noteq> 16 then 63 # concat (map hex_byte ip)
      else case To4 ip of Some p4 \<Rightarrow> dotted p4 | None \<Rightarrow> string6 ip)"

definition JoinHostPort :: "bytes \<Rightarrow> bytes \<Rightarrow> bytes" where
  "JoinHostPort host port =
     (if colon \<in> set host then 91 # host @ [93, colon] @ port else host @ [colon] @ port)"

definition HostAddr :: "bytes \<Rightarrow> u16 \<Rightarrow> gostring" where
  "HostAddr host port =
     (let h = (if length host > 0 then IP_String host else []);
          p = FormatUint 10 (unat port)
      in JoinHostPort h p)"

section \<open>Lemmas\<close>

lemma unat_digit: "d < 16 \<Longrightarrow> unat (digit d) = (if d < 10 then 48 + d else 87 + d)"
  by (simp add: digit_def unat_of_nat)

lemma digit_inj:
  assumes "c < 16" and "d < 16" and "digit c = digit d"
  shows "c = d"
  using arg_cong [OF assms(3), of unat] assms(1,2) by (simp add: unat_digit split: if_splits)

lemma digit_code: "d < 16 \<Longrightarrow> dot \<noteq> digit d \<and> colon \<noteq> digit d"
proof -
  assume "d < 16"
  then have "unat (digit d) = (if d < 10 then 48 + d else 87 + d)" by (simp add: unat_digit)
  moreover have "unat dot = 46" "unat colon = 58" by (simp_all add: dot_def colon_def)
  ultimately show ?thesis by (auto split: if_splits)
qed

lemma FormatUint_not_Nil [simp]: "FormatUint base n \<noteq> []" "[] \<noteq> FormatUint base n"
  by (subst FormatUint.simps, simp)+

lemma FormatUint_sep:
  "2 \<le> base \<Longrightarrow> base \<le> 16 \<Longrightarrow> dot \<notin> set (FormatUint base n) \<and> colon \<notin> set (FormatUint base n)"
proof (induction base n rule: FormatUint.induct)
  case (1 base n)
  show ?case
  proof (cases "n < base")
    case True
    with 1(2,3) digit_code [of n] show ?thesis by (simp add: FormatUint.simps [of base n])
  next
    case False
    moreover have "n mod base < 16" using 1(2,3) mod_less_divisor [of base n] by linarith
    ultimately show ?thesis
      using 1 digit_code [of "n mod base"] by (simp add: FormatUint.simps [of base n])
  qed
qed

lemma FormatUint_inj:
  "2 \<le> base \<Longrightarrow> base \<le> 16 \<Longrightarrow> FormatUint base m = FormatUint base n \<Longrightarrow> m = n"
proof (induction base m arbitrary: n rule: FormatUint.induct)
  case (1 base m)
  have d: "k mod base < 16" for k
    using 1(2,3) mod_less_divisor [of base k] by linarith
  have same: "m < base \<longleftrightarrow> n < base"
    using 1(2,4) FormatUint.simps [of base m] FormatUint.simps [of base n]
    by (auto split: if_splits simp: append_eq_Cons_conv Cons_eq_append_conv)
  show ?case
  proof (cases "m < base")
    case True
    then have "digit m = digit n"
      using 1(2-4) same FormatUint.simps [of base m] FormatUint.simps [of base n] by simp
    with True same 1(2,3) show ?thesis by (intro digit_inj) auto
  next
    case False
    then have *: "FormatUint base (m div base) = FormatUint base (n div base)"
      "digit (m mod base) = digit (n mod base)"
      using 1(2-4) same FormatUint.simps [of base m] FormatUint.simps [of base n] by auto
    then have "m div base = n div base" using 1(1) [OF _ 1(2,3)] 1(2) False by simp
    moreover have "m mod base = n mod base" using *(2) d by (intro digit_inj) auto
    ultimately show ?thesis by (metis div_mult_mod_eq)
  qed
qed


text \<open>What a separator that does not occur in the parts determines.\<close>

lemma append_sep_inj:
  "sep \<notin> set x \<Longrightarrow> sep \<notin> set y \<Longrightarrow> x @ sep # xs = y @ sep # ys \<Longrightarrow> x = y \<and> xs = ys"
  by (induction x arbitrary: y) (auto simp: Cons_eq_append_conv append_eq_Cons_conv)

lemma last_sep_inj:
  assumes "sep \<notin> set p" "sep \<notin> set q" "x @ sep # p = y @ sep # q"
  shows "x = y \<and> p = q"
proof -
  have "rev p @ sep # rev x = rev q @ sep # rev y"
    using arg_cong [OF assms(3), of rev] by simp
  from append_sep_inj [OF _ _ this] assms(1,2) show ?thesis by simp
qed

text \<open>A list of parts without the separator can be read back from its join, unless it is empty.\<close>

lemma join_Cons: "xs \<noteq> [] \<Longrightarrow> join sep (x # xs) = x @ sep # join sep xs"
  by (cases xs) simp_all

lemma join_sep: "sep \<in> set (join sep xs) \<longleftrightarrow> 2 \<le> length xs" if "\<forall>x \<in> set xs. sep \<notin> set x"
  using that by (induction sep xs rule: join.induct) auto

lemma join_inj:
  "xs \<noteq> [] \<Longrightarrow> ys \<noteq> [] \<Longrightarrow> \<forall>x \<in> set xs \<union> set ys. sep \<notin> set x \<Longrightarrow> join sep xs = join sep ys \<Longrightarrow> xs = ys"
proof (induction xs arbitrary: ys)
  case (Cons x xs)
  then obtain y zs where ys: "ys = y # zs" by (cases ys) auto
  have "2 \<le> length (x # xs) \<longleftrightarrow> 2 \<le> length ys"
    using Cons.prems(3,4) join_sep [of "x # xs" sep] join_sep [of ys sep] by auto
  then have same: "xs = [] \<longleftrightarrow> zs = []" by (cases xs; cases zs) (auto simp: ys)
  show ?case
  proof (cases "xs = []")
    case True
    with same Cons.prems(4) show ?thesis by (simp add: ys)
  next
    case False
    with same Cons.prems have "x = y \<and> join sep xs = join sep zs"
      by (intro append_sep_inj [of sep]) (auto simp: ys join_Cons)
    with Cons.IH [of zs] Cons.prems(3) False same show ?thesis by (auto simp: ys)
  qed
qed simp

lemma join_no: "b \<noteq> sep \<Longrightarrow> \<forall>x \<in> set xs. b \<notin> set x \<Longrightarrow> b \<notin> set (join sep xs)"
  by (induction sep xs rule: join.induct) auto

subsection \<open>Four bytes\<close>

lemma dotted_inj:
  assumes "length x = 4" "length y = 4" and "dotted x = dotted y"
  shows "x = y"
proof -
  have "map (\<lambda>b. FormatUint 10 (unat b)) x = map (\<lambda>b. FormatUint 10 (unat b)) y"
    using assms FormatUint_sep by (intro join_inj) (auto simp: dotted_def)
  moreover have "b = c" if "FormatUint 10 (unat b) = FormatUint 10 (unat c)" for b c :: byte
    using FormatUint_inj [OF _ _ that] by (simp add: unsigned_word_eqI)
  ultimately show ?thesis by (auto dest!: map_injective intro: injI)
qed

lemma dotted_chars: "colon \<notin> set (dotted x)" "length x = 4 \<Longrightarrow> dot \<in> set (dotted x)"
proof -
  have c: "colon \<noteq> dot" by (simp add: dot_def colon_def)
  show "colon \<notin> set (dotted x)"
    unfolding dotted_def using c FormatUint_sep [of 10] by (intro join_no) auto
  show "dot \<in> set (dotted x)" if "length x = 4"
    using that FormatUint_sep [of 10] unfolding dotted_def by (subst join_sep) auto
qed

subsection \<open>Sixteen bytes\<close>

lemma groups_length: "even (length ip) \<Longrightarrow> 2 * length (groups ip) = length ip"
  by (induction ip rule: groups.induct) auto

lemma groups_inj: "even (length x) \<Longrightarrow> length x = length y \<Longrightarrow> groups x = groups y \<Longrightarrow> x = y"
proof (induction x arbitrary: y rule: groups.induct)
  case (1 a b bs)
  then obtain c d ds where y: "y = c # d # ds" by (cases y; cases "tl y") auto
  have bound: "unat b < 256" "unat d < 256" by simp_all
  have "256 * unat a + unat b = 256 * unat c + unat d" using 1(4) y by simp
  from arg_cong [OF this, of "\<lambda>n. n div 256"] arg_cong [OF this, of "\<lambda>n. n mod 256"]
  have "unat a = unat c" "unat b = unat d" using bound by simp_all
  then have "a = c" "b = d" by (simp_all add: unsigned_word_eqI)
  with 1 y show ?case by simp
qed simp_all

text \<open>The run of zeros that is left out lies inside of the address and consists of zeros.\<close>

definition zeros_between :: "nat list \<Rightarrow> nat \<Rightarrow> nat \<Rightarrow> bool" where
  "zeros_between gs s e \<longleftrightarrow> s < e \<and> e \<le> length gs \<and> gs = take s gs @ replicate (e - s) 0 @ drop e gs"

lemma zeros_at_between:
  assumes "2 \<le> zeros_at gs i"
  shows "zeros_between gs i (i + zeros_at gs i)"
proof -
  let ?z = "takeWhile (\<lambda>g. g = 0) (drop i gs)"
  have "zeros_at gs i \<le> length (drop i gs)" unfolding zeros_at_def by (rule length_takeWhile_le)
  then have len: "i + zeros_at gs i \<le> length gs" using assms by (cases "i \<le> length gs") auto
  have "?z = replicate (zeros_at gs i) 0"
    unfolding zeros_at_def by (rule replicate_length_same [symmetric]) (auto dest: set_takeWhileD)
  moreover have "drop i gs = ?z @ drop (zeros_at gs i) (drop i gs)"
    unfolding zeros_at_def by (metis dropWhile_eq_drop takeWhile_dropWhile_id)
  ultimately have "gs = take i gs @ replicate (zeros_at gs i) 0 @ drop (i + zeros_at gs i) gs"
    by (metis add.commute append_take_drop_id drop_drop)
  with assms len show ?thesis by (simp add: zeros_between_def)
qed

lemma zero_run_between:
  "zero_run gs is best = (s, e) \<Longrightarrow> (fst best = 255 \<or> zeros_between gs (fst best) (snd best)) \<Longrightarrow>
     s = 255 \<or> zeros_between gs s e"
proof (induction gs "is" best rule: zero_run.induct)
  case (2 gs i "is" best)
  show ?case
    by (rule 2(1) [OF refl]) (use 2(2,3) zeros_at_between [of gs i] in \<open>auto simp: Let_def split: if_splits\<close>)
qed auto

text \<open>
  A printed address of sixteen bytes is a list of fields joined by colons: the groups, with an
  empty field for the zeros that are left out, and one more where they start or end the address.
\<close>

definition side :: "nat list \<Rightarrow> bytes list" where
  "side gs = (if gs = [] then [[]] else map (FormatUint 16) gs)"

fun fields6 :: "nat list \<Rightarrow> nat \<times> nat \<Rightarrow> bytes list" where
  "fields6 gs (s, e) = (if s = 255 then map (FormatUint 16) gs else side (take s gs) @ [] # side (drop e gs))"

lemma hex_groups_side: "hex_groups gs = join colon (side gs)"
  by (simp add: hex_groups_def side_def)

lemma side_not_Nil: "side gs \<noteq> []"
  by (simp add: side_def)

lemma join_append: "xs \<noteq> [] \<Longrightarrow> ys \<noteq> [] \<Longrightarrow> join sep (xs @ ys) = join sep xs @ sep # join sep ys"
  by (induction xs rule: join.induct [of _ sep]) (auto simp: join_Cons)

lemma string6_fields: "string6 ip = join colon (fields6 (groups ip) (zero_run (groups ip) [0..<8] (255, 255)))"
proof -
  obtain s e where r: "zero_run (groups ip) [0..<8] (255, 255) = (s, e)" by fastforce
  have "join colon (side xs @ [] # side ys) = hex_groups xs @ [colon, colon] @ hex_groups ys" for xs ys
    by (subst join_append) (simp_all add: side_not_Nil join_Cons hex_groups_side)
  then show ?thesis unfolding string6_def Let_def r by (simp add: hex_groups_def)
qed

lemma hex_list_inj: "map (FormatUint 16) xs = map (FormatUint 16) ys \<Longrightarrow> xs = ys"
  by (erule map_injective) (auto intro!: injI FormatUint_inj [of 16])

lemma side_inj: "side xs = side ys \<Longrightarrow> xs = ys"
proof -
  assume eq: "side xs = side ys"
  have "xs = [] \<longleftrightarrow> [] \<in> set (side xs)" for xs by (auto simp: side_def)
  then have "xs = [] \<longleftrightarrow> ys = []" by (metis eq)
  then show "xs = ys" using eq by (cases "xs = []") (simp_all add: side_def hex_list_inj)
qed

lemma side_split_inj:
  assumes "side a @ [] # side b = side c @ [] # side d"
  shows "a = c \<and> b = d"
proof -
  have first: "hd (side xs) = [] \<longleftrightarrow> xs = []" for xs by (cases xs) (simp_all add: side_def)
  have "hd (side a) = hd (side c)" using arg_cong [OF assms, of hd] by (simp add: side_not_Nil)
  then have same: "a = [] \<longleftrightarrow> c = []" by (metis first)
  show ?thesis
  proof (cases "a = []")
    case True
    with same assms show ?thesis by (auto simp: side_def [of "[]"] dest: side_inj)
  next
    case False
    with same have "[] \<notin> set (side a)" "[] \<notin> set (side c)" by (auto simp: side_def)
    with append_sep_inj [OF _ _ assms] show ?thesis by (auto dest: side_inj)
  qed
qed

lemma fields6_inj:
  assumes "length gs = length hs" "fields6 gs (s, e) = fields6 hs (t, f)"
    and "s = 255 \<or> zeros_between gs s e" "t = 255 \<or> zeros_between hs t f"
  shows "gs = hs"
proof -
  have full: "[] \<notin> set (map (FormatUint 16) xs)" for xs by auto
  show ?thesis
  proof (cases "s = 255 \<or> t = 255")
    case True
    with assms(2) full show ?thesis by (auto split: if_splits dest: hex_list_inj) (metis full in_set_conv_decomp)+
  next
    case False
    with assms(2) have "side (take s gs) @ [] # side (drop e gs) = side (take t hs) @ [] # side (drop f hs)" by simp
    then have side: "take s gs = take t hs" "drop e gs = drop f hs" using side_split_inj by blast+
    have z: "zeros_between gs s e" "zeros_between hs t f" using assms(3,4) False by auto
    then have b: "s < e" "e \<le> length gs" "t < f" "f \<le> length hs"
      and eq: "gs = take s gs @ replicate (e - s) 0 @ drop e gs" "hs = take t hs @ replicate (f - t) 0 @ drop f hs"
      by (simp_all only: zeros_between_def)
    have "s = t" using arg_cong [OF side(1), of length] b assms(1) by simp
    moreover have "length gs - e = length hs - f" using arg_cong [OF side(2), of length] by simp
    then have "e = f" using b assms(1) by linarith
    ultimately show ?thesis using eq side by metis
  qed
qed

lemma string6_inj:
  assumes "length x = 16" "length y = 16" "string6 x = string6 y"
  shows "x = y"
proof -
  let ?r = "\<lambda>ip. zero_run (groups ip) [0..<8] (255, 255)"
  have len: "length (groups x) = 8" "length (groups y) = 8"
    using groups_length [of x] groups_length [of y] assms(1,2) by simp_all
  obtain s e t f where r: "?r x = (s, e)" "?r y = (t, f)" by fastforce
  have colons: "colon \<notin> set p" if "p \<in> set (fields6 gs q)" for p gs q
    using that FormatUint_sep [of 16] by (cases q) (auto simp: side_def split: if_splits)
  have ne: "fields6 gs q \<noteq> []" if "length gs = 8" for gs q
    using that by (cases q) auto
  have "fields6 (groups x) (s, e) = fields6 (groups y) (t, f)"
    using assms(3) colons ne len by (intro join_inj [of _ _ colon]) (auto simp: string6_fields r simp del: fields6.simps)
  moreover have "s = 255 \<or> zeros_between (groups x) s e" "t = 255 \<or> zeros_between (groups y) t f"
    using zero_run_between [OF r(1)] zero_run_between [OF r(2)] by simp_all
  ultimately have "groups x = groups y" using len by (intro fields6_inj) simp_all
  then show ?thesis by (intro groups_inj) (simp_all add: assms)
qed

lemma string6_colon: "length ip = 16 \<Longrightarrow> colon \<in> set (string6 ip)"
proof -
  assume "length ip = 16"
  then have "length (groups ip) = 8" using groups_length [of ip] by simp
  then have "2 \<le> length (fields6 (groups ip) q)" for q
    using side_not_Nil by (cases q) (auto simp: Suc_le_eq side_def)
  moreover have "\<forall>p \<in> set (fields6 (groups ip) q). colon \<notin> set p" for q
    using FormatUint_sep [of 16] by (cases q) (auto simp: side_def split: if_splits)
  ultimately show ?thesis by (simp add: string6_fields join_sep)
qed

subsection \<open>Other lengths\<close>

lemma hex_bytes_inj: "concat (map hex_byte x) = concat (map hex_byte y) \<Longrightarrow> x = y"
proof (induction x arbitrary: y)
  case Nil
  then show ?case by (cases y) (auto simp: hex_byte_def)
next
  case (Cons b x)
  then obtain c z where y: "y = c # z" by (cases y) (auto simp: hex_byte_def)
  have lt: "unat a div 16 < 16" for a :: byte by (simp add: less_mult_imp_div_less)
  have "unat b div 16 = unat c div 16" "unat b mod 16 = unat c mod 16"
    using Cons.prems y digit_inj lt by (auto simp: hex_byte_def)
  then have "b = c" by (metis div_mult_mod_eq unsigned_word_eqI)
  with Cons y show ?case by (simp add: hex_byte_def)
qed

lemma hex_bytes_chars: "dot \<notin> set (63 # concat (map hex_byte x)) \<and> colon \<notin> set (63 # concat (map hex_byte x))"
proof -
  have "unat b div 16 < 16" for b :: byte by (simp add: less_mult_imp_div_less)
  moreover have "dot \<noteq> 63" "colon \<noteq> 63" by (simp_all add: dot_def colon_def)
  ultimately show ?thesis using digit_code by (auto simp: hex_byte_def)
qed

subsection \<open>Hosts\<close>

text \<open>The host that an address stands for: mapped addresses of sixteen bytes stand for four.\<close>

definition canonical :: "bytes \<Rightarrow> bytes" where
  "canonical ip = (case To4 ip of Some p4 \<Rightarrow> p4 | None \<Rightarrow> ip)"

text \<open>The three forms of a printed host; \<open>p4\<close>, \<open>p6\<close> and \<open>px\<close> are the canonical host.\<close>

lemma host_forms:
  assumes "ip \<noteq> []"
  obtains (four) p4 where "length p4 = 4" "canonical ip = p4" "IP_String ip = dotted p4"
    | (six) "length ip = 16" "canonical ip = ip" "IP_String ip = string6 ip"
    | (other) "length ip \<noteq> 4" "length ip \<noteq> 16" "canonical ip = ip" "IP_String ip = 63 # concat (map hex_byte ip)"
proof (cases "To4 ip")
  case (Some p4)
  then show ?thesis using assms that(1) [of p4] by (auto simp: To4_def canonical_def IP_String_def split: if_splits)
next
  case None
  then have "length ip \<noteq> 4" by (auto simp: To4_def)
  with None assms show ?thesis using that(2,3) by (cases "length ip = 16") (auto simp: canonical_def IP_String_def To4_def)
qed

lemma IP_String_inj:
  assumes "h \<noteq> []" "k \<noteq> []"
  shows "IP_String h = IP_String k \<longleftrightarrow> canonical h = canonical k"
proof -
  note chars = dotted_chars string6_colon hex_bytes_chars
  have num: "(4 :: nat) \<noteq> 16" by simp
  from assms(1) show ?thesis
  proof (cases rule: host_forms)
    case (four p)
    from assms(2) show ?thesis
      by (cases rule: host_forms) (metis chars num four dotted_inj)+
  next
    case six
    from assms(2) show ?thesis
      by (cases rule: host_forms) (metis chars num six string6_inj)+
  next
    case other
    from assms(2) show ?thesis
      by (cases rule: host_forms) (metis chars num other hex_bytes_inj list.inject)+
  qed
qed

lemma IP_String_not_Nil: "IP_String ip \<noteq> []"
proof (cases "ip = []")
  case False
  then show ?thesis
    by (cases rule: host_forms) (use dotted_chars(2) string6_colon in \<open>fastforce+\<close>)
qed (simp add: IP_String_def)

lemma JoinHostPort_inj:
  assumes "JoinHostPort h (FormatUint 10 m) = JoinHostPort k (FormatUint 10 n)"
  shows "h = k \<and> m = n"
proof -
  define wrap where "wrap x = (if colon \<in> set x then 91 # x @ [93] else x)" for x
  have join: "JoinHostPort x p = wrap x @ colon # p" for x p by (simp add: JoinHostPort_def wrap_def)
  have sep: "colon \<notin> set (FormatUint 10 n)" for n using FormatUint_sep [of 10 n] by simp
  have eq: "wrap h = wrap k" "FormatUint 10 m = FormatUint 10 n"
    using last_sep_inj [OF sep sep assms [unfolded join]] by simp_all
  have "colon \<in> set (wrap x) \<longleftrightarrow> colon \<in> set x" for x by (simp add: wrap_def)
  then have "colon \<in> set h \<longleftrightarrow> colon \<in> set k" by (metis eq(1))
  then have "h = k" using eq(1) by (simp add: wrap_def split: if_splits)
  moreover have "m = n" using FormatUint_inj [OF _ _ eq(2)] by simp
  ultimately show ?thesis by simp
qed

section \<open>Properties\<close>

text \<open>
  (C38) The printed address identifies the endpoint: two endpoints are printed alike exactly when
  they have the same port and the same host, where an IPv4 host may be given in four bytes or
  mapped into sixteen. This holds for hosts of every length, IPv6 with its omitted zeros included,
  so a node never uses one client for two endpoints, and only one for each.
\<close>

theorem HostAddr_identifies: "HostAddr h p = HostAddr k q \<longleftrightarrow> canonical h = canonical k \<and> p = q"
proof -
  let ?s = "\<lambda>x. if length x > 0 then IP_String x else []"
  have empty: "canonical x = [] \<longleftrightarrow> x = []" for x
    by (auto simp: canonical_def To4_def split: option.splits)
  have "?s h = ?s k \<longleftrightarrow> canonical h = canonical k"
    using IP_String_inj [of h k] IP_String_not_Nil [of h] IP_String_not_Nil [of k] empty [of h] empty [of k]
    by (cases "h = []"; cases "k = []") simp_all
  moreover have "HostAddr h p = HostAddr k q \<longleftrightarrow> ?s h = ?s k \<and> unat p = unat q"
  proof
    assume "HostAddr h p = HostAddr k q"
    then show "?s h = ?s k \<and> unat p = unat q" unfolding HostAddr_def Let_def by (rule JoinHostPort_inj)
  next
    assume "?s h = ?s k \<and> unat p = unat q"
    then show "HostAddr h p = HostAddr k q" unfolding HostAddr_def Let_def by (simp only:)
  qed
  moreover have "unat p = unat q \<longleftrightarrow> p = q" by (auto intro: unsigned_word_eqI)
  ultimately show ?thesis by (simp only:)
qed

end
