(* ===== verification/Rpc_Node.thy ===== *)
theory Rpc_Node
  imports Rpc_Context Rpc_Address
begin

text \<open>
  \<^verbatim>\<open>streaming_rpc/streamnode.go\<close>: the node. Its state is a record; incoming messages,
  connection state changes and the goroutine that serves a request are functions on it. What
  leaves the node is a list of outputs. Dialing and address resolution are outside of the
  repository and enter as arguments; logging is left out.
\<close>

definition NetProtocolTCP :: u8 where "NetProtocolTCP = 0"
definition NetProtocolUDP :: u8 where "NetProtocolUDP = 1"
definition NetProtocolIP :: u8 where "NetProtocolIP = 2"

text \<open>
  Handlers and clients are named by numbers; a nil map of services has the same entries as an
  empty one.
\<close>

record ('id, 'tab) StreamNode =
  n_start :: bool
  n_stop :: bool
  n_SecretKey :: bytes
  n_NetProtocol :: u8
  n_table :: 'tab
  n_KadId :: "'id option"
  n_Srv :: bool
  n_world :: "'id world"
  n_Services :: "gostring \<rightharpoonup> nat"
  n_clients :: "gostring \<rightharpoonup> nat"
  n_nclients :: nat

definition NewStreamNode :: "bytes \<Rightarrow> 'id option \<Rightarrow> 'tab \<Rightarrow> ('id, 'tab) StreamNode" where
  "NewStreamNode sk kid tab = \<lparr>n_start = False, n_stop = False, n_SecretKey = sk,
     n_NetProtocol = NetProtocolTCP, n_table = tab, n_KadId = kid, n_Srv = False,
     n_world = new_world, n_Services = Map.empty, n_clients = Map.empty, n_nclients = 0\<rparr>"

definition SetNetProtocol :: "u8 \<Rightarrow> ('id, 'tab) StreamNode \<Rightarrow> ('id, 'tab) StreamNode" where
  "SetNetProtocol np n =
     (if np = NetProtocolTCP \<or> np = NetProtocolUDP \<or> np = NetProtocolIP
      then n\<lparr>n_NetProtocol := np\<rparr> else n)"

section \<open>Iteration orders\<close>

text \<open>The orders in which the run time visits the maps of the node.\<close>

record orders =
  o_services :: "gostring set \<Rightarrow> gostring list"
  o_streams :: "u32 set \<Rightarrow> u32 list"
  o_conns :: "nat set \<Rightarrow> nat list"

definition orders_ok :: "orders \<Rightarrow> bool" where
  "orders_ok os \<longleftrightarrow> map_range (o_services os) \<and> map_range (o_streams os) \<and> map_range (o_conns os)"

definition sorted_orders :: orders where
  "sorted_orders = \<lparr>o_services = sorted_list_of_set, o_streams = sorted_list_of_set,
     o_conns = sorted_list_of_set\<rparr>"

lemma sorted_orders_ok: "orders_ok sorted_orders"
  by (simp add: orders_ok_def sorted_orders_def sorted_range.map_range_axioms)

section \<open>Clients\<close>

definition getClient :: "gostring \<Rightarrow> ('id, 'tab) StreamNode \<Rightarrow> nat \<times> ('id, 'tab) StreamNode" where
  "getClient addr n =
     (case n_clients n addr of
        Some c \<Rightarrow> (c, n)
      | None \<Rightarrow> (n_nclients n, n\<lparr>n_clients := (n_clients n)(addr \<mapsto> n_nclients n),
                              n_nclients := Suc (n_nclients n)\<rparr>))"

section \<open>Handshakes\<close>

definition getServiceNames :: "orders \<Rightarrow> ('id, 'tab) StreamNode \<Rightarrow> gostring list" where
  "getServiceNames os n = o_services os (dom (n_Services n))"

definition createHandshakePacket ::
  "('id, 'tab) kademlia \<Rightarrow> orders \<Rightarrow> ('id, 'tab) StreamNode \<Rightarrow> bytes \<Rightarrow> 'id HandshakePacket result" where
  "createHandshakePacket kad os n buf =
     (let packet = \<lparr>hs_KadId = None, hs_Services = getServiceNames os n,
                    hs_Signature = replicate (SizeSignature kad) 0\<rparr>
      in case n_KadId n of
           None \<Rightarrow> Ok packet
         | Some i \<Rightarrow>
             (let packet = packet\<lparr>hs_KadId := Some i\<rparr>
              in case HandshakePacket_AppendPayloadTo kad packet buf of
                   Ok payload \<Rightarrow>
                     Ok (packet\<lparr>hs_Signature := PrivateKey_Sign kad (n_SecretKey n) payload\<rparr>)
                 | Err e \<Rightarrow> Err e
                 | Panic m \<Rightarrow> Panic m))"

definition createFindNodeRequest :: "('id, 'tab) kademlia \<Rightarrow> nat \<Rightarrow> ('id, 'tab) StreamNode \<Rightarrow> bytes" where
  "createFindNodeRequest kad sz n =
     (case n_KadId n of None \<Rightarrow> replicate sz 0 | Some i \<Rightarrow> ID_Pub kad i)"

text \<open>
  \<^verbatim>\<open>probeWithStreamTransmitConn\<close>, with \<open>res\<close> what \<^verbatim>\<open>conn.Request\<close> returns for the handshake:
  the outcome, the node, and the request that was made.
\<close>

definition probe ::
  "('id, 'tab) kademlia \<Rightarrow> orders \<Rightarrow> nat \<Rightarrow> (goerr + bytes) \<Rightarrow> ('id, 'tab) StreamNode \<Rightarrow>
   unit result \<times> ('id, 'tab) StreamNode \<times> bytes list" where
  "probe kad os conn res n =
     (case registerProvider conn None [] True (n_world n) of
        (_, w) \<Rightarrow>
          (let n = n\<lparr>n_world := w\<rparr>
           in case createHandshakePacket kad os n [] of
                Err e \<Rightarrow> (Err e, n, [])
              | Panic m \<Rightarrow> (Panic m, n, [])
              | Ok h \<Rightarrow>
                  (let req = HandshakePacket_AppendTo kad h [OpCodeHandshake]
                   in case res of
                        Inl e \<Rightarrow> (Err e, n, [req])
                      | Inr buf \<Rightarrow>
                          (case UnmarshalHandshakePacket kad buf of
                             Err e \<Rightarrow> (Err e, n, [req])
                           | Panic m \<Rightarrow> (Panic m, n, [req])
                           | Ok packet \<Rightarrow>
                               (case HandshakePacket_Validate kad packet [] of
                                  Ok (Some e) \<Rightarrow> (Err e, n, [req])
                                | Err e \<Rightarrow> (Err e, n, [req])
                                | Panic m \<Rightarrow> (Panic m, n, [req])
                                | Ok None \<Rightarrow>
                                    (case hs_KadId packet of
                                       None \<Rightarrow> (Ok (), n, [req])
                                     | Some i \<Rightarrow>
                                         (case registerProvider conn (Some i) (hs_Services packet) True (n_world n) of
                                            (_, w) \<Rightarrow>
                                              (Ok (), n\<lparr>n_world := w, n_table := Table_Update kad (n_table n) i\<rparr>,
                                               [req]))))))))"

section \<open>Incoming messages\<close>

datatype node_out =
    Reply bytes
  | NoWait bytes
  | Serve nat nat nat headers nat

text \<open>
  \<open>Serve h a x hs conn\<close> is the goroutine started for handler \<open>h\<close>, provider \<open>a\<close> and stream \<open>x\<close>.
  Every branch returns the error of the handler, the node and its outputs; \<open>env\<close> is what the
  reply or the send returns, and \<open>fate\<close> what becomes of a write into a stream's pipe.
\<close>

type_synonym ('id, 'tab) handled = "unit result \<times> ('id, 'tab) StreamNode \<times> node_out list"

definition of_err :: "goerr option \<Rightarrow> unit result" where
  "of_err e = (case e of None \<Rightarrow> Ok () | Some e \<Rightarrow> Err e)"

definition handle_handshake ::
  "('id, 'tab) kademlia \<Rightarrow> orders \<Rightarrow> goerr option \<Rightarrow> nat \<Rightarrow> bytes \<Rightarrow> ('id, 'tab) StreamNode \<Rightarrow>
   ('id, 'tab) handled" where
  "handle_handshake kad os env conn body n =
     (case UnmarshalHandshakePacket kad body of
        Err e \<Rightarrow> (Err e, n, [])
      | Panic m \<Rightarrow> (Panic m, n, [])
      | Ok packet \<Rightarrow>
          (case HandshakePacket_Validate kad packet [] of
             Ok (Some e) \<Rightarrow> (Err e, n, [])
           | Err e \<Rightarrow> (Err e, n, [])
           | Panic m \<Rightarrow> (Panic m, n, [])
           | Ok None \<Rightarrow>
               (case registerProvider conn (hs_KadId packet) (hs_Services packet) False (n_world n) of
                  (_, w) \<Rightarrow>
                    (let n = n\<lparr>n_world := w\<rparr>;
                         n = (case hs_KadId packet of
                                None \<Rightarrow> n
                              | Some i \<Rightarrow> n\<lparr>n_table := Table_Update kad (n_table n) i\<rparr>)
                     in case createHandshakePacket kad os n [] of
                          Ok h \<Rightarrow> (of_err env, n, [Reply (HandshakePacket_AppendTo kad h [])])
                        | Err e \<Rightarrow> (Err e, n, [])
                        | Panic m \<Rightarrow> (Panic m, n, [])))))"

definition err_not_provider :: goerr where
  "err_not_provider = ErrNew ''conn is not a provider''"

fun find_handler :: "(gostring \<rightharpoonup> nat) \<Rightarrow> gostring list \<Rightarrow> nat option" where
  "find_handler hs [] = None"
| "find_handler hs (service # ss) = (case hs service of Some h \<Rightarrow> Some h | None \<Rightarrow> find_handler hs ss)"

definition handle_request ::
  "bytesutil \<Rightarrow> goerr option \<Rightarrow> nat \<Rightarrow> bytes \<Rightarrow> ('id, 'tab) StreamNode \<Rightarrow> ('id, 'tab) handled" where
  "handle_request bu env conn body n =
     (case FindProvider conn (n_world n) of
        None \<Rightarrow> (Err err_not_provider, n, [])
      | Some a \<Rightarrow>
          (case UnmarshalServiceRequestPacket bu body of
             Err e \<Rightarrow> (Err (Wrapf ''failed to decode service request packet: %w'' [] e), n, [])
           | Panic m \<Rightarrow> (Panic m, n, [])
           | Ok packet \<Rightarrow>
               (case RegisterStreamWithServiceRequestPacket a packet (n_world n) of
                  ((x, created), w) \<Rightarrow>
                    (let n = n\<lparr>n_world := w\<rparr>
                     in if \<not> created
                        then (Err (Errorf ''got service request with stream id %d, but node is making service requestwith the given id already''
                                [ArgNat (unat (req_StreamId packet))]), n, [])
                        else case find_handler (n_Services n) (req_Services packet) of
                            Some h \<Rightarrow> (Ok (), n, [Serve h a x (req_Headers packet) conn])
                          | None \<Rightarrow>
                              (of_err env, n, [NoWait (ServiceResponsePacket_AppendTo bu
                                 (response_packet (req_StreamId packet) False None)
                                 [OpCodeServiceResponse])])))))"

definition handle_response ::
  "bytesutil \<Rightarrow> nat \<Rightarrow> bytes \<Rightarrow> ('id, 'tab) StreamNode \<Rightarrow> ('id, 'tab) handled" where
  "handle_response bu conn body n =
     (case FindProvider conn (n_world n) of
        None \<Rightarrow> (Err err_not_provider, n, [])
      | Some a \<Rightarrow>
          (case UnmarshalServiceResponsePacket bu body of
             Err e \<Rightarrow> (Err (Wrapf ''failed to decode services response packet: %w'' [] e), n, [])
           | Panic m \<Rightarrow> (Panic m, n, [])
           | Ok packet \<Rightarrow>
               (case GetStream a (resp_StreamId packet) (n_world n) of
                  None \<Rightarrow> (Err (Errorf ''stream with id %d got a service response although no service request was sent''
                             [ArgNat (unat (resp_StreamId packet))]), n, [])
                | Some x \<Rightarrow>
                    (let w = n_world n;
                         s = once_Done ((w_sm w x)\<lparr>st_Header := Some packet\<rparr>)
                     in (Ok (), n\<lparr>n_world := w\<lparr>w_sm := (w_sm w)(x := s)\<rparr>\<rparr>, [])))))"

text \<open>One write into the pipe of a stream, with the bytes its readers take.\<close>

definition write_stream :: "nat \<Rightarrow> bytes \<Rightarrow> fate \<Rightarrow> 'id world \<Rightarrow> goerr option \<times> 'id world" where
  "write_stream x b f w =
     (case pipeWriter_Write (st_pipe (w_sm w x)) b f of
        (k, err, p) \<Rightarrow>
          (err, w\<lparr>w_sm := (w_sm w)(x := (w_sm w x)\<lparr>st_pipe := p, st_read := st_read (w_sm w x) @ take k b\<rparr>)\<rparr>))"

definition handle_data ::
  "bytesutil \<Rightarrow> fate \<Rightarrow> nat \<Rightarrow> bytes \<Rightarrow> ('id, 'tab) StreamNode \<Rightarrow> ('id, 'tab) handled" where
  "handle_data bu f conn body n =
     (case FindProvider conn (n_world n) of
        None \<Rightarrow> (Err err_not_provider, n, [])
      | Some a \<Rightarrow>
          (case UnmarshalDataPacket bu body of
             Err e \<Rightarrow> (Err (Wrapf ''failed to decode stream payload packet: %w'' [] e), n, [])
           | Panic m \<Rightarrow> (Panic m, n, [])
           | Ok packet \<Rightarrow>
               (case GetStream a (dp_StreamID packet) (n_world n) of
                  None \<Rightarrow> (Err (Errorf ''stream with id %d does not exist''
                             [ArgNat (unat (dp_StreamID packet))]), n, [])
                | Some x \<Rightarrow>
                    if length (dp_Data packet) > ChunkSize
                    then (let e = Errorf ''stream with id %d got packet over max limit of ChunkSize bytes: got %d bytes''
                                [ArgNat (unat (dp_StreamID packet)), ArgNat (length (dp_Data packet))]
                          in (Err e, n\<lparr>n_world := CloseStreamWithError a x e (n_world n)\<rparr>, []))
                    else if length (dp_Data packet) = 0
                    then (Ok (), n\<lparr>n_world := CloseStreamWithError a x EOF (n_world n)\<rparr>, [])
                    else (case write_stream x (dp_Data packet) f (n_world n) of
                            (None, w) \<Rightarrow> (Ok (), n\<lparr>n_world := w\<rparr>, [])
                          | (Some e, w) \<Rightarrow>
                              (let e = Wrapf ''failed to write payload: %w'' [] e
                               in (Err e, n\<lparr>n_world := CloseStreamWithError a x e w\<rparr>, []))))))"

definition handle_find_node ::
  "('id, 'tab) kademlia \<Rightarrow> goerr option \<Rightarrow> bytes \<Rightarrow> ('id, 'tab) StreamNode \<Rightarrow> ('id, 'tab) handled" where
  "handle_find_node kad env body n =
     (case UnmarshalFindNodeRequest kad body of
        Err e \<Rightarrow> (Err e, n, [])
      | Panic m \<Rightarrow> (Panic m, n, [])
      | Ok (target, _) \<Rightarrow>
          (of_err env, n, [Reply (FindNodeResponse_AppendTo kad
             (Table_ClosestTo kad (n_table n) target (DefaultBucketSize kad)) [])]))"

definition HandleMessage ::
  "bytesutil \<Rightarrow> ('id, 'tab) kademlia \<Rightarrow> orders \<Rightarrow> goerr option \<Rightarrow> fate \<Rightarrow> nat \<Rightarrow> bytes \<Rightarrow>
   ('id, 'tab) StreamNode \<Rightarrow> ('id, 'tab) handled" where
  "HandleMessage bu kad os env f conn body n =
     (case body of
        [] \<Rightarrow> (Err (ErrNew ''no opcode recorded in packet''), n, [])
      | opcode # body \<Rightarrow>
          if opcode = OpCodeHandshake then handle_handshake kad os env conn body n
          else if opcode = OpCodeServiceRequest then handle_request bu env conn body n
          else if opcode = OpCodeServiceResponse then handle_response bu conn body n
          else if opcode = OpCodeData then handle_data bu f conn body n
          else if opcode = OpCodeFindNodeRequest then handle_find_node kad env body n
          else (Err (Errorf ''unknown opcode %d'' [ArgNat (unat opcode)]), n, []))"

section \<open>Serving a request\<close>

text \<open>What a handler does with its context.\<close>

datatype handler_call = CallWriteHeader gostring gostring | CallWrite bytes

fun run_handler ::
  "bytesutil \<Rightarrow> outcomes \<Rightarrow> handler_call list \<Rightarrow> 'id RpcContext \<Rightarrow> bytes list \<Rightarrow> 'id RpcContext \<times> bytes list" where
  "run_handler bu env [] c out = (c, out)"
| "run_handler bu env (CallWriteHeader k v # cs) c out = run_handler bu env cs (WriteHeader k v c) out"
| "run_handler bu env (CallWrite d # cs) c out =
     (case Context_Write bu env c d out of (_, c, out) \<Rightarrow> run_handler bu env cs c out)"

text \<open>
  The goroutine of a request, from acquiring its context to releasing it: the node, the pool of
  contexts and the messages sent; \<open>calls\<close> is what the handler does.
\<close>

definition serve ::
  "bytesutil \<Rightarrow> outcomes \<Rightarrow> handler_call list \<Rightarrow> nat \<Rightarrow> nat \<Rightarrow> headers \<Rightarrow> nat \<Rightarrow> nat option \<Rightarrow>
   'id RpcContext list \<Rightarrow> 'id world \<Rightarrow> ('id world \<times> 'id RpcContext list \<times> bytes list) result" where
  "serve bu env calls a x hs conn pick pool w =
     (case pv_kadId (w_pv w a) of
        None \<Rightarrow> Panic ''nil pointer dereference''
      | Some kid \<Rightarrow>
          (case RpcContextPool_acquire kid hs x (st_ID (w_sm w x)) conn pool pick of
             (ctx, pool) \<Rightarrow>
               (case run_handler bu env calls ctx [] of
                  (ctx, out) \<Rightarrow>
                    (let last = (if \<not> rc_written ctx
                                 then ServiceResponsePacket_AppendTo bu
                                   (response_packet (rc_streamId ctx) True (Some (rc_responseHeaders ctx)))
                                   [OpCodeServiceResponse]
                                 else DataPacket_AppendTo bu \<lparr>dp_StreamID = st_ID (w_sm w x), dp_Data = []\<rparr>
                                   [OpCodeData]);
                         ctx = ctx\<lparr>rc_written := True\<rparr>
                     in case Send env last out of
                          (err, out) \<Rightarrow>
                            (let w = (case err of None \<Rightarrow> w | Some e \<Rightarrow> CloseStreamWithError a x e w);
                                 w = w\<lparr>w_sm := (w_sm w)(x := (w_sm w x)
                                        \<lparr>st_pipe := Reader_CloseWithError None (st_pipe (w_sm w x))\<rparr>)\<rparr>
                             in Ok (w, RpcContextPool_release ctx pool, out))))))"

section \<open>Connection state, start and shutdown\<close>

text \<open>\<^verbatim>\<open>Provider.Addr\<close> and \<^verbatim>\<open>Provider.Services\<close>; a provider without an identity prints as \<^verbatim>\<open><anon>\<close>.\<close>

definition Provider_Addr :: "('id, 'tab) kademlia \<Rightarrow> 'id Provider \<Rightarrow> gostring" where
  "Provider_Addr kad p =
     (case pv_kadId p of
        Some i \<Rightarrow> HostAddr (ID_Host kad i) (ID_Port kad i)
      | None \<Rightarrow> [60, 97, 110, 111, 110, 62])"

definition Provider_Services :: "orders \<Rightarrow> 'id Provider \<Rightarrow> gostring list" where
  "Provider_Services os p = o_services os (pv_services p)"

text \<open>
  \<^verbatim>\<open>HandleConnState\<close>: the result is the address that the reconnection goroutine will probe, if
  one is started.
\<close>

definition HandleConnState ::
  "('id, 'tab) kademlia \<Rightarrow> orders \<Rightarrow> nat \<Rightarrow> bool \<Rightarrow> ('id, 'tab) StreamNode \<Rightarrow>
   gostring option \<times> ('id, 'tab) StreamNode" where
  "HandleConnState kad os conn closed n =
     (if \<not> closed then (None, n)
      else
        (case deregisterProvider (o_services os) (o_streams os) conn (n_world n) of
           (None, w) \<Rightarrow> (None, n\<lparr>n_world := w\<rparr>)
         | (Some a, w) \<Rightarrow>
             (let n = n\<lparr>n_world := w\<rparr>;
                  n = (case pv_kadId (w_pv w a) of
                         None \<Rightarrow> n
                       | Some i \<Rightarrow> n\<lparr>n_table := Table_Delete kad (n_table n) (ID_Pub kad i)\<rparr>);
                  addr = Provider_Addr kad (w_pv w a)
              in (if n_clients n addr = None then None else Some addr, n))))"

definition setStreamTransmitServer :: "('id, 'tab) StreamNode \<Rightarrow> ('id, 'tab) StreamNode" where
  [simp]: "setStreamTransmitServer n = n\<lparr>n_Srv := True\<rparr>"

definition Start :: "('id, 'tab) StreamNode \<Rightarrow> goerr option \<times> ('id, 'tab) StreamNode" where
  "Start n =
     (if n_start n then (Some (ErrNew ''listener already started''), n)
      else (None, setStreamTransmitServer (n\<lparr>n_start := True\<rparr>)))"

text \<open>
  \<^verbatim>\<open>Shutdown\<close>: whether it shuts the server down. Without a server it calls a method on a nil
  pointer, which panics.
\<close>

definition Shutdown :: "('id, 'tab) StreamNode \<Rightarrow> bool result \<times> ('id, 'tab) StreamNode" where
  "Shutdown n =
     (if \<not> n_start n then (Ok False, n\<lparr>n_start := True\<rparr>)
      else if n_stop n then (Ok False, n)
      else (if n_Srv n then Ok True else Panic ''nil pointer dereference'', n\<lparr>n_stop := True\<rparr>))"

text \<open>
  \<^verbatim>\<open>GenerateSecretKey\<close>: \<open>gen\<close> is what \<^verbatim>\<open>kademlia.GenerateKeys(nil)\<close> returns.
\<close>

definition GenerateSecretKey :: "goerr + (bytes \<times> bytes) \<Rightarrow> bytes result" where
  "GenerateSecretKey gen = (case gen of Inl _ \<Rightarrow> Panic ''error'' | Inr (_, secret) \<Rightarrow> Ok secret)"

section \<open>Pushing\<close>

text \<open>
  \<^verbatim>\<open>StreamNode.Push\<close> over the shuffled providers: \<open>push a\<close> is \<^verbatim>\<open>Provider.Push\<close> on provider
  \<open>a\<close>, from the state it is called in to the state in which it returns.
\<close>

fun try_providers ::
  "(nat \<Rightarrow> 's \<Rightarrow> (goerr + nat) \<times> 's) \<Rightarrow> gostring list \<Rightarrow> nat option list \<Rightarrow> 's \<Rightarrow> nat result \<times> 's" where
  "try_providers push services [] s =
     (Err (Errorf ''no nodes were able to process your request for service(s): %s'' [ArgStrs services]), s)"
| "try_providers push services (None # ps) s = (Panic ''nil pointer dereference'', s)"
| "try_providers push services (Some a # ps) s =
     (case push a s of
        (Inr x, s) \<Rightarrow> (Ok x, s)
      | (Inl e, s) \<Rightarrow>
          if errors_Is e ErrProviderNotAvailable then try_providers push services ps s else (Err e, s))"

definition StreamNode_Push ::
  "orders \<Rightarrow> (nat option list \<Rightarrow> nat option list) \<Rightarrow> (nat \<Rightarrow> 's \<Rightarrow> (goerr + nat) \<times> 's) \<Rightarrow> gostring list \<Rightarrow>
   ('id, 'tab) StreamNode \<Rightarrow> 's \<Rightarrow> nat result \<times> 's" where
  "StreamNode_Push os shuffle push services n s =
     try_providers push services (shuffle (getProviders (o_conns os) services (n_world n))) s"

section \<open>Probing an address\<close>

text \<open>
  \<^verbatim>\<open>getResolvedString\<close>: \<open>resolve\<close> stands for \<^verbatim>\<open>net.ResolveTCPAddr\<close>, \<^verbatim>\<open>ResolveUDPAddr\<close> and
  \<^verbatim>\<open>ResolveIPAddr\<close> and returns the address, nil or not, with the rest of the resolved value;
  \<open>show\<close> is its \<^verbatim>\<open>String\<close> method, and \<open>zero\<close> is \<^verbatim>\<open>net.ParseIP("0.0.0.0")\<close>.
\<close>

definition getResolvedString ::
  "(u8 \<Rightarrow> gostring \<Rightarrow> goerr + (bytes option \<times> 'z)) \<Rightarrow> (u8 \<Rightarrow> bytes \<Rightarrow> 'z \<Rightarrow> gostring) \<Rightarrow> bytes \<Rightarrow>
   ('id, 'tab) StreamNode \<Rightarrow> gostring \<Rightarrow> goerr + gostring" where
  "getResolvedString resolve show zero n addr =
     (let np = n_NetProtocol n
      in if np = NetProtocolTCP \<or> np = NetProtocolUDP \<or> np = NetProtocolIP
         then (case resolve np addr of
                 Inl e \<Rightarrow> Inl e
               | Inr (ip, z) \<Rightarrow> Inr (show np (case ip of None \<Rightarrow> zero | Some ip \<Rightarrow> ip) z))
         else Inl (ErrNew ''unknown the net protocol type, must be tcp/udp/ip''))"

text \<open>
  \<^verbatim>\<open>ProbeWithAddr\<close>: \<open>get\<close> is what the client's \<^verbatim>\<open>Get\<close> returns, \<open>res\<close> the outcome of the
  handshake request on the connection.
\<close>

definition ProbeWithAddr ::
  "('id, 'tab) kademlia \<Rightarrow> orders \<Rightarrow> (goerr + gostring) \<Rightarrow> (nat \<Rightarrow> goerr + nat) \<Rightarrow> (goerr + bytes) \<Rightarrow>
   ('id, 'tab) StreamNode \<Rightarrow> unit result \<times> ('id, 'tab) StreamNode \<times> bytes list" where
  "ProbeWithAddr kad os resolved get res n =
     (case resolved of
        Inl e \<Rightarrow> (Err e, n, [])
      | Inr k \<Rightarrow>
          (case getClient k n of
             (client, n) \<Rightarrow>
               (case get client of
                  Inl e \<Rightarrow> (Err e, n, [])
                | Inr conn \<Rightarrow> probe kad os conn res n)))"

section \<open>Providers for services\<close>

text \<open>
  The loop of \<^verbatim>\<open>ProvidersFor\<close> over the providers found: the map from public keys to providers.
\<close>

fun collect_providers ::
  "('id, 'tab) kademlia \<Rightarrow> 'id world \<Rightarrow> nat option list \<Rightarrow> (bytes \<rightharpoonup> nat) \<Rightarrow> (bytes \<rightharpoonup> nat) result" where
  "collect_providers kad w [] m = Ok m"
| "collect_providers kad w (None # ps) m = Panic ''nil pointer dereference''"
| "collect_providers kad w (Some a # ps) m =
     (case pv_kadId (w_pv w a) of
        None \<Rightarrow> Panic ''nil pointer dereference''
      | Some i \<Rightarrow> collect_providers kad w ps (m(ID_Pub kad i \<mapsto> a)))"

text \<open>\<open>kiter\<close> is the order in which the run time visits the map.\<close>

definition ProvidersFor ::
  "('id, 'tab) kademlia \<Rightarrow> orders \<Rightarrow> (bytes set \<Rightarrow> bytes list) \<Rightarrow> gostring list \<Rightarrow> ('id, 'tab) StreamNode \<Rightarrow>
   nat list result" where
  "ProvidersFor kad os kiter services n =
     (case collect_providers kad (n_world n) (getProviders (o_conns os) services (n_world n)) Map.empty of
        Ok m \<Rightarrow> Ok (map (\<lambda>pub. the (m pub)) (kiter (dom m)))
      | Err e \<Rightarrow> Err e
      | Panic p \<Rightarrow> Panic p)"

section \<open>Reconnecting\<close>

text \<open>
  What one attempt of the reconnection goroutine meets: the resolved address, the client's
  \<^verbatim>\<open>Get\<close>, the answer to the handshake, and what the rest of the node does before the next attempt.
\<close>

record ('id, 'tab) retry =
  rt_resolved :: "goerr + gostring"
  rt_get :: "nat \<Rightarrow> goerr + nat"
  rt_res :: "goerr + bytes"
  rt_others :: "('id, 'tab) StreamNode \<Rightarrow> ('id, 'tab) StreamNode"

text \<open>
  The loop, with the attempts still allowed: the outcome, the node and the number of attempts
  made. The outcome is whether the peer was reached.
\<close>

fun reconnect_loop ::
  "('id, 'tab) kademlia \<Rightarrow> orders \<Rightarrow> (nat \<Rightarrow> ('id, 'tab) retry) \<Rightarrow> nat \<Rightarrow> nat \<Rightarrow> ('id, 'tab) StreamNode \<Rightarrow>
   bool result \<times> ('id, 'tab) StreamNode \<times> nat" where
  "reconnect_loop kad os env i 0 n = (Ok False, n, i)"
| "reconnect_loop kad os env i (Suc k) n =
     (case ProbeWithAddr kad os (rt_resolved (env i)) (rt_get (env i)) (rt_res (env i)) n of
        (Ok _, n, _) \<Rightarrow> (Ok True, n, Suc i)
      | (Err e, n, _) \<Rightarrow> reconnect_loop kad os env (Suc i) k (rt_others (env i) n)
      | (Panic p, n, _) \<Rightarrow> (Panic p, n, Suc i))"

definition reconnect ::
  "('id, 'tab) kademlia \<Rightarrow> orders \<Rightarrow> (nat \<Rightarrow> ('id, 'tab) retry) \<Rightarrow> ('id, 'tab) StreamNode \<Rightarrow>
   bool result \<times> ('id, 'tab) StreamNode \<times> nat" where
  "reconnect kad os env n = reconnect_loop kad os env 0 8 n"

end
