(* ===== verification/Rpc_Node_Properties.thy ===== *)
theory Rpc_Node_Properties
  imports Rpc_Node
begin

text \<open>
  What two nodes do together: a handshake in both directions, a request's body and a handler's
  response carried from one node to the other in packets, what a node does with messages of
  strangers, and which messages make it panic.
\<close>

section \<open>Receiving\<close>

text \<open>A connection's messages in order, as the read loop of the receiving node handles them.\<close>

fun receive ::
  "bytesutil \<Rightarrow> ('id, 'tab) kademlia \<Rightarrow> orders \<Rightarrow> nat \<Rightarrow> bytes list \<Rightarrow> ('id, 'tab) StreamNode \<Rightarrow>
   unit result \<times> ('id, 'tab) StreamNode" where
  "receive bu kad os conn [] n = (Ok (), n)"
| "receive bu kad os conn (m # ms) n =
     (case HandleMessage bu kad os None Taken conn m n of
        (Ok _, n, _) \<Rightarrow> receive bu kad os conn ms n
      | (Err e, n, _) \<Rightarrow> (Err e, n)
      | (Panic p, n, _) \<Rightarrow> (Panic p, n))"

lemma receive_append:
  "receive bu kad os conn (ms @ ms') n =
     (case receive bu kad os conn ms n of
        (Ok _, n) \<Rightarrow> receive bu kad os conn ms' n
      | (r, n) \<Rightarrow> (r, n))"
  by (induction ms arbitrary: n) (auto split: prod.splits result.splits)

text \<open>A stream that is open and filed under its id with a connected provider.\<close>

definition live :: "('id, 'tab) StreamNode \<Rightarrow> nat \<Rightarrow> nat \<Rightarrow> nat \<Rightarrow> u32 \<Rightarrow> bool" where
  "live n conn a x sid \<longleftrightarrow> w_providers (n_world n) conn = Some a \<and>
     pv_streams (w_pv (n_world n) a) sid = Some x \<and> st_ID (w_sm (n_world n) x) = sid \<and>
     \<not> pipe_done (st_pipe (w_sm (n_world n) x))"

definition read_more :: "nat \<Rightarrow> bytes \<Rightarrow> ('id, 'tab) StreamNode \<Rightarrow> ('id, 'tab) StreamNode" where
  "read_more x b n = (let w = n_world n in
     n\<lparr>n_world := w\<lparr>w_sm := (w_sm w)(x := (w_sm w x)\<lparr>st_read := st_read (w_sm w x) @ b\<rparr>)\<rparr>\<rparr>)"

lemma live_read_more [simp]: "live (read_more x b n) conn a x sid = live n conn a x sid"
  by (simp add: live_def read_more_def Let_def)

lemma read_more_twice: "read_more x b (read_more x c n) = read_more x (c @ b) n"
  by (simp add: read_more_def Let_def)

lemma read_more_Nil [simp]: "read_more x [] n = n"
  by (simp add: read_more_def Let_def)

text \<open>What the empty packet does.\<close>

definition ended :: "nat \<Rightarrow> nat \<Rightarrow> ('id, 'tab) StreamNode \<Rightarrow> ('id, 'tab) StreamNode" where
  "ended a x n = n\<lparr>n_world := CloseStreamWithError a x EOF (n_world n)\<rparr>"

context bytesutil_spec
begin

lemma data_message:
  assumes "length d < 65536"
  shows "HandleMessage bu kad os env f conn
      (DataPacket_AppendTo bu \<lparr>dp_StreamID = sid, dp_Data = d\<rparr> [OpCodeData]) n =
    (case w_providers (n_world n) conn of
       None \<Rightarrow> (Err err_not_provider, n, [])
     | Some a \<Rightarrow> handle_data bu f conn (DataPacket_AppendTo bu \<lparr>dp_StreamID = sid, dp_Data = d\<rparr> []) n)"
  by (simp add: HandleMessage_def DataPacket_AppendTo_eq opcode_defs handle_data_def FindProvider_def
      split: option.split)

lemma data_decodes:
  "length d < 65536 \<Longrightarrow> UnmarshalDataPacket bu (DataPacket_AppendTo bu \<lparr>dp_StreamID = sid, dp_Data = d\<rparr> []) =
     Ok \<lparr>dp_StreamID = sid, dp_Data = d\<rparr>"
  using data_tagged [of "\<lparr>dp_StreamID = sid, dp_Data = d\<rparr>" "[]"] by simp

text \<open>One chunk reaches the reader of its stream.\<close>

lemma receive_chunk:
  assumes "live n conn a x sid" "d \<noteq> []" "length d \<le> ChunkSize"
  shows "HandleMessage bu kad os None Taken conn
      (DataPacket_AppendTo bu \<lparr>dp_StreamID = sid, dp_Data = d\<rparr> [OpCodeData]) n = (Ok (), read_more x d n, [])"
proof -
  have l: "length d < 65536" using assms(3) by (simp add: ChunkSize_def)
  have "write_stream x d Taken (n_world n) = (None, (n_world n)\<lparr>w_sm := (w_sm (n_world n))
      (x := (w_sm (n_world n) x)\<lparr>st_read := st_read (w_sm (n_world n) x) @ d\<rparr>)\<rparr>)"
    using assms(1) by (simp add: write_stream_def pipeWriter_Write_def PipeWriter_Write_def live_def)
  with assms l show ?thesis
    by (simp add: data_message handle_data_def FindProvider_def data_decodes GetStream_def live_def
        read_more_def Let_def)
qed

lemma receive_end:
  assumes "live n conn a x sid"
  shows "HandleMessage bu kad os env f conn
      (DataPacket_AppendTo bu \<lparr>dp_StreamID = sid, dp_Data = []\<rparr> [OpCodeData]) n = (Ok (), ended a x n, [])"
  using assms by (simp add: data_message handle_data_def FindProvider_def data_decodes GetStream_def
      live_def ended_def)

lemma receive_chunks:
  assumes "\<forall>c \<in> set cs. c \<noteq> [] \<and> length c \<le> ChunkSize" "live n conn a x sid"
  shows "receive bu kad os conn (data_messages bu sid cs) n = (Ok (), read_more x (concat cs) n)"
  using assms
proof (induction cs arbitrary: n)
  case Nil
  then show ?case by (simp add: data_messages_def)
next
  case (Cons c cs)
  then have "receive bu kad os conn (data_messages bu sid cs) (read_more x c n) =
      (Ok (), read_more x (concat cs) (read_more x c n))"
    by (intro Cons.IH) simp_all
  with Cons.prems receive_chunk [of n conn a x sid c] show ?case
    by (simp add: data_messages_def read_more_twice)
qed

end

section \<open>What a handler sends\<close>

fun calls_data :: "handler_call list \<Rightarrow> bytes list" where
  "calls_data [] = []"
| "calls_data (CallWriteHeader k v # cs) = calls_data cs"
| "calls_data (CallWrite d # cs) = d # calls_data cs"

text \<open>The response headers at the first write that is not empty, if there is one.\<close>

fun first_headers :: "(gostring \<times> gostring) list \<Rightarrow> handler_call list \<Rightarrow> (gostring \<times> gostring) list option" where
  "first_headers hs [] = None"
| "first_headers hs (CallWriteHeader k v # cs) = first_headers (AList.update k v hs) cs"
| "first_headers hs (CallWrite d # cs) = (if d = [] then first_headers hs cs else Some hs)"

lemma run_handler_written:
  assumes "rc_written c"
  shows "snd (run_handler bu (\<lambda>_. None) cs c out) =
      out @ data_messages bu (rc_streamId c) (concat (map chunks_of (calls_data cs))) \<and>
    rc_written (fst (run_handler bu (\<lambda>_. None) cs c out))"
  using assms
  by (induction cs arbitrary: c out rule: calls_data.induct)
    (simp_all add: data_messages_def WriteHeader_def Context_Write_ok)

lemma run_handler_first:
  assumes "\<not> rc_written c" "first_headers (rc_responseHeaders c) cs = Some hs"
  shows "snd (run_handler bu (\<lambda>_. None) cs c out) =
      out @ ServiceResponsePacket_AppendTo bu (response_packet (rc_streamId c) True (Some hs))
               [OpCodeServiceResponse] #
             data_messages bu (rc_streamId c) (concat (map chunks_of (calls_data cs))) \<and>
    rc_written (fst (run_handler bu (\<lambda>_. None) cs c out))"
  using assms
proof (induction cs arbitrary: c out rule: calls_data.induct)
  case (3 d cs)
  show ?case
  proof (cases "d = []")
    case True
    with 3 show ?thesis by (simp add: Context_Write_ok)
  next
    case False
    with 3 show ?thesis by (simp add: Context_Write_ok run_handler_written data_messages_def)
  qed
qed (simp_all add: WriteHeader_def)

fun final_headers :: "(gostring \<times> gostring) list \<Rightarrow> handler_call list \<Rightarrow> (gostring \<times> gostring) list" where
  "final_headers hs [] = hs"
| "final_headers hs (CallWriteHeader k v # cs) = final_headers (AList.update k v hs) cs"
| "final_headers hs (CallWrite d # cs) = final_headers hs cs"

lemma run_handler_silent:
  assumes "\<not> rc_written c" "first_headers (rc_responseHeaders c) cs = None"
  shows "snd (run_handler bu (\<lambda>_. None) cs c out) = out \<and>
    rc_responseHeaders (fst (run_handler bu (\<lambda>_. None) cs c out)) =
      final_headers (rc_responseHeaders c) cs \<and>
    \<not> rc_written (fst (run_handler bu (\<lambda>_. None) cs c out)) \<and>
    rc_streamId (fst (run_handler bu (\<lambda>_. None) cs c out)) = rc_streamId c"
  using assms
  by (induction cs arbitrary: c out rule: calls_data.induct)
    (auto simp: Context_Write_ok WriteHeader_def split: if_splits)

definition pool_clean :: "'id RpcContext list \<Rightarrow> bool" where
  "pool_clean p \<longleftrightarrow> (\<forall>c \<in> set p. \<not> rc_written c \<and> rc_responseHeaders c = [])"

lemma acquired_clean:
  assumes "pool_clean p" "RpcContextPool_acquire kid hs body sid conn p pick = (c, p')"
  shows "\<not> rc_written c" "rc_responseHeaders c = []" "rc_streamId c = sid" "pool_clean p'"
  using assms
  by (auto simp: RpcContextPool_acquire_def pool_clean_def dest!: in_set_takeD in_set_dropD
      split: option.splits if_splits)

lemma released_clean: "pool_clean p \<Longrightarrow> pool_clean (RpcContextPool_release c p)"
  by (simp add: RpcContextPool_release_def pool_clean_def)

text \<open>The messages of a request that is served over a healthy connection.\<close>

lemma serve_out:
  assumes "serve bu (\<lambda>_. None) calls b y hs conn pick pool w = Ok (w', pool', out)" "pool_clean pool"
    and "first_headers [] calls = Some rh"
  shows "out = ServiceResponsePacket_AppendTo bu (response_packet (st_ID (w_sm w y)) True (Some rh))
      [OpCodeServiceResponse] #
    data_messages bu (st_ID (w_sm w y)) (concat (map chunks_of (calls_data calls)) @ [[]])"
proof -
  obtain kid where k: "pv_kadId (w_pv w b) = Some kid"
    using assms(1) by (auto simp: serve_def split: option.splits)
  obtain c p where a: "RpcContextPool_acquire kid hs y (st_ID (w_sm w y)) conn pool pick = (c, p)"
    by fastforce
  note c = acquired_clean [OF assms(2) a]
  obtain c' out' where r: "run_handler bu (\<lambda>_. None) calls c [] = (c', out')" by fastforce
  with run_handler_first [of c calls rh bu "[]"] c(1,2,3) assms(3)
  have "out' = ServiceResponsePacket_AppendTo bu (response_packet (st_ID (w_sm w y)) True (Some rh))
      [OpCodeServiceResponse] #
    data_messages bu (st_ID (w_sm w y)) (concat (map chunks_of (calls_data calls)))" "rc_written c'"
    by simp_all
  with assms(1) k a r show ?thesis by (auto simp: serve_def Let_def data_messages_def)
qed

lemma serve_pool_clean:
  assumes "serve bu env calls b y hs conn pick pool w = Ok (w', pool', out)" "pool_clean pool"
  shows "pool_clean pool'"
proof -
  obtain kid where k: "pv_kadId (w_pv w b) = Some kid"
    using assms(1) by (auto simp: serve_def split: option.splits)
  obtain c p where a: "RpcContextPool_acquire kid hs y (st_ID (w_sm w y)) conn pool pick = (c, p)"
    by fastforce
  have "\<exists>c'. pool' = RpcContextPool_release c' p"
    using assms(1) by (auto simp: serve_def Let_def k a split: prod.splits)
  with released_clean [OF acquired_clean(4) [OF assms(2) a]] show ?thesis by blast
qed

lemma serve_silent_out:
  assumes "serve bu (\<lambda>_. None) calls b y hs conn pick pool w = Ok (w', pool', out)" "pool_clean pool"
    and "first_headers [] calls = None"
  shows "out = [ServiceResponsePacket_AppendTo bu (response_packet (st_ID (w_sm w y)) True
    (Some (final_headers [] calls))) [OpCodeServiceResponse]]"
proof -
  obtain kid where k: "pv_kadId (w_pv w b) = Some kid"
    using assms(1) by (auto simp: serve_def split: option.splits)
  obtain c p where a: "RpcContextPool_acquire kid hs y (st_ID (w_sm w y)) conn pool pick = (c, p)"
    by fastforce
  note c = acquired_clean [OF assms(2) a]
  obtain c' out' where r: "run_handler bu (\<lambda>_. None) calls c [] = (c', out')" by fastforce
  with run_handler_silent [of c calls bu "[]"] c(1,2,3) assms(3)
  have "out' = []" "\<not> rc_written c'" "rc_streamId c' = st_ID (w_sm w y)"
    "rc_responseHeaders c' = final_headers [] calls" by simp_all
  with assms(1) k a r show ?thesis by (auto simp: serve_def Let_def)
qed

section \<open>What the requester receives\<close>

definition with_header :: "nat \<Rightarrow> ServiceResponsePacket \<Rightarrow> ('id, 'tab) StreamNode \<Rightarrow> ('id, 'tab) StreamNode" where
  "with_header x p n = (let w = n_world n in
     n\<lparr>n_world := w\<lparr>w_sm := (w_sm w)(x := once_Done ((w_sm w x)\<lparr>st_Header := Some p\<rparr>))\<rparr>\<rparr>)"

lemma live_with_header [simp]: "live (with_header x p n) conn a x sid = live n conn a x sid"
  by (simp add: live_def with_header_def once_Done_def Let_def)

context bytesutil_spec
begin

lemma receive_response:
  assumes "live n conn a x sid" "headers_fit hs"
  shows "HandleMessage bu kad os env f conn
      (ServiceResponsePacket_AppendTo bu (response_packet sid handled hs) [OpCodeServiceResponse]) n =
    (Ok (), with_header x (response_packet sid handled (normal_headers hs)) n, [])"
proof -
  have "UnmarshalServiceResponsePacket bu
      (drop 1 (ServiceResponsePacket_AppendTo bu (response_packet sid handled hs) [OpCodeServiceResponse])) =
    Ok (response_packet sid handled (normal_headers hs))"
    using response_tagged [of "response_packet sid handled hs" "[OpCodeServiceResponse]"] assms(2)
    by (simp add: response_packet_def)
  with assms(1) show ?thesis
    by (simp add: ServiceResponsePacket_AppendTo_eq HandleMessage_def opcode_defs handle_response_def
        FindProvider_def GetStream_def live_def with_header_def Let_def)
      (simp add: response_packet_def Let_def)
qed

lemma receive_served:
  assumes "live n conn a x sid" "headers_fit (Some rh)"
  shows "receive bu kad os conn
      (ServiceResponsePacket_AppendTo bu (response_packet sid True (Some rh)) [OpCodeServiceResponse] #
       data_messages bu sid (concat (map chunks_of ds) @ [[]])) n =
    (Ok (), ended a x (read_more x (concat ds) (with_header x (response_packet sid True (Some rh)) n)))"
proof -
  let ?n = "with_header x (response_packet sid True (Some rh)) n"
  have l: "live ?n conn a x sid" using assms(1) by simp
  have sz: "\<forall>c \<in> set (concat (map chunks_of ds)). c \<noteq> [] \<and> length c \<le> ChunkSize"
    using chunks_of_sizes by auto
  have "concat (concat (map chunks_of ds)) = concat ds"
    by (induction ds) simp_all
  with receive_chunks [OF sz l] receive_end [of "read_more x (concat ds) ?n" conn a x sid] l
  show ?thesis
    using receive_response [OF assms, of kad os None Taken True]
    by (simp add: data_messages_def receive_append normal_headers_def)
qed

end

section \<open>What the provider receives\<close>

text \<open>The state after a request has been accepted: a fresh stream is filed under its id.\<close>

definition accepted :: "nat \<Rightarrow> u32 \<Rightarrow> ('id, 'tab) StreamNode \<Rightarrow> ('id, 'tab) StreamNode" where
  "accepted b sid m = m\<lparr>n_world := snd (put_stream b sid (n_world m))\<rparr>"

lemma accepted_live:
  "w_providers (n_world m) conn = Some b \<Longrightarrow> live (accepted b sid m) conn b (w_nsm (n_world m)) sid"
  by (simp add: live_def accepted_def put_stream_def new_Stream_def createWrappedPipe_def pipe_done_def)

context bytesutil_spec
begin

lemma receive_request:
  assumes "w_providers (n_world m) conn = Some b" "pv_streams (w_pv (n_world m) b) (req_StreamId p) = None"
    and "services_fit (req_Services p)" "headers_fit (req_Headers p)"
  shows "HandleMessage bu kad os None f conn (ServiceRequestPacket_AppendTo bu p [OpCodeServiceRequest]) m =
    (Ok (), accepted b (req_StreamId p) m,
     [case find_handler (n_Services m) (req_Services p) of
        Some h \<Rightarrow> Serve h b (w_nsm (n_world m)) (normal_headers (req_Headers p)) conn
      | None \<Rightarrow> NoWait (ServiceResponsePacket_AppendTo bu (response_packet (req_StreamId p) False None)
          [OpCodeServiceResponse])])"
proof -
  have "UnmarshalServiceRequestPacket bu
      (drop 1 (ServiceRequestPacket_AppendTo bu p [OpCodeServiceRequest])) =
    Ok (p\<lparr>req_Headers := normal_headers (req_Headers p)\<rparr>)"
    using request_tagged [of p "[OpCodeServiceRequest]"] assms(3,4) by simp
  with assms(1,2) show ?thesis
    by (simp add: ServiceRequestPacket_AppendTo_eq HandleMessage_def opcode_defs handle_request_def
        FindProvider_def RegisterStreamWithServiceRequestPacket_def accepted_def put_stream_def
        Let_def of_err_def split: option.split)
qed

end

lemma push_out:
  assumes "Provider_Push bu (\<lambda>_. None) services hs reads a w [] = (x, st, w', out)"
    and "body_chunks reads = Some cs"
  shows "st = Sent" and "w' = snd (NextStream a w)" and "x = w_nsm w"
    and "out = ServiceRequestPacket_AppendTo bu
        \<lparr>req_StreamId = pv_counter (w_pv w a), req_Services = services, req_Headers = hs\<rparr>
        [OpCodeServiceRequest] # data_messages bu (pv_counter (w_pv w a)) cs"
  using assms
  by (auto simp: Provider_Push_def push_body_ok NextStream_def put_stream_def new_Stream_def Let_def)

section \<open>Properties\<close>

text \<open>
  (C4) A response arrives complete and in order: the messages with which a node serves a request,
  handled in order by the requesting node, end without an error; the requester then has the
  response headers as they were at the handler's first write, the readers of its stream have got
  exactly the bytes the handler wrote, whatever the sizes of the writes, and then the end of the
  stream, and \<^verbatim>\<open>Push\<close> returns the stream.
\<close>

theorem response_delivered:
  assumes "bytesutil_spec bu"
    and "serve bu (\<lambda>_. None) calls b y hs conn pick pool w = Ok (w', pool', out)" and "pool_clean pool"
    and "first_headers [] calls = Some rh" and "headers_fit (Some rh)"
    and "streams_ok (n_world n)" and "live n c a x (st_ID (w_sm w y))"
  shows "\<exists>n'. receive bu kad os c out n = (Ok (), n') \<and>
    st_read (w_sm (n_world n') x) = st_read (w_sm (n_world n) x) @ concat (calls_data calls) \<and>
    st_Header (w_sm (n_world n') x) = Some (response_packet (st_ID (w_sm w y)) True (Some rh)) \<and>
    st_wg (w_sm (n_world n') x) = 0 \<and> push_result services x (n_world n') = Inr x \<and>
    (\<forall>offer k. pipeReader_Read (st_pipe (w_sm (n_world n') x)) offer k = Some ([], Some EOF)) \<and>
    pool_clean pool'"
proof -
  let ?sid = "st_ID (w_sm w y)" and ?p = "response_packet (st_ID (w_sm w y)) True (Some rh)"
  let ?m = "read_more x (concat (calls_data calls)) (with_header x ?p n)"
  have out: "receive bu kad os c out n = (Ok (), ended a x ?m)"
    unfolding serve_out [OF assms(2-4)]
    by (rule bytesutil_spec.receive_served [OF assms(1,7,5)])
  have x: "x < w_nsm (n_world n)" "st_wg (w_sm (n_world n) x) = (if st_once (w_sm (n_world n) x) then 0 else 1)"
    using assms(6,7) by (auto simp: streams_ok_def tables_def live_def)
  have s: "w_sm (n_world (ended a x ?m)) x = shut_stream EOF (w_sm (n_world ?m) x)"
    by (simp add: ended_def CloseStreamWithError_def)
  have h: "st_read (w_sm (n_world ?m) x) = st_read (w_sm (n_world n) x) @ concat (calls_data calls)"
    "st_Header (w_sm (n_world ?m) x) = Some ?p" "st_wg (w_sm (n_world ?m) x) = 0" "st_once (w_sm (n_world ?m) x)"
    using x(2) by (simp_all add: read_more_def with_header_def once_Done_def Let_def)
  have "st_wg (shut_stream EOF (w_sm (n_world ?m) x)) = 0" using h(3,4) shut_wg by simp
  moreover have "resp_Handled ?p" by (simp add: response_packet_def)
  moreover have "pool_clean pool'" by (rule serve_pool_clean [OF assms(2,3)])
  ultimately show ?thesis
    using out h(1,2) by (intro exI [of _ "ended a x ?m"]) (simp add: s push_result_def shut_reads)
qed

text \<open>
  (C5) A request arrives complete and in order: what \<^verbatim>\<open>Push\<close> sends for a body, handled in order
  by a node that knows the connection and does not use the stream id, is accepted; a handler for
  the first offered service is started with the headers and a fresh stream, the readers of the
  stream get exactly the body, however its reads were cut, and then the end of the stream.
\<close>

theorem push_delivers_body:
  assumes "bytesutil_spec bu"
    and "Provider_Push bu (\<lambda>_. None) services hs reads a w [] = (x, st, w', out)"
    and "body_chunks reads = Some (cs @ [[]])" and "\<forall>c \<in> set cs. c \<noteq> [] \<and> length c \<le> ChunkSize"
    and "services_fit services" and "headers_fit hs"
    and "w_providers (n_world m) conn = Some b"
    and "pv_streams (w_pv (n_world m) b) (pv_counter (w_pv w a)) = None"
    and "find_handler (n_Services m) services = Some h" and "y = w_nsm (n_world m)"
  shows "st = Sent \<and>
    (\<exists>m1. HandleMessage bu kad os None Taken conn (hd out) m =
       (Ok (), m1, [Serve h b y (normal_headers hs) conn])) \<and>
    (\<exists>m'. receive bu kad os conn out m = (Ok (), m') \<and>
       st_read (w_sm (n_world m') y) = concat cs \<and>
       (\<forall>offer k. pipeReader_Read (st_pipe (w_sm (n_world m') y)) offer k = Some ([], Some EOF)))"
proof -
  let ?sid = "pv_counter (w_pv w a)"
  let ?m1 = "accepted b ?sid m"
  note out = push_out [OF assms(2,3)]
  have first: "HandleMessage bu kad os None Taken conn (hd out) m =
      (Ok (), ?m1, [Serve h b y (normal_headers hs) conn])"
    using bytesutil_spec.receive_request [OF assms(1,7), of "\<lparr>req_StreamId = ?sid, req_Services = services, req_Headers = hs\<rparr>"]
      assms(5,6,8-10) by (simp add: out)
  have l: "live ?m1 conn b y ?sid" using accepted_live [OF assms(7)] assms(10) by simp
  have "receive bu kad os conn (data_messages bu ?sid (cs @ [[]])) ?m1 =
      (Ok (), ended b y (read_more y (concat cs) ?m1))"
    using bytesutil_spec.receive_chunks [OF assms(1,4) l]
      bytesutil_spec.receive_end [OF assms(1), of "read_more y (concat cs) ?m1" conn b y ?sid] l
    by (simp add: data_messages_def receive_append)
  moreover have "st_read (w_sm (n_world ?m1) y) = []"
    by (simp add: accepted_def put_stream_def new_Stream_def assms(10))
  ultimately show ?thesis
    using first by (auto simp: out ended_def CloseStreamWithError_def read_more_def Let_def shut_reads)
qed

text \<open>
  (C31) A handler that writes nothing leaves the requester's stream open: the only message sent is
  the response header, so after it \<^verbatim>\<open>Push\<close> returns the stream, but the stream stays filed and a
  read from it blocks; no end of the stream is ever sent.
\<close>

theorem silent_handler_never_ends_stream:
  assumes "bytesutil_spec bu"
    and "serve bu (\<lambda>_. None) calls b y hs conn pick pool w = Ok (w', pool', out)" and "pool_clean pool"
    and "first_headers [] calls = None"
    and "headers_fit (Some (final_headers [] calls))"
    and "live n c a x (st_ID (w_sm w y))"
  shows "\<exists>n'. receive bu kad os c out n = (Ok (), n') \<and> push_result services x (n_world n') = Inr x \<and>
    GetStream a (st_ID (w_sm w y)) (n_world n') = Some x \<and>
    pipeReader_Read (st_pipe (w_sm (n_world n') x)) None k = None"
proof -
  note out = serve_silent_out [OF assms(2-4)]
  let ?n = "with_header x (response_packet (st_ID (w_sm w y)) True (Some (final_headers [] calls))) n"
  have "receive bu kad os c out n = (Ok (), ?n)"
    using bytesutil_spec.receive_response [OF assms(1,6,5)]
    by (simp add: out normal_headers_def)
  moreover have "live ?n c a x (st_ID (w_sm w y))" using assms(6) by simp
  then have "GetStream a (st_ID (w_sm w y)) (n_world ?n) = Some x"
    "pipeReader_Read (st_pipe (w_sm (n_world ?n) x)) None k = None"
    by (simp_all add: live_def GetStream_def pipeReader_Read_def PipeReader_Read_def)
  moreover have "push_result services x (n_world ?n) = Inr x"
    by (simp add: push_result_def with_header_def once_Done_def Let_def response_packet_def)
  ultimately show ?thesis by blast
qed

text \<open>
  A node has no business with strangers: on a connection that has not completed a handshake,
  service requests, responses and data are refused without any change of state and without any
  output, whatever the bytes.
\<close>

lemma strangers_refused:
  assumes "w_providers (n_world n) conn = None"
    and "op = OpCodeServiceRequest \<or> op = OpCodeServiceResponse \<or> op = OpCodeData"
  shows "HandleMessage bu kad os env f conn (op # body) n = (Err err_not_provider, n, [])"
  using assms
  by (auto simp: HandleMessage_def opcode_defs handle_request_def handle_response_def handle_data_def
      FindProvider_def)

lemma createHandshakePacket_no_panic: "\<not> is_panic (createHandshakePacket kad os n buf)"
  by (auto simp: createHandshakePacket_def Let_def AppendPayloadTo_eq split: option.split)

lemma of_err_no_panic [simp]: "\<not> is_panic (of_err e)"
  by (simp add: of_err_def split: option.split)

lemma is_panicI: "r = Panic m \<Longrightarrow> is_panic r"
  by simp

lemma handle_handshake_no_panic:
  assumes "kademlia_spec kad keypair"
  shows "\<not> is_panic (fst (handle_handshake kad os env conn body n))"
  using kademlia_spec.handshake_no_panic [OF assms, of body] Validate_no_panic [of kad]
    createHandshakePacket_no_panic [of kad os]
  by (auto simp: handle_handshake_def Let_def split: result.splits option.splits prod.splits dest: is_panicI)

lemma handle_request_panics:
  "is_panic (fst (handle_request bu env conn body n)) \<longleftrightarrow>
     w_providers (n_world n) conn \<noteq> None \<and> length body = 4"
  using UnmarshalServiceRequestPacket_panics [of bu body]
  by (auto simp: handle_request_def FindProvider_def Let_def
      split: result.splits option.splits prod.splits)

lemma handle_response_no_panic: "\<not> is_panic (fst (handle_response bu conn body n))"
  using UnmarshalServiceResponsePacket_no_panic [of bu body]
  by (auto simp: handle_response_def Let_def split: result.split option.split)

lemma handle_data_no_panic: "\<not> is_panic (fst (handle_data bu f conn body n))"
  using UnmarshalDataPacket_no_panic [of bu body]
  by (auto simp: handle_data_def Let_def split: result.split option.split prod.split)

lemma handle_find_node_no_panic:
  assumes "kademlia_spec kad keypair"
  shows "\<not> is_panic (fst (handle_find_node kad env body n))"
  using kademlia_spec.find_no_panic [OF assms, of body]
  by (auto simp: handle_find_node_def split: result.split)

lemmas handlers_panic = handle_request_panics handle_response_no_panic handle_data_no_panic

text \<open>
  (C16) Which messages crash a node: handling a message panics exactly for a service request of
  four bytes on a connection with a handshake. Every peer that has shaken hands can stop the
  process with five bytes.
\<close>

theorem node_panics_exactly:
  assumes "kademlia_spec kad keypair"
  shows "is_panic (fst (HandleMessage bu kad os env f conn body n)) \<longleftrightarrow>
    w_providers (n_world n) conn \<noteq> None \<and> length body = 5 \<and> hd body = OpCodeServiceRequest"
  by (auto simp: HandleMessage_def opcode_defs handle_handshake_no_panic [OF assms]
      handle_find_node_no_panic [OF assms] handlers_panic split: list.split)

section \<open>Handshakes\<close>

text \<open>A node that can be reached: a valid identity with its key, and service names that fit.\<close>

definition node_ready ::
  "('id, 'tab) kademlia \<Rightarrow> (bytes \<Rightarrow> bytes \<Rightarrow> bool) \<Rightarrow> 'id \<Rightarrow> ('id, 'tab) StreamNode \<Rightarrow> bool" where
  "node_ready kad keypair i n \<longleftrightarrow> n_KadId n = Some i \<and> ID_Validate kad i = None \<and>
     keypair (n_SecretKey n) (ID_Pub kad i) \<and> finite (dom (n_Services n)) \<and>
     card (dom (n_Services n)) < 256 \<and> (\<forall>s \<in> dom (n_Services n). ValidString s \<and> length s \<le> 255)"

definition own_handshake :: "('id, 'tab) kademlia \<Rightarrow> orders \<Rightarrow> 'id \<Rightarrow> ('id, 'tab) StreamNode \<Rightarrow> 'id HandshakePacket" where
  "own_handshake kad os i n = \<lparr>hs_KadId = Some i, hs_Services = getServiceNames os n,
     hs_Signature = PrivateKey_Sign kad (n_SecretKey n) (ID_AppendTo kad i [] @ concat (getServiceNames os n))\<rparr>"

lemma createHandshakePacket_own:
  "n_KadId n = Some i \<Longrightarrow> createHandshakePacket kad os n [] = Ok (own_handshake kad os i n)"
  by (simp add: createHandshakePacket_def Let_def AppendPayloadTo_eq own_handshake_def)

lemma own_handshake_frame [simp]:
  "own_handshake kad os i (n\<lparr>n_world := w\<rparr>) = own_handshake kad os i n"
  "own_handshake kad os i (n\<lparr>n_table := t\<rparr>) = own_handshake kad os i n"
  "hs_KadId (own_handshake kad os i n) = Some i"
  by (simp_all add: own_handshake_def getServiceNames_def)

context kademlia_spec
begin

lemma own_handshake_accepted:
  assumes "node_ready kad keypair i n" "orders_ok os"
  shows "UnmarshalHandshakePacket kad (drop (length dst) (HandshakePacket_AppendTo kad (own_handshake kad os i n) dst)) =
      Ok (own_handshake kad os i n)"
    and "HandshakePacket_Validate kad (own_handshake kad os i n) [] = Ok None"
    and "set (hs_Services (own_handshake kad os i n)) = dom (n_Services n)"
proof -
  let ?h = "own_handshake kad os i n"
  have it: "set (getServiceNames os n) = dom (n_Services n)" "length (getServiceNames os n) = card (dom (n_Services n))"
    using assms distinct_card [of "getServiceNames os n"]
    by (auto simp: getServiceNames_def node_ready_def orders_ok_def map_range.iter_set map_range.iter_distinct)
  have "length s < 256" if "s \<in> dom (n_Services n)" for s
  proof -
    have "length s \<le> 255" using assms(1) that by (auto simp: node_ready_def simp del: domIff)
    then show ?thesis by simp
  qed
  then have "handshake_fits kad ?h"
    using assms(1) by (simp add: handshake_fits_def own_handshake_def services_fit_def it node_ready_def sign_size)
  from handshake_tagged [OF this, of dst]
  show "UnmarshalHandshakePacket kad (drop (length dst) (HandshakePacket_AppendTo kad ?h dst)) = Ok ?h"
    by (simp add: handshake_normal_def own_handshake_def)
  show "HandshakePacket_Validate kad ?h [] = Ok None"
    using assms(1) it(1) sign_verify by (auto simp: Validate_ok_iff own_handshake_def node_ready_def)
  show "set (hs_Services ?h) = dom (n_Services n)" by (simp add: own_handshake_def it)
qed

end

lemma registered:
  assumes "registerProvider conn kid ss outgoing w = (r, w')"
  shows "\<exists>a. w_providers w' conn = Some a \<and> pv_kadId (w_pv w' a) = kid \<and> set ss \<subseteq> pv_services (w_pv w' a)"
proof (cases r)
  case (Pair a e)
  from register_effect [OF assms [unfolded Pair]] show ?thesis by (intro exI [of _ a]) simp
qed

text \<open>
  (C11) Two nodes that can be reached shake hands: the message a probing node sends is accepted,
  and the reply it gets is accepted in turn. Afterwards each has a provider for the connection
  with the other's identity and all of its services, and each has put the other into its
  routing table.
\<close>

theorem handshake_mutual:
  assumes "kademlia_spec kad keypair" and "orders_ok osA" and "orders_ok osB"
    and "node_ready kad keypair i A" and "node_ready kad keypair j B"
  shows "\<exists>req reply A' B'.
    HandleMessage bu kad osB None f cB req B = (Ok (), B', [Reply reply]) \<and>
    probe kad osA cA (Inr reply) A = (Ok (), A', [req]) \<and>
    (\<exists>b. w_providers (n_world B') cB = Some b \<and> pv_kadId (w_pv (n_world B') b) = Some i \<and>
       dom (n_Services A) \<subseteq> pv_services (w_pv (n_world B') b)) \<and>
    (\<exists>a. w_providers (n_world A') cA = Some a \<and> pv_kadId (w_pv (n_world A') a) = Some j \<and>
       dom (n_Services B) \<subseteq> pv_services (w_pv (n_world A') a)) \<and>
    n_table B' = Table_Update kad (n_table B) i \<and> n_table A' = Table_Update kad (n_table A) j"
proof -
  let ?hA = "own_handshake kad osA i A" and ?hB = "own_handshake kad osB j B"
  let ?req = "HandshakePacket_AppendTo kad ?hA [OpCodeHandshake]" and ?reply = "HandshakePacket_AppendTo kad ?hB []"
  note accA = kademlia_spec.own_handshake_accepted [OF assms(1,4,2)]
  note accB = kademlia_spec.own_handshake_accepted [OF assms(1,5,3)]
  have idA: "n_KadId A = Some i" and idB: "n_KadId B = Some j"
    using assms(4,5) by (simp_all add: node_ready_def)
  obtain rB wB where B: "registerProvider cB (Some i) (hs_Services ?hA) False (n_world B) = (rB, wB)"
    by fastforce
  obtain rA wA where A: "registerProvider cA None [] True (n_world A) = (rA, wA)" by fastforce
  obtain rA' wA' where A': "registerProvider cA (Some j) (hs_Services ?hB) True wA = (rA', wA')" by fastforce
  let ?B = "B\<lparr>n_world := wB, n_table := Table_Update kad (n_table B) i\<rparr>"
  let ?A = "A\<lparr>n_world := wA', n_table := Table_Update kad (n_table A) j\<rparr>"
  have "hd ?req = OpCodeHandshake" "tl ?req = drop 1 ?req" "?req \<noteq> []"
    by (simp_all add: kademlia_spec.HandshakePacket_AppendTo_eq [OF assms(1)] drop_Suc)
  then have req: "?req = OpCodeHandshake # drop (length [OpCodeHandshake]) ?req"
    by (metis One_nat_def length_Cons list.collapse list.size(3))
  have "HandleMessage bu kad osB None f cB ?req B = (Ok (), ?B, [Reply ?reply])"
    by (subst req)
      (simp add: HandleMessage_def handle_handshake_def accA(1) [where dst = "[OpCodeHandshake]", simplified]
        accA(2) B createHandshakePacket_own idB of_err_def Let_def)
  moreover have "probe kad osA cA (Inr ?reply) A = (Ok (), ?A, [?req])"
    by (simp add: probe_def A A' createHandshakePacket_own idA Let_def accB(1) [where dst = "[]", simplified]
        accB(2))
  ultimately show ?thesis
    using registered [OF B] registered [OF A']
    by (intro exI [of _ ?req] exI [of _ ?reply] exI [of _ ?A] exI [of _ ?B]) (simp add: accA(3) accB(3))
qed

text \<open>
  (C30) A peer without an identity crashes the node with its first request: its handshake is
  accepted, since an identity is optional, its request for any service the node offers starts
  a handler, and the goroutine of that handler dereferences the missing identity.
\<close>

theorem anonymous_request_panics:
  assumes "kademlia_spec kad keypair" and "bytesutil_spec bu"
    and "n_Services n s = Some h" and "length s < 256" and "w_providers (n_world n) c = None"
  shows "\<exists>n1 out n2 b y hs.
    HandleMessage bu kad os None f c (HandshakePacket_AppendTo kad
      \<lparr>hs_KadId = None, hs_Services = [], hs_Signature = []\<rparr> [OpCodeHandshake]) n = (Ok (), n1, out) \<and>
    HandleMessage bu kad os None f c (ServiceRequestPacket_AppendTo bu
      \<lparr>req_StreamId = 1, req_Services = [s], req_Headers = None\<rparr> [OpCodeServiceRequest]) n1 =
      (Ok (), n2, [Serve h b y hs c]) \<and>
    (\<forall>env calls pick pool. is_panic (serve bu env calls b y hs c pick pool (n_world n2)))"
proof -
  let ?h = "\<lparr>hs_KadId = None, hs_Services = [], hs_Signature = []\<rparr>"
  let ?z = "\<lparr>hs_KadId = None, hs_Services = [], hs_Signature = replicate (SizeSignature kad) 0\<rparr>"
  let ?p = "\<lparr>req_StreamId = 1, req_Services = [s], req_Headers = None\<rparr>"
  have "UnmarshalHandshakePacket kad (drop (length [OpCodeHandshake]) (HandshakePacket_AppendTo kad ?h [OpCodeHandshake])) = Ok ?z"
    using kademlia_spec.handshake_tagged [OF assms(1), of ?h "[OpCodeHandshake]"]
    by (simp add: handshake_fits_def services_fit_def handshake_normal_def)
  then have d: "UnmarshalHandshakePacket kad [0, 0] = Ok ?z"
    by (simp add: HandshakePacket_AppendTo_def)
  obtain b e w where r: "registerProvider c None [] False (n_world n) = ((b, e), w)" by (metis prod.exhaust)
  note eff = register_effect [OF r]
  let ?n1 = "n\<lparr>n_world := w\<rparr>"
  obtain h' where "createHandshakePacket kad os ?n1 [] = Ok h'"
    by (cases "n_KadId n") (auto simp: createHandshakePacket_def AppendPayloadTo_eq Let_def)
  then have m1: "HandleMessage bu kad os None f c (HandshakePacket_AppendTo kad ?h [OpCodeHandshake]) n =
      (Ok (), ?n1, [Reply (HandshakePacket_AppendTo kad h' [])])"
    by (simp add: HandleMessage_def HandshakePacket_AppendTo_def handle_handshake_def d
        HandshakePacket_Validate_def r of_err_def opcode_defs Let_def)
  have b: "w_providers w c = Some b" "pv_streams (w_pv w b) = Map.empty" "pv_kadId (w_pv w b) = None"
    using eff(2) assms(5) by (simp_all add: eff(3,5))
  have m2: "HandleMessage bu kad os None f c (ServiceRequestPacket_AppendTo bu ?p [OpCodeServiceRequest]) ?n1 =
      (Ok (), accepted b 1 ?n1, [Serve h b (w_nsm w) (normal_headers None) c])"
    using bytesutil_spec.receive_request [OF assms(2), of ?n1 c b ?p kad os f] assms(3,4) b
    by (simp add: services_fit_def headers_fit_def)
  have "pv_kadId (w_pv (n_world (accepted b 1 ?n1)) b) = None"
    using b(3) by (simp add: accepted_def put_stream_def)
  then have "is_panic (serve bu env calls b (w_nsm w) (normal_headers None) c pick pool
      (n_world (accepted b 1 ?n1)))" for env calls pick pool
    by (simp add: serve_def)
  with m1 m2 show ?thesis by blast
qed

lemma push_body_failed:
  assumes "push_body bu env a x sid reads w out = (Failed e, w', out')"
    and "\<forall>k d. env k = Some d \<longrightarrow> \<not> errors_Is d ErrProviderNotAvailable"
    and "\<forall>c d. (c, Some d) \<in> set reads \<longrightarrow> \<not> errors_Is d ErrProviderNotAvailable"
  shows "\<not> errors_Is e ErrProviderNotAvailable"
  using assms
proof (induction reads arbitrary: out)
  case Nil
  then show ?case by simp
next
  case (Cons r reads)
  show ?case
  proof (cases r)
    case (Pair c err)
    with Cons show ?thesis
      by (auto simp: Send_def ErrProviderNotAvailable_def Let_def split: if_splits option.splits)
  qed
qed

text \<open>
  Trying the next provider loses nothing of the request: when \<^verbatim>\<open>Provider.Push\<close> fails in a
  way that makes the node try another provider, it has attempted the header only and has not
  read from the body, as long as neither the connection nor the body reports that very error.
  Its stream is closed.
\<close>

lemma push_retries_before_body:
  assumes "Provider_Push bu env services hs reads a w out = (x, Failed e, w', out')"
    and "errors_Is e ErrProviderNotAvailable"
    and "\<forall>k d. env k = Some d \<longrightarrow> \<not> errors_Is d ErrProviderNotAvailable"
    and "\<forall>c d. (c, Some d) \<in> set reads \<longrightarrow> \<not> errors_Is d ErrProviderNotAvailable"
  shows "(\<forall>reads'. Provider_Push bu env services hs reads' a w out = (x, Failed e, w', out')) \<and>
    length out' = Suc (length out) \<and> GetStream a (pv_counter (w_pv w a)) w' = None"
proof (cases "env (length out)")
  case None
  obtain y v where n: "NextStream a w = (y, v)" by fastforce
  from None assms(1) obtain m where "push_body bu env a y (st_ID (w_sm v y)) reads v m = (Failed e, w', out')"
    by (auto simp: Provider_Push_def Send_def Let_def n)
  from push_body_failed [OF this assms(3,4)] assms(2) show ?thesis by contradiction
next
  case (Some d)
  obtain y v where n: "NextStream a w = (y, v)" by fastforce
  from Some assms(1) show ?thesis
    using NextStream_step [OF n]
    by (auto simp: Provider_Push_def Send_def Let_def n GetStream_def CloseStreamWithError_def)
qed

section \<open>Witnesses\<close>

text \<open>A requesting node with one stream to its provider, and a node that serves the request.\<close>

definition asking_world :: "kid world" where
  "asking_world = snd (registerProvider 5 None [] True new_world)"

definition asking_node :: "(kid, kid list) StreamNode" where
  "asking_node = (NewStreamNode [1] None [])\<lparr>n_world := snd (NextStream 0 asking_world)\<rparr>"

definition serving_world :: "kid world" where
  "serving_world = snd (registerProvider 7 (Some example_kid) [] False new_world)"

definition serving_node :: "(kid, kid list) StreamNode" where
  "serving_node = (NewStreamNode [1, 2, 3] (Some example_kid) [])\<lparr>n_world := serving_world,
     n_Services := [[97] \<mapsto> 4]\<rparr>"

lemmas world_defs = asking_world_def serving_world_def registerProvider_def new_provider_def new_world_def
  NextStream_def put_stream_def new_Stream_def createWrappedPipe_def Let_def

lemma asking_live: "live asking_node 5 0 0 1"
  by (simp add: live_def asking_node_def pipe_done_def world_defs)

lemma asking_streams: "streams_ok (n_world asking_node)"
proof -
  have "streams_ok asking_world"
    unfolding asking_world_def using register_streams_ok [OF streams_ok_new] by (metis prod.collapse)
  from NextStream_ok [OF this, of 0 "fst (NextStream 0 asking_world)"] show ?thesis
    by (simp add: asking_node_def)
qed

definition served_world :: "kid world" where
  "served_world = snd (put_stream 0 1 serving_world)"

definition example_calls :: "handler_call list" where
  "example_calls = [CallWriteHeader [1] [2], CallWrite [9, 9], CallWrite [8]]"

lemma served_id: "st_ID (w_sm served_world 0) = 1"
  by (simp add: served_world_def world_defs)

lemma served_ok: "\<exists>w p out. serve bu env calls 0 0 None 7 None [] served_world = Ok (w, p, out)"
  by (auto simp: serve_def served_world_def world_defs split: prod.split option.split)

theorem response_delivered_witness:
  "\<exists>w p out n'. serve (bytesutil_model 3) (\<lambda>_. None) example_calls 0 0 None 7 None [] served_world = Ok (w, p, out) \<and>
     receive (bytesutil_model 3) kad_model sorted_orders 5 out asking_node = (Ok (), n') \<and>
     st_read (w_sm (n_world n') 0) = [9, 9, 8]"
proof -
  obtain w p out where s: "serve (bytesutil_model 3) (\<lambda>_. None) example_calls 0 0 None 7 None [] served_world = Ok (w, p, out)"
    using served_ok by blast
  have "pool_clean ([] :: kid RpcContext list)" "first_headers [] example_calls = Some [([1], [2])]"
    "headers_fit (Some [([1], [2])])" "live asking_node 5 0 0 (st_ID (w_sm served_world 0))"
    by (simp_all add: pool_clean_def example_calls_def headers_fit_def served_id asking_live)
  from response_delivered [OF bm.bytesutil_spec_axioms s this(1-3) asking_streams this(4), of kad_model sorted_orders]
  obtain n' where "receive (bytesutil_model 3) kad_model sorted_orders 5 out asking_node = (Ok (), n')"
    "st_read (w_sm (n_world n') 0) = st_read (w_sm (n_world asking_node) 0) @ concat (calls_data example_calls)"
    by blast
  moreover have "st_read (w_sm (n_world asking_node) 0) = []" by (simp add: asking_node_def world_defs)
  ultimately show ?thesis using s by (auto simp: example_calls_def)
qed

theorem silent_handler_never_ends_stream_witness:
  "\<exists>w p out n'. serve (bytesutil_model 3) (\<lambda>_. None) [] 0 0 None 7 None [] served_world = Ok (w, p, out) \<and>
     receive (bytesutil_model 3) kad_model sorted_orders 5 out asking_node = (Ok (), n') \<and>
     pipeReader_Read (st_pipe (w_sm (n_world n') 0)) None 10 = None"
proof -
  obtain w p out where s: "serve (bytesutil_model 3) (\<lambda>_. None) [] 0 0 None 7 None [] served_world = Ok (w, p, out)"
    using served_ok by blast
  have "pool_clean ([] :: kid RpcContext list)" "first_headers [] [] = None"
    "headers_fit (Some (final_headers [] []))" "live asking_node 5 0 0 (st_ID (w_sm served_world 0))"
    by (simp_all add: pool_clean_def headers_fit_def served_id asking_live)
  from silent_handler_never_ends_stream [OF bm.bytesutil_spec_axioms s this] s show ?thesis by blast
qed

theorem push_delivers_body_witness:
  "\<exists>x st w' out m'. Provider_Push (bytesutil_model 3) (\<lambda>_. None) [[97]] None
       [([4, 5], None), ([6], Some EOF), ([], Some EOF)] 0 asking_world [] = (x, st, w', out) \<and>
     receive (bytesutil_model 3) kad_model sorted_orders 7 out serving_node = (Ok (), m') \<and>
     st_read (w_sm (n_world m') 0) = [4, 5, 6]"
proof -
  let ?reads = "[([4, 5], None), ([6], Some EOF), ([], Some EOF)] :: (bytes \<times> goerr option) list"
  obtain x st w' out where p: "Provider_Push (bytesutil_model 3) (\<lambda>_. None) [[97]] None ?reads 0 asking_world [] =
      (x, st, w', out)" by (metis prod.exhaust)
  have "body_chunks ?reads = Some ([[4, 5], [6]] @ [[]])"
    "\<forall>c \<in> set [[4, 5 :: byte], [6]]. c \<noteq> [] \<and> length c \<le> ChunkSize"
    "services_fit [[97]]" "headers_fit None" "w_providers (n_world serving_node) 7 = Some 0"
    "pv_streams (w_pv (n_world serving_node) 0) (pv_counter (w_pv asking_world 0)) = None"
    "find_handler (n_Services serving_node) [[97]] = Some 4" "0 = w_nsm (n_world serving_node)"
    by (simp_all add: ChunkSize_def services_fit_def headers_fit_def serving_node_def world_defs)
  from push_delivers_body [OF bm.bytesutil_spec_axioms p this, of kad_model sorted_orders] p
  show ?thesis by auto
qed

theorem node_panics_exactly_witness:
  "is_panic (fst (HandleMessage (bytesutil_model 3) kad_model sorted_orders None Taken 7 [1, 0, 0, 0, 0] serving_node))"
  unfolding node_panics_exactly [OF km.kademlia_spec_axioms]
  by (simp add: serving_node_def world_defs opcode_defs)

lemma serving_ready: "node_ready kad_model (=) example_kid serving_node"
  by (simp add: node_ready_def serving_node_def example_kid_def kad_model_def kid_validate_def NewStreamNode_def)

theorem handshake_mutual_witness:
  "\<exists>req reply A' B'.
    HandleMessage (bytesutil_model 3) kad_model sorted_orders None Taken 9 req serving_node = (Ok (), B', [Reply reply]) \<and>
    probe kad_model sorted_orders 11 (Inr reply) serving_node = (Ok (), A', [req])"
  using handshake_mutual [OF km.kademlia_spec_axioms sorted_orders_ok sorted_orders_ok serving_ready serving_ready]
  by blast

theorem anonymous_request_panics_witness:
  "\<exists>n1 n2 b y hs.
    HandleMessage (bytesutil_model 3) kad_model sorted_orders None Taken 8
      (ServiceRequestPacket_AppendTo (bytesutil_model 3)
        \<lparr>req_StreamId = 1, req_Services = [[97]], req_Headers = None\<rparr> [OpCodeServiceRequest]) n1 =
      (Ok (), n2, [Serve 4 b y hs 8]) \<and>
    is_panic (serve (bytesutil_model 3) (\<lambda>_. None) [] b y hs 8 None [] (n_world n2))"
proof -
  have "n_Services serving_node [97] = Some 4" "length [97 :: byte] < 256" "w_providers (n_world serving_node) 8 = None"
    by (simp_all add: serving_node_def world_defs)
  from anonymous_request_panics [OF km.kademlia_spec_axioms bm.bytesutil_spec_axioms this, of 3 sorted_orders Taken]
  show ?thesis by blast
qed

end
