(* ===== verification/Rpc_Node_Machine.thy ===== *)
theory Rpc_Node_Machine
  imports Rpc_Node_Properties Carlo_Systems
begin

text \<open>
  A node under everything that can happen to it: messages on any connection, probes, connections
  that close, streams that are opened and closed by pushes and by handlers, in any order. The
  invariant \<open>node_ok\<close> is the type of a well-formed node; what looks providers up relies on it.
\<close>

section \<open>The invariant\<close>

definition world_ok :: "'id world \<Rightarrow> bool" where
  "world_ok w \<longleftrightarrow> index_ok w \<and> streams_ok w"

definition clients_ok :: "(gostring \<rightharpoonup> nat) \<Rightarrow> nat \<Rightarrow> bool" where
  "clients_ok m k \<longleftrightarrow> (\<forall>a c. m a = Some c \<longrightarrow> c < k) \<and> (\<forall>a b c. m a = Some c \<longrightarrow> m b = Some c \<longrightarrow> a = b)"

definition node_ok :: "('id, 'tab) StreamNode \<Rightarrow> bool" where
  "node_ok n \<longleftrightarrow> world_ok (n_world n) \<and> clients_ok (n_clients n) (n_nclients n) \<and>
     n_NetProtocol n \<in> {NetProtocolTCP, NetProtocolUDP, NetProtocolIP} \<and>
     (n_stop n \<longrightarrow> n_start n) \<and> (n_Srv n \<longrightarrow> n_start n)"

section \<open>Steps\<close>

inductive node_step ::
  "bytesutil \<Rightarrow> ('id, 'tab) kademlia \<Rightarrow> orders \<Rightarrow> ('id, 'tab) StreamNode \<Rightarrow> ('id, 'tab) StreamNode \<Rightarrow> bool"
  for bu :: bytesutil and kad :: "('id, 'tab) kademlia" and os :: orders where
  message: "HandleMessage bu kad os env f conn body n = (r, n', out) \<Longrightarrow> \<not> is_panic r \<Longrightarrow>
     node_step bu kad os n n'"
| probing: "ProbeWithAddr kad os resolved get res n = (r, n', reqs) \<Longrightarrow> \<not> is_panic r \<Longrightarrow>
     node_step bu kad os n n'"
| conn_state: "HandleConnState kad os conn closed n = (addr, n') \<Longrightarrow> node_step bu kad os n n'"
| open_stream: "NextStream a (n_world n) = (x, w) \<Longrightarrow> node_step bu kad os n (n\<lparr>n_world := w\<rparr>)"
| close_stream: "node_step bu kad os n (n\<lparr>n_world := CloseStreamWithError a x e (n_world n)\<rparr>)"
| close_body: "node_step bu kad os n (n\<lparr>n_world := (n_world n)\<lparr>w_sm := (w_sm (n_world n))(x :=
     (w_sm (n_world n) x)\<lparr>st_pipe := Reader_CloseWithError None (st_pipe (w_sm (n_world n) x))\<rparr>)\<rparr>\<rparr>)"
| protocol: "node_step bu kad os n (SetNetProtocol np n)"
| start: "Start n = (e, n') \<Longrightarrow> node_step bu kad os n n'"
| shutdown: "Shutdown n = (r, n') \<Longrightarrow> \<not> is_panic r \<Longrightarrow> node_step bu kad os n n'"

definition node_init :: "bytes \<Rightarrow> 'id option \<Rightarrow> 'tab \<Rightarrow> (gostring \<rightharpoonup> nat) \<Rightarrow> ('id, 'tab) StreamNode" where
  "node_init sk kid tab services = (NewStreamNode sk kid tab)\<lparr>n_Services := services\<rparr>"

definition node_reachable ::
  "bytesutil \<Rightarrow> ('id, 'tab) kademlia \<Rightarrow> orders \<Rightarrow> ('id, 'tab) StreamNode \<Rightarrow> bool" where
  "node_reachable bu kad os n \<longleftrightarrow>
     (\<exists>sk kid tab services. (node_step bu kad os)\<^sup>*\<^sup>* (node_init sk kid tab services) n)"

interpretation node: transition_system "\<lambda>n. \<exists>sk kid tab services. n = node_init sk kid tab services"
    "node_step bu kad os" for bu kad os .

lemma node_reach: "node.reach bu kad os n \<longleftrightarrow> node_reachable bu kad os n"
  unfolding node.reach_def node_reachable_def by blast

section \<open>Preservation\<close>

lemma world_ok_new: "world_ok new_world"
  by (simp add: world_ok_def)

lemma register_world_ok:
  assumes "world_ok w" "registerProvider conn kid ss outgoing w = (p, w')"
  shows "world_ok w'"
  using assms register_index_ok register_streams_ok by (cases p) (auto simp: world_ok_def)

lemma deregister_world_ok:
  assumes "world_ok w" "map_range siter" "deregisterProvider siter iter conn w = (r, w')"
  shows "world_ok w'"
  using assms deregister_index_ok deregister_streams_ok by (auto simp: world_ok_def)

lemma stream_world_ok:
  "world_ok w \<Longrightarrow> NextStream a w = (x, w') \<Longrightarrow> world_ok w'"
  "world_ok w \<Longrightarrow> RegisterStreamWithServiceRequestPacket a p w = (r, w') \<Longrightarrow> world_ok w'"
  "world_ok w \<Longrightarrow> world_ok (CloseStreamWithError a x e w)"
  using stream_ops_index(1) [of a w] stream_ops_index(2) [of a p w] stream_ops_index(3) [of a x e w]
  by (auto simp: world_ok_def intro: NextStream_ok Register_ok CloseStreamWithError_ok)

text \<open>A change of one stream that keeps its id and the protocol of its wait group.\<close>

lemma stream_update_ok:
  assumes "world_ok w" "st_ID s = st_ID (w_sm w x)"
    and "st_wg (w_sm w x) = (if st_once (w_sm w x) then 0 else 1) \<longrightarrow> st_wg s = (if st_once s then 0 else 1)"
  shows "world_ok (w\<lparr>w_sm := (w_sm w)(x := s)\<rparr>)"
proof -
  have "tables ((pv_streams \<circ> w_pv w)(0 := pv_streams (w_pv w 0))) ((w_sm w)(x := s)) (w_nsm w)"
    using assms by (intro tables_drop) (auto simp: world_ok_def streams_ok_def)
  moreover have "(pv_streams \<circ> w_pv w)(0 := pv_streams (w_pv w 0)) = pv_streams \<circ> w_pv w"
    by (simp add: fun_upd_idem)
  ultimately show ?thesis
    using assms(1) by (simp add: world_ok_def streams_ok_def index_ok_def offering_def)
qed

lemma write_stream_world_ok:
  assumes "world_ok w" "write_stream x b f w = (e, w')"
  shows "world_ok w'"
proof -
  obtain k err p where "pipeWriter_Write (st_pipe (w_sm w x)) b f = (k, err, p)" by (metis prod.exhaust)
  with assms show ?thesis by (auto simp: write_stream_def intro: stream_update_ok)
qed

text \<open>What a handler may do: change the world to a well-formed one, and the table.\<close>

definition keeps :: "('id, 'tab) StreamNode \<Rightarrow> ('id, 'tab) StreamNode \<Rightarrow> bool" where
  "keeps n n' \<longleftrightarrow> (world_ok (n_world n) \<longrightarrow> world_ok (n_world n')) \<and>
     n_start n' = n_start n \<and> n_stop n' = n_stop n \<and> n_Srv n' = n_Srv n \<and>
     n_NetProtocol n' = n_NetProtocol n \<and> n_clients n' = n_clients n \<and> n_nclients n' = n_nclients n"

lemma keeps_refl [simp]: "keeps n n"
  by (simp add: keeps_def)

lemma keeps_ok: "keeps n n' \<Longrightarrow> node_ok n \<Longrightarrow> node_ok n'"
  by (simp add: keeps_def node_ok_def)

lemma keeps_world: "(world_ok (n_world n) \<Longrightarrow> world_ok w) \<Longrightarrow> keeps n (n\<lparr>n_world := w\<rparr>)"
  by (simp add: keeps_def)

lemma handle_handshake_keeps: "handle_handshake kad os env conn body n = (r, n', out) \<Longrightarrow> keeps n n'"
  by (auto simp: handle_handshake_def keeps_def Let_def split: result.splits option.splits prod.splits
      dest: register_world_ok)

lemma handle_request_keeps: "handle_request bu env conn body n = (r, n', out) \<Longrightarrow> keeps n n'"
  by (auto simp: handle_request_def keeps_def Let_def split: result.splits option.splits prod.splits if_splits
      dest: stream_world_ok(2))

lemma handle_response_keeps:
  assumes "handle_response bu conn body n = (r, n', out)"
  shows "keeps n n'"
proof -
  have "world_ok (w\<lparr>w_sm := (w_sm w)(x := once_Done ((w_sm w x)\<lparr>st_Header := h\<rparr>))\<rparr>)" if "world_ok w" for w x h
    using that by (intro stream_update_ok) (simp_all add: once_Done_def)
  with assms show ?thesis
    by (auto simp: handle_response_def keeps_def Let_def split: result.splits option.splits prod.splits)
qed

lemma handle_data_keeps: "handle_data bu f conn body n = (r, n', out) \<Longrightarrow> keeps n n'"
  by (auto simp: handle_data_def keeps_def Let_def split: result.splits option.splits prod.splits if_splits
      dest: write_stream_world_ok intro!: stream_world_ok(3))

lemma handle_find_node_keeps: "handle_find_node kad env body n = (r, n', out) \<Longrightarrow> keeps n n'"
  by (auto simp: handle_find_node_def split: result.splits prod.splits)

lemma HandleMessage_keeps: "HandleMessage bu kad os env f conn body n = (r, n', out) \<Longrightarrow> keeps n n'"
  by (auto simp: HandleMessage_def split: list.splits if_splits intro: handle_handshake_keeps
      handle_request_keeps handle_response_keeps handle_data_keeps handle_find_node_keeps)

lemma probe_keeps:
  assumes "probe kad os conn res n = (r, n', reqs)"
  shows "keeps n n'"
proof -
  obtain p w where reg: "registerProvider conn None [] True (n_world n) = (p, w)" by (metis prod.exhaust)
  then have "world_ok (n_world n) \<Longrightarrow> world_ok w" by (rule register_world_ok [rotated])
  with assms reg show ?thesis
    by (auto simp: probe_def keeps_def Let_def split: result.splits option.splits prod.splits sum.splits
        dest: register_world_ok)
qed

lemma HandleConnState_keeps:
  assumes "HandleConnState kad os conn closed n = (addr, n')" "orders_ok os"
  shows "keeps n n'"
proof (cases closed)
  case True
  obtain r w where d: "deregisterProvider (o_services os) (o_streams os) conn (n_world n) = (r, w)"
    by (cases "deregisterProvider (o_services os) (o_streams os) conn (n_world n)")
  have w: "world_ok (n_world n) \<Longrightarrow> world_ok w"
    by (rule deregister_world_ok [OF _ _ d]) (use assms(2) in \<open>auto simp: orders_ok_def\<close>)
  show ?thesis
  proof (cases r)
    case None
    then have "n' = n\<lparr>n_world := w\<rparr>" using assms(1) True by (simp add: HandleConnState_def d)
    then show ?thesis using w by (simp add: keeps_def)
  next
    case (Some a)
    then show ?thesis
      using assms(1) True w
      by (cases "pv_kadId (w_pv w a)") (auto simp: HandleConnState_def d Let_def keeps_def)
  qed
qed (use assms(1) in \<open>simp add: HandleConnState_def\<close>)

lemma clients_ok_add: "clients_ok m k \<Longrightarrow> clients_ok (m(addr \<mapsto> k)) (Suc k)"
  by (auto simp: clients_ok_def less_Suc_eq)

lemma getClient_ok:
  assumes "node_ok n" "getClient addr n = (c, n')"
  shows "node_ok n' \<and> n_clients n' addr = Some c"
proof (cases "n_clients n addr")
  case None
  then have "n' = n\<lparr>n_clients := (n_clients n)(addr \<mapsto> n_nclients n), n_nclients := Suc (n_nclients n)\<rparr>"
    "c = n_nclients n" using assms(2) by (auto simp: getClient_def)
  then show ?thesis using assms(1) clients_ok_add [of "n_clients n" "n_nclients n" addr] by (simp add: node_ok_def)
qed (use assms in \<open>auto simp: getClient_def\<close>)

lemma ProbeWithAddr_ok:
  assumes "ProbeWithAddr kad os resolved get res n = (r, n', reqs)" "node_ok n"
  shows "node_ok n'"
proof (cases resolved)
  case (Inr k)
  obtain c m where c: "getClient k n = (c, m)" by (metis prod.exhaust)
  then have "node_ok m" using getClient_ok [OF assms(2)] by blast
  with assms(1) Inr c show ?thesis
    by (auto simp: ProbeWithAddr_def split: sum.splits intro: keeps_ok [OF probe_keeps])
qed (use assms in \<open>auto simp: ProbeWithAddr_def\<close>)

lemma node_ok_init: "node_ok (node_init sk kid tab services)"
  by (simp add: node_ok_def node_init_def NewStreamNode_def world_ok_new clients_ok_def)

lemma node_ok_step:
  assumes "node_step bu kad os n n'" "node_ok n" "orders_ok os"
  shows "node_ok n'"
  using assms
proof (induction rule: node_step.induct)
  case (close_body n x)
  then show ?case by (intro keeps_ok [OF keeps_world]) (auto intro: stream_update_ok)
next
  case (shutdown n r n')
  then show ?case by (auto simp: Shutdown_def node_ok_def split: if_splits)
next
  case (start n e n')
  then show ?case by (auto simp: Start_def node_ok_def split: if_splits)
next
  case (protocol n np)
  then show ?case by (auto simp: SetNetProtocol_def node_ok_def)
qed (auto intro: keeps_ok [OF HandleMessage_keeps] ProbeWithAddr_ok keeps_ok [OF HandleConnState_keeps]
    keeps_ok [OF keeps_world] stream_world_ok)

lemma node_always: "node_reachable bu kad os n \<Longrightarrow> orders_ok os \<Longrightarrow> node_ok n"
proof -
  assume "orders_ok os" "node_reachable bu kad os n"
  from this(2) show ?thesis
    unfolding node_reach [symmetric]
    by (induction rule: node.invariant) (auto intro: node_ok_init node_ok_step \<open>orders_ok os\<close>)
qed

section \<open>Looking providers up\<close>

text \<open>The providers that offer one of the services.\<close>

definition providing :: "gostring list \<Rightarrow> 'id world \<Rightarrow> nat set" where
  "providing services w =
     {a. \<exists>c. w_providers w c = Some a \<and> (\<exists>s \<in> set services. s \<in> pv_services (w_pv w a))}"

lemma getProviders_set:
  assumes "index_ok w" "map_range iter"
  shows "set (getProviders iter services w) = Some ` providing services w"
proof -
  have fin: "finite (offering w s)" for s
    using assms(1) by (auto simp: index_ok_def offering_def split: option.split)
  have mem: "c \<in> offering w s \<longleftrightarrow> (\<exists>a. w_providers w c = Some a \<and> s \<in> pv_services (w_pv w a))" for c s
    using assms(1) unfolding index_ok_def by blast
  have "set (getProviders iter services w) = (\<Union>s \<in> set services. w_providers w ` offering w s)"
    using assms(2) fin by (auto simp: getProviders_def map_range.iter_set)
  also have "\<dots> = Some ` providing services w"
  proof (intro equalityI subsetI)
    fix p assume "p \<in> (\<Union>s \<in> set services. w_providers w ` offering w s)"
    then obtain s c a where "s \<in> set services" "p = Some a" "w_providers w c = Some a" "s \<in> pv_services (w_pv w a)"
      by (auto simp: mem)
    then show "p \<in> Some ` providing services w" by (auto simp: providing_def image_iff)
  next
    fix p assume "p \<in> Some ` providing services w"
    then obtain a c s where p: "p = Some a" "w_providers w c = Some a" "s \<in> set services" "s \<in> pv_services (w_pv w a)"
      by (auto simp: providing_def)
    then have "c \<in> offering w s" "p = w_providers w c" by (simp_all add: mem)
    with p(3) show "p \<in> (\<Union>s \<in> set services. w_providers w ` offering w s)" by blast
  qed
  finally show ?thesis .
qed

definition pub_of :: "('id, 'tab) kademlia \<Rightarrow> 'id world \<Rightarrow> nat \<Rightarrow> bytes" where
  "pub_of kad w a = ID_Pub kad (the (pv_kadId (w_pv w a)))"

lemma collect_panics:
  "None \<notin> set ps \<Longrightarrow> \<exists>a. Some a \<in> set ps \<and> pv_kadId (w_pv w a) = None \<Longrightarrow> is_panic (collect_providers kad w ps m)"
  by (induction kad w ps m rule: collect_providers.induct) (auto split: option.split)

lemma collect_ok:
  assumes "None \<notin> set ps" "\<forall>a. Some a \<in> set ps \<longrightarrow> pv_kadId (w_pv w a) \<noteq> None"
  shows "\<exists>m'. collect_providers kad w ps m = Ok m' \<and> dom m' = dom m \<union> {pub_of kad w a |a. Some a \<in> set ps} \<and>
    (\<forall>k a. m' k = Some a \<longrightarrow> m k = Some a \<or> (Some a \<in> set ps \<and> pub_of kad w a = k))"
  using assms
proof (induction kad w ps m rule: collect_providers.induct)
  case (3 kad w a ps m)
  then obtain i where i: "pv_kadId (w_pv w a) = Some i" by auto
  have "None \<notin> set ps" "\<forall>a. Some a \<in> set ps \<longrightarrow> pv_kadId (w_pv w a) \<noteq> None" using 3(2,3) by auto
  from 3(1) [OF i this] obtain m' where m': "collect_providers kad w ps (m(ID_Pub kad i \<mapsto> a)) = Ok m'"
    "dom m' = dom (m(ID_Pub kad i \<mapsto> a)) \<union> {pub_of kad w a |a. Some a \<in> set ps}"
    "\<forall>k b. m' k = Some b \<longrightarrow> (m(ID_Pub kad i \<mapsto> a)) k = Some b \<or> (Some b \<in> set ps \<and> pub_of kad w b = k)"
    by blast
  have a: "pub_of kad w a = ID_Pub kad i" by (simp add: pub_of_def i)
  then have "{pub_of kad w b |b. Some b \<in> set (Some a # ps)} = insert (ID_Pub kad i) {pub_of kad w b |b. Some b \<in> set ps}"
    by auto metis
  with m' i a show ?case by (intro exI [of _ m']) (auto split: if_splits)
qed auto

section \<open>Properties\<close>

text \<open>
  (C7) A node is well formed whatever happens to it, in any order: its index of providers is
  exact, its stream tables are finite with every stream filed once and under its own id, every
  wait group of a stream is 1 before its release and 0 after it, different addresses have
  different clients, and its protocol is a known one. So looking providers up never yields a nil
  pointer and yields exactly the connected providers that offer one of the services.
\<close>

theorem node_wellformed:
  assumes "orders_ok os" and "node_reachable bu kad os n"
  shows "node_ok n \<and> None \<notin> set (getProviders (o_conns os) services (n_world n)) \<and>
    set (getProviders (o_conns os) services (n_world n)) = Some ` providing services (n_world n)"
proof -
  have ok: "node_ok n" by (rule node_always [OF assms(2,1)])
  then have "index_ok (n_world n)" by (simp add: node_ok_def world_ok_def)
  from getProviders_set [OF this] assms(1) ok show ?thesis by (auto simp: orders_ok_def)
qed

text \<open>
  (C36) \<^verbatim>\<open>ProvidersFor\<close> returns one provider for every public key among the connected providers
  that offer one of the services; it panics exactly when one of them is connected without an
  identity.
\<close>

theorem providers_for_exact:
  assumes "orders_ok os" and "map_range kiter" and "node_reachable bu kad os n"
    and "w = n_world n" and "P = providing services w"
  shows "if \<exists>a \<in> P. pv_kadId (w_pv w a) = None then is_panic (ProvidersFor kad os kiter services n)
    else \<exists>as. ProvidersFor kad os kiter services n = Ok as \<and> set as \<subseteq> P \<and>
      distinct (map (pub_of kad w) as) \<and> pub_of kad w ` set as = pub_of kad w ` P"
proof -
  let ?ps = "getProviders (o_conns os) services w"
  have ix: "index_ok w" using node_always [OF assms(3,1)] by (simp add: node_ok_def world_ok_def assms(4))
  have ps: "set ?ps = Some ` P"
    using getProviders_set [OF ix] assms(1) by (simp add: orders_ok_def assms(5))
  then have nn: "None \<notin> set ?ps" by auto
  have fin: "finite P" by (rule finite_imageD [of Some]) (simp_all flip: ps)
  show ?thesis
  proof (cases "\<exists>a \<in> P. pv_kadId (w_pv w a) = None")
    case True
    then have "is_panic (collect_providers kad w ?ps Map.empty)"
      using nn ps by (intro collect_panics) auto
    with True show ?thesis
      by (auto simp: ProvidersFor_def assms(4) [symmetric] split: result.split)
  next
    case False
    then have "\<forall>a. Some a \<in> set ?ps \<longrightarrow> pv_kadId (w_pv w a) \<noteq> None" by (auto simp: ps)
    from collect_ok [OF nn this, of kad Map.empty] obtain m where
      m: "collect_providers kad w ?ps Map.empty = Ok m" "dom m = pub_of kad w ` P"
      "\<And>k a. m k = Some a \<Longrightarrow> a \<in> P \<and> pub_of kad w a = k"
      by (auto simp: ps) (auto simp: image_iff)
    let ?as = "map (\<lambda>pub. the (m pub)) (kiter (dom m))"
    have it: "set (kiter (dom m)) = dom m" "distinct (kiter (dom m))"
      using assms(2) m(2) fin by (auto simp: map_range.iter_set map_range.iter_distinct)
    have the: "the (m k) \<in> P \<and> pub_of kad w (the (m k)) = k" if "k \<in> dom m" for k
      using that m(3) by force
    have map: "map (pub_of kad w) ?as = kiter (dom m)"
      unfolding map_map by (rule map_idI) (use the it(1) in auto)
    then have "pub_of kad w ` set ?as = dom m" by (metis it(1) set_map)
    moreover have "set ?as \<subseteq> P" using the it(1) by auto
    moreover have "ProvidersFor kad os kiter services n = Ok ?as"
      by (simp add: ProvidersFor_def assms(4) [symmetric] m(1))
    ultimately show ?thesis using False map it(2) m(2) by metis
  qed
qed

text \<open>
  A failed probe of a connected peer erases its identity: the provider stays registered with
  its services and without an identity, and from then on its next request for an offered service
  makes the node panic.
\<close>

lemma probe_failure_forgets_identity:
  assumes "w_providers (n_world n) conn = Some a" and "probe kad os conn res n = (Err e, n', reqs)"
  shows "w_providers (n_world n') conn = Some a \<and> pv_kadId (w_pv (n_world n') a) = None \<and>
    pv_services (w_pv (n_world n') a) = pv_services (w_pv (n_world n) a) \<and>
    is_panic (serve bu env calls a x hs conn pick pool (n_world n'))"
proof -
  obtain b ex w where reg: "registerProvider conn None [] True (n_world n) = ((b, ex), w)" by (metis prod.exhaust)
  note eff = register_effect [OF reg]
  have b: "b = a" "ex" using eff(1,2) assms(1) by simp_all
  have "n_world n' = w"
    using assms(2) by (auto simp: probe_def reg Let_def split: result.splits sum.splits option.splits prod.splits)
  moreover have "w_providers w conn = Some a" "pv_kadId (w_pv w a) = None"
    "pv_services (w_pv w a) = pv_services (w_pv (n_world n) a)" by (simp_all add: eff(3,5) b)
  ultimately show ?thesis by (simp add: serve_def)
qed

text \<open>The node as attempt \<open>i\<close> finds it, when all attempts before it have failed.\<close>

fun before_attempt ::
  "('id, 'tab) kademlia \<Rightarrow> orders \<Rightarrow> (nat \<Rightarrow> ('id, 'tab) retry) \<Rightarrow> ('id, 'tab) StreamNode \<Rightarrow> nat \<Rightarrow> ('id, 'tab) StreamNode" where
  "before_attempt kad os env n 0 = n"
| "before_attempt kad os env n (Suc i) = rt_others (env i) (fst (snd
     (ProbeWithAddr kad os (rt_resolved (env i)) (rt_get (env i)) (rt_res (env i)) (before_attempt kad os env n i))))"

definition attempt_result ::
  "('id, 'tab) kademlia \<Rightarrow> orders \<Rightarrow> (nat \<Rightarrow> ('id, 'tab) retry) \<Rightarrow> ('id, 'tab) StreamNode \<Rightarrow> nat \<Rightarrow> unit result" where
  "attempt_result kad os env n i = fst (ProbeWithAddr kad os (rt_resolved (env i)) (rt_get (env i)) (rt_res (env i))
     (before_attempt kad os env n i))"

lemma reconnect_loop_first:
  "reconnect_loop kad os env i k (before_attempt kad os env n i) = (r, n', t) \<Longrightarrow>
     (\<forall>j. i \<le> j \<and> j < i + k \<longrightarrow> \<not> is_panic (attempt_result kad os env n j)) \<Longrightarrow>
     t \<le> i + k \<and>
     (r = Ok False \<and> t = i + k \<and> (\<forall>j. i \<le> j \<and> j < t \<longrightarrow> (\<exists>e. attempt_result kad os env n j = Err e)) \<or>
      r = Ok True \<and> i < t \<and> attempt_result kad os env n (t - 1) = Ok () \<and>
        (\<forall>j. i \<le> j \<and> Suc j < t \<longrightarrow> (\<exists>e. attempt_result kad os env n j = Err e)))"
proof (induction k arbitrary: i)
  case 0
  then show ?case by auto
next
  case (Suc k)
  obtain q m reqs where p: "ProbeWithAddr kad os (rt_resolved (env i)) (rt_get (env i)) (rt_res (env i))
    (before_attempt kad os env n i) = (q, m, reqs)" by (metis prod.exhaust)
  then have q: "attempt_result kad os env n i = q" by (simp add: attempt_result_def)
  have "\<not> is_panic q" using Suc.prems(2) q by auto
  show ?case
  proof (cases q)
    case (Ok u)
    then show ?thesis using Suc.prems(1) p q by auto
  next
    case (Err e)
    then have "before_attempt kad os env n (Suc i) = rt_others (env i) m" by (simp add: p)
    with Suc.prems(1) Err p have "reconnect_loop kad os env (Suc i) k (before_attempt kad os env n (Suc i)) = (r, n', t)"
      by simp
    from Suc.IH [OF this] Suc.prems(2) have ih: "t \<le> Suc i + k \<and>
     (r = Ok False \<and> t = Suc i + k \<and> (\<forall>j. Suc i \<le> j \<and> j < t \<longrightarrow> (\<exists>e. attempt_result kad os env n j = Err e)) \<or>
      r = Ok True \<and> Suc i < t \<and> attempt_result kad os env n (t - 1) = Ok () \<and>
        (\<forall>j. Suc i \<le> j \<and> Suc j < t \<longrightarrow> (\<exists>e. attempt_result kad os env n j = Err e)))" by auto
    have "\<exists>e. attempt_result kad os env n i = Err e" using q Err by auto
    then have first: "(\<forall>j. i \<le> j \<and> P j \<longrightarrow> (\<exists>e. attempt_result kad os env n j = Err e)) \<longleftrightarrow>
      (\<forall>j. Suc i \<le> j \<and> P j \<longrightarrow> (\<exists>e. attempt_result kad os env n j = Err e))" for P
      by (metis Suc_leD Suc_leI le_neq_implies_less)
    from ih show ?thesis unfolding first by auto
  qed (use \<open>\<not> is_panic q\<close> in simp)
qed

lemma probe_no_panic:
  assumes "kademlia_spec kad keypair"
  shows "\<not> is_panic (fst (probe kad os conn res n))"
proof -
  obtain p w where reg: "registerProvider conn None [] True (n_world n) = (p, w)" by (metis prod.exhaust)
  show ?thesis
    using createHandshakePacket_no_panic [of kad os "n\<lparr>n_world := w\<rparr>" "[]"]
      kademlia_spec.handshake_no_panic [OF assms] Validate_no_panic [of kad]
    by (auto simp: probe_def reg Let_def split: result.splits sum.splits option.splits prod.splits dest: is_panicI)
qed

lemma ProbeWithAddr_no_panic:
  assumes "kademlia_spec kad keypair"
  shows "\<not> is_panic (fst (ProbeWithAddr kad os resolved get res n))"
  using probe_no_panic [OF assms]
  by (auto simp: ProbeWithAddr_def split: sum.split prod.split)

text \<open>
  (C37) The reconnection goroutine makes at most eight attempts and stops at the first that
  succeeds; it gives up exactly when all eight fail.
\<close>

theorem reconnect_stops_at_first:
  assumes "kademlia_spec kad keypair" and "reconnect kad os env n = (r, n', t)"
  shows "t \<le> 8 \<and>
    (r = Ok False \<and> t = 8 \<and> (\<forall>j < 8. \<exists>e. attempt_result kad os env n j = Err e) \<or>
     r = Ok True \<and> 0 < t \<and> attempt_result kad os env n (t - 1) = Ok () \<and>
       (\<forall>j. Suc j < t \<longrightarrow> (\<exists>e. attempt_result kad os env n j = Err e)))"
proof -
  have "\<forall>j. \<not> is_panic (attempt_result kad os env n j)"
    unfolding attempt_result_def using ProbeWithAddr_no_panic [OF assms(1)] by blast
  moreover have "reconnect_loop kad os env 0 8 (before_attempt kad os env n 0) = (r, n', t)"
    using assms(2) by (simp add: reconnect_def)
  ultimately show ?thesis using reconnect_loop_first [of kad os env 0 8 n r n' t] by auto
qed

text \<open>
  Shutting a node down panics exactly when it was shut down once and never started: the
  first call only marks it as started, so that it cannot be started any more, and the second
  calls a method of a server that does not exist. A node that was started shuts its server down
  once, however often it is called.
\<close>

lemma node_shutdown:
  assumes "orders_ok os" and "node_reachable bu kad os n" and "Shutdown n = (r, n')"
  shows "(is_panic r \<longleftrightarrow> n_start n \<and> \<not> n_stop n \<and> \<not> n_Srv n) \<and>
    (r = Ok True \<longrightarrow> n_Srv n \<and> (\<exists>n''. Shutdown n' = (Ok False, n''))) \<and>
    (\<not> n_start n \<longrightarrow> r = Ok False \<and> fst (Start n') \<noteq> None \<and> (\<not> n_Srv n \<longrightarrow> is_panic (fst (Shutdown n'))))"
  using node_always [OF assms(2,1)] assms(3)
  by (auto simp: Shutdown_def Start_def node_ok_def split: if_splits)

section \<open>Witnesses\<close>

definition quiet_node :: "(kid, kid list) StreamNode" where
  "quiet_node = node_init [1, 2, 3] (Some example_kid) [] [[97] \<mapsto> 4]"

text \<open>The node after a peer has connected and shaken hands without an identity.\<close>

definition visited_world :: "kid world" where
  "visited_world = snd (registerProvider 9 None [[97]] False new_world)"

definition visited_node :: "(kid, kid list) StreamNode" where
  "visited_node = quiet_node\<lparr>n_world := visited_world\<rparr>"

lemma visited_message:
  "\<exists>out. HandleMessage (bytesutil_model 3) kad_model sorted_orders None Taken 9 [0, 0, 1, 1, 97] quiet_node =
     (Ok (), visited_node, out)"
proof -
  have "parse_services (Suc 0) [1, 97] = Ok ([[97]], [])" by simp
  then have um: "UnmarshalHandshakePacket kad_model [0, 1, 1, 97] =
     Ok \<lparr>hs_KadId = None, hs_Services = [[97]], hs_Signature = replicate 64 0\<rparr>"
    by (simp add: UnmarshalHandshakePacket_def unmarshal_services_signature_def kad_model_def)
  have v: "HandshakePacket_Validate kad_model \<lparr>hs_KadId = None, hs_Services = [[97]], hs_Signature = replicate 64 0\<rparr> [] = Ok None"
    by (simp add: HandshakePacket_Validate_def)
  have "\<exists>h. createHandshakePacket kad_model sorted_orders visited_node [] = Ok h"
    by (simp add: createHandshakePacket_def visited_node_def quiet_node_def node_init_def NewStreamNode_def
        HandshakePacket_AppendPayloadTo_def)
  then obtain h where h: "createHandshakePacket kad_model sorted_orders visited_node [] = Ok h" ..
  obtain p where r: "registerProvider 9 None [[97]] False new_world = (p, visited_world)"
    by (metis prod.collapse visited_world_def)
  have w: "n_world quiet_node = new_world" by (simp add: quiet_node_def node_init_def NewStreamNode_def)
  show ?thesis
    by (simp add: HandleMessage_def opcode_defs handle_handshake_def um v w r Let_def
        visited_node_def [symmetric] h of_err_def)
qed

lemma visited_providing:
  "w_providers visited_world 9 = Some 0" "providing [[97]] visited_world = {0}"
  "pv_kadId (w_pv visited_world 0) = None"
  by (auto simp: visited_world_def providing_def world_defs add_service_def split: if_splits)

lemma visited_reachable: "node_reachable (bytesutil_model 3) kad_model sorted_orders visited_node"
proof -
  obtain out where "HandleMessage (bytesutil_model 3) kad_model sorted_orders None Taken 9 [0, 0, 1, 1, 97] quiet_node =
     (Ok (), visited_node, out)" using visited_message by blast
  then have "node_step (bytesutil_model 3) kad_model sorted_orders quiet_node visited_node"
    by (rule node_step.message) simp
  then show ?thesis unfolding node_reachable_def quiet_node_def by blast
qed

lemma visited_world_node: "n_world visited_node = visited_world"
  by (simp add: visited_node_def)

theorem node_wellformed_witness:
  "node_ok visited_node \<and> set (getProviders (o_conns sorted_orders) [[97]] (n_world visited_node)) = {Some 0}"
  using node_wellformed [OF sorted_orders_ok visited_reachable, of "[[97]]"]
  by (simp add: visited_providing visited_world_node)

theorem providers_for_exact_witness:
  "is_panic (ProvidersFor kad_model sorted_orders (o_services sorted_orders) [[97]] visited_node)"
proof -
  have "map_range (o_services sorted_orders)" using sorted_orders_ok by (simp add: orders_ok_def)
  from providers_for_exact [OF sorted_orders_ok this visited_reachable refl refl, of "[[97]]"]
  show ?thesis by (simp add: visited_providing visited_world_node)
qed

text \<open>A peer that refuses the first attempt and answers the second without an identity.\<close>

definition second_chance :: "nat \<Rightarrow> (kid, kid list) retry" where
  "second_chance i = \<lparr>rt_resolved = (if i = 0 then Inl ErrUnexpectedEOF else Inr [97]), rt_get = (\<lambda>_. Inr 5),
     rt_res = Inr [0, 0], rt_others = id\<rparr>"

theorem reconnect_stops_at_first_witness:
  "\<exists>n'. reconnect kad_model sorted_orders second_chance quiet_node = (Ok True, n', 2)"
proof -
  let ?result = "attempt_result kad_model sorted_orders second_chance quiet_node"
  have 0: "\<exists>e. ?result 0 = Err e"
    by (simp add: attempt_result_def second_chance_def ProbeWithAddr_def)
  have "UnmarshalHandshakePacket kad_model [0, 0] =
     Ok \<lparr>hs_KadId = None, hs_Services = [], hs_Signature = replicate 64 0\<rparr>"
    by (simp add: UnmarshalHandshakePacket_def unmarshal_services_signature_def kad_model_def)
  then have 1: "?result 1 = Ok ()"
    by (simp add: attempt_result_def second_chance_def ProbeWithAddr_def quiet_node_def node_init_def NewStreamNode_def
        getClient_def probe_def world_defs createHandshakePacket_def HandshakePacket_AppendPayloadTo_def
        HandshakePacket_Validate_def)
  obtain r n' t where run: "reconnect kad_model sorted_orders second_chance quiet_node = (r, n', t)"
    by (metis prod.exhaust)
  note first = reconnect_stops_at_first [OF km.kademlia_spec_axioms run]
  have not_all: "\<not> (\<forall>j < 8. \<exists>e. ?result j = Err e)" using 1 by (auto intro!: exI [of _ 1])
  with first have t: "r = Ok True" "0 < t" "?result (t - 1) = Ok ()" "Suc 1 < t \<longrightarrow> (\<exists>e. ?result 1 = Err e)"
    by blast+
  have "t \<noteq> 1" using t(3) 0 by auto
  moreover have "\<not> 2 < t" using t(4) 1 by auto
  ultimately have "t = 2" using t(2) by simp
  with run t(1) show ?thesis by blast
qed

end
