(* ===== verification/Rpc_Bootstrap.thy ===== *)
theory Rpc_Bootstrap
  imports Rpc_Node Rpc_Address Carlo_Systems "HOL-Library.Sublist"
begin

text \<open>
  \<^verbatim>\<open>(*StreamNode).Bootstrap\<close> of \<^verbatim>\<open>streaming_rpc/streamnode.go\<close>: a concurrent search for peers.
  The main loop takes identities from a bounded channel and starts a goroutine for each, at most
  \<^verbatim>\<open>DefaultBucketSize\<close> at a time; every goroutine connects, shakes hands, asks the peer for its
  neighbours and, holding a mutex, puts those not seen before into the channel. A step is one
  channel operation, one call or one test of the loop condition; what dialing, the peers and the
  rest of the node do is not determined, and a peer may never answer: the requests have no timeout. The two operands of the loop condition are read one
  after the other, as the program reads them.
\<close>

section \<open>States\<close>

datatype 'id boot_main =
    MFill "'id list"
  | MLoop
  | MBusy
  | MSelect
  | MAcquire 'id
  | MReturn

datatype 'id boot_gor =
    GNone
  | GStart 'id
  | GGet nat
  | GConn nat
  | GProbed nat
  | GAsked nat bytes
  | GLock "'id list"
  | GPush "'id list"
  | GSend 'id "'id list"
  | GSilent
  | GEnd
  | GDone

text \<open>
  The channels \<^verbatim>\<open>queue\<close> and \<^verbatim>\<open>busy\<close>, the mutex with its holder, \<^verbatim>\<open>visited\<close>, \<^verbatim>\<open>results\<close>, the
  main loop and the goroutines in the order in which they were started. The ghost \<open>b_taken\<close>
  lists the identities received from the channel.
\<close>

record ('id, 'tab) boot =
  b_node :: "('id, 'tab) StreamNode"
  b_main :: "'id boot_main"
  b_queue :: "'id list"
  b_busy :: nat
  b_mu :: "nat option"
  b_visited :: "bytes set"
  b_results :: "'id list"
  b_gr :: "nat \<Rightarrow> 'id boot_gor"
  b_n :: nat
  b_taken :: "'id list"
  b_panicked :: bool

text \<open>The key that \<^verbatim>\<open>Bootstrap\<close> searches for; \<open>sz\<close> is the size of a public key.\<close>

definition boot_pub :: "('id, 'tab) kademlia \<Rightarrow> nat \<Rightarrow> ('id, 'tab) StreamNode \<Rightarrow> bytes" where
  "boot_pub kad sz n = (case n_KadId n of None \<Rightarrow> replicate sz 0 | Some i \<Rightarrow> ID_Pub kad i)"

definition boot_kids :: "('id, 'tab) kademlia \<Rightarrow> nat \<Rightarrow> ('id, 'tab) StreamNode \<Rightarrow> 'id list" where
  "boot_kids kad sz n = Table_ClosestTo kad (n_table n) (boot_pub kad sz n) (DefaultBucketSize kad)"

definition boot_init :: "('id, 'tab) kademlia \<Rightarrow> nat \<Rightarrow> ('id, 'tab) StreamNode \<Rightarrow> ('id, 'tab) boot" where
  "boot_init kad sz n =
     (let kids = boot_kids kad sz n
      in \<lparr>b_node = n, b_main = (if length kids = 0 then MReturn else MFill kids), b_queue = [],
          b_busy = 0, b_mu = None, b_visited = (if length kids = 0 then {} else {boot_pub kad sz n}),
          b_results = [], b_gr = (\<lambda>_. GNone), b_n = 0, b_taken = [], b_panicked = False\<rparr>)"

section \<open>Steps\<close>

text \<open>The main goroutine.\<close>

inductive main_step :: "('id, 'tab) kademlia \<Rightarrow> ('id, 'tab) boot \<Rightarrow> ('id, 'tab) boot \<Rightarrow> bool"
  for kad :: "('id, 'tab) kademlia" where
  m_fill: "b_main s = MFill (kid # kids) \<Longrightarrow> length (b_queue s) < DefaultBucketSize kad \<Longrightarrow>
     main_step kad s (s\<lparr>b_queue := b_queue s @ [kid], b_visited := insert (ID_Pub kad kid) (b_visited s),
       b_main := MFill kids\<rparr>)"
| m_filled: "b_main s = MFill [] \<Longrightarrow> main_step kad s (s\<lparr>b_main := MLoop\<rparr>)"
| m_queued: "b_main s = MLoop \<Longrightarrow> length (b_queue s) > 0 \<Longrightarrow> main_step kad s (s\<lparr>b_main := MSelect\<rparr>)"
| m_empty: "b_main s = MLoop \<Longrightarrow> length (b_queue s) = 0 \<Longrightarrow> main_step kad s (s\<lparr>b_main := MBusy\<rparr>)"
| m_busy: "b_main s = MBusy \<Longrightarrow> b_busy s > 0 \<Longrightarrow> main_step kad s (s\<lparr>b_main := MSelect\<rparr>)"
| m_return: "b_main s = MBusy \<Longrightarrow> b_busy s = 0 \<Longrightarrow> main_step kad s (s\<lparr>b_main := MReturn\<rparr>)"
| m_receive: "b_main s = MSelect \<Longrightarrow> b_queue s = kid # q \<Longrightarrow>
     main_step kad s (s\<lparr>b_queue := q, b_taken := b_taken s @ [kid], b_main := MAcquire kid\<rparr>)"
| m_sleep: "b_main s = MSelect \<Longrightarrow> b_queue s = [] \<Longrightarrow> main_step kad s (s\<lparr>b_main := MLoop\<rparr>)"
| m_spawn: "b_main s = MAcquire kid \<Longrightarrow> b_busy s < DefaultBucketSize kad \<Longrightarrow>
     main_step kad s (s\<lparr>b_busy := Suc (b_busy s), b_gr := (b_gr s)(b_n s := GStart kid),
       b_n := Suc (b_n s), b_main := MLoop\<rparr>)"

text \<open>
  A goroutine. \<open>res\<close> and \<open>buf\<close> are what the peer answers to the handshake and to the question
  for its neighbours; an error of a call leads to the deferred receive from \<^verbatim>\<open>busy\<close>. A goroutine
  whose request is never answered stays in \<open>GSilent\<close>.
\<close>

inductive gor_step ::
  "('id, 'tab) kademlia \<Rightarrow> orders \<Rightarrow> nat \<Rightarrow> ('id, 'tab) boot \<Rightarrow> ('id, 'tab) boot \<Rightarrow> bool"
  for kad :: "('id, 'tab) kademlia" and os :: orders and sz :: nat where
  g_client: "b_gr s g = GStart kid \<Longrightarrow>
     getClient (HostAddr (ID_Host kad kid) (ID_Port kad kid)) (b_node s) = (client, n) \<Longrightarrow>
     gor_step kad os sz s (s\<lparr>b_node := n, b_gr := (b_gr s)(g := GGet client)\<rparr>)"
| g_get_err: "b_gr s g = GGet client \<Longrightarrow> gor_step kad os sz s (s\<lparr>b_gr := (b_gr s)(g := GEnd)\<rparr>)"
| g_get: "b_gr s g = GGet client \<Longrightarrow> gor_step kad os sz s (s\<lparr>b_gr := (b_gr s)(g := GConn conn)\<rparr>)"
| g_probe: "b_gr s g = GConn conn \<Longrightarrow> probe kad os conn res (b_node s) = (r, n, reqs) \<Longrightarrow>
     gor_step kad os sz s (s\<lparr>b_node := n,
       b_gr := (b_gr s)(g := (case r of Ok _ \<Rightarrow> GProbed conn | _ \<Rightarrow> GEnd)), b_panicked := is_panic r\<rparr>)"
| g_probe_silent: "b_gr s g = GConn conn \<Longrightarrow> probe kad os conn (Inl e) (b_node s) = (r, n, [req]) \<Longrightarrow>
     gor_step kad os sz s (s\<lparr>b_node := n, b_gr := (b_gr s)(g := GSilent)\<rparr>)"
| g_ask: "b_gr s g = GProbed conn \<Longrightarrow>
     gor_step kad os sz s (s\<lparr>b_gr := (b_gr s)(g := GAsked conn
       (FindNodeRequest_AppendTo kad (createFindNodeRequest kad sz (b_node s)) [OpCodeFindNodeRequest]))\<rparr>)"
| g_ask_err: "b_gr s g = GAsked conn req \<Longrightarrow> gor_step kad os sz s (s\<lparr>b_gr := (b_gr s)(g := GEnd)\<rparr>)"
| g_ask_silent: "b_gr s g = GAsked conn req \<Longrightarrow> gor_step kad os sz s (s\<lparr>b_gr := (b_gr s)(g := GSilent)\<rparr>)"
| g_answer: "b_gr s g = GAsked conn req \<Longrightarrow>
     gor_step kad os sz s (s\<lparr>
       b_gr := (b_gr s)(g := (case UnmarshalFindNodeResponse kad buf of Ok (closest, _) \<Rightarrow> GLock closest | _ \<Rightarrow> GEnd)),
       b_panicked := is_panic (UnmarshalFindNodeResponse kad buf)\<rparr>)"
| g_lock: "b_gr s g = GLock kids \<Longrightarrow> b_mu s = None \<Longrightarrow>
     gor_step kad os sz s (s\<lparr>b_mu := Some g, b_gr := (b_gr s)(g := GPush kids)\<rparr>)"
| g_seen: "b_gr s g = GPush (kid # kids) \<Longrightarrow> ID_Pub kad kid \<in> b_visited s \<Longrightarrow>
     gor_step kad os sz s (s\<lparr>b_gr := (b_gr s)(g := GPush kids)\<rparr>)"
| g_new: "b_gr s g = GPush (kid # kids) \<Longrightarrow> ID_Pub kad kid \<notin> b_visited s \<Longrightarrow>
     gor_step kad os sz s (s\<lparr>b_visited := insert (ID_Pub kad kid) (b_visited s),
       b_results := b_results s @ [kid], b_gr := (b_gr s)(g := GSend kid kids)\<rparr>)"
| g_send: "b_gr s g = GSend kid kids \<Longrightarrow> length (b_queue s) < DefaultBucketSize kad \<Longrightarrow>
     gor_step kad os sz s (s\<lparr>b_queue := b_queue s @ [kid], b_gr := (b_gr s)(g := GPush kids)\<rparr>)"
| g_unlock: "b_gr s g = GPush [] \<Longrightarrow>
     gor_step kad os sz s (s\<lparr>b_mu := None, b_gr := (b_gr s)(g := GEnd)\<rparr>)"
| g_end: "b_gr s g = GEnd \<Longrightarrow>
     gor_step kad os sz s (s\<lparr>b_busy := b_busy s - 1, b_gr := (b_gr s)(g := GDone)\<rparr>)"

text \<open>A step of the search, or any change of the node by its other goroutines.\<close>

inductive boot_step ::
  "('id, 'tab) kademlia \<Rightarrow> orders \<Rightarrow> nat \<Rightarrow> ('id, 'tab) boot \<Rightarrow> ('id, 'tab) boot \<Rightarrow> bool"
  for kad :: "('id, 'tab) kademlia" and os :: orders and sz :: nat where
  by_main: "\<not> b_panicked s \<Longrightarrow> main_step kad s s' \<Longrightarrow> boot_step kad os sz s s'"
| by_gor: "\<not> b_panicked s \<Longrightarrow> gor_step kad os sz s s' \<Longrightarrow> boot_step kad os sz s s'"
| by_node: "\<not> b_panicked s \<Longrightarrow> boot_step kad os sz s (s\<lparr>b_node := n\<rparr>)"

section \<open>Invariants\<close>

fun live_gor :: "'id boot_gor \<Rightarrow> bool" where
  "live_gor GNone = False"
| "live_gor GDone = False"
| "live_gor _ = True"

fun holding :: "'id boot_gor \<Rightarrow> bool" where
  "holding (GPush _) = True"
| "holding (GSend _ _) = True"
| "holding _ = False"

fun filling :: "'id boot_main \<Rightarrow> 'id list" where
  "filling (MFill kids) = kids"
| "filling _ = []"

fun is_fill :: "'id boot_main \<Rightarrow> bool" where
  "is_fill (MFill _) = True"
| "is_fill _ = False"

fun acquiring :: "'id boot_main \<Rightarrow> nat" where
  "acquiring (MAcquire _) = 1"
| "acquiring _ = 0"

fun offered :: "'id boot_gor \<Rightarrow> 'id list" where
  "offered (GSend kid _) = [kid]"
| "offered _ = []"

definition offer :: "nat option \<Rightarrow> (nat \<Rightarrow> 'id boot_gor) \<Rightarrow> 'id list" where
  "offer m G = (case m of None \<Rightarrow> [] | Some g \<Rightarrow> offered (G g))"

definition sending :: "('id, 'tab) boot \<Rightarrow> 'id list" where
  "sending s = offer (b_mu s) (b_gr s)"

text \<open>The mutex is held by the goroutine that is in its critical section, and no other.\<close>

definition locked :: "(nat \<Rightarrow> 'id boot_gor) \<Rightarrow> nat option \<Rightarrow> nat \<Rightarrow> bool" where
  "locked G m n \<longleftrightarrow> (\<forall>g. holding (G g) \<longleftrightarrow> m = Some g) \<and> (\<forall>g. G g = GNone \<longleftrightarrow> n \<le> g)"

definition lock_inv :: "('id, 'tab) boot \<Rightarrow> bool" where
  "lock_inv s \<longleftrightarrow> locked (b_gr s) (b_mu s) (b_n s)"

text \<open>The tokens in \<^verbatim>\<open>busy\<close> are the goroutines that run.\<close>

definition count_inv :: "nat \<Rightarrow> ('id, 'tab) boot \<Rightarrow> bool" where
  "count_inv K s \<longleftrightarrow> b_busy s = card {g. live_gor (b_gr s g)} \<and> b_busy s \<le> K \<and> length (b_queue s) \<le> K \<and>
     (b_main s = MReturn \<longrightarrow> b_busy s = 0)"

text \<open>
  What was received, what is queued, and what is still to be queued are the identities known at
  the start and those discovered, in the order of their discovery.
\<close>

definition fifo_inv :: "'id list \<Rightarrow> ('id, 'tab) boot \<Rightarrow> bool" where
  "fifo_inv kids s \<longleftrightarrow>
     b_taken s @ b_queue s @ filling (b_main s) @ sending s = kids @ b_results s \<and>
     length (b_taken s) = b_n s + acquiring (b_main s) \<and>
     (is_fill (b_main s) \<longrightarrow> b_n s = 0 \<and> b_results s = [])"

text \<open>The visited keys are the own key and those of the identities known.\<close>

definition seen_inv :: "('id, 'tab) kademlia \<Rightarrow> bytes \<Rightarrow> 'id list \<Rightarrow> ('id, 'tab) boot \<Rightarrow> bool" where
  "seen_inv kad pub kids s \<longleftrightarrow>
     (is_fill (b_main s) \<longrightarrow> b_visited s = insert pub (ID_Pub kad ` set (b_queue s))) \<and>
     (\<not> is_fill (b_main s) \<longrightarrow> kids \<noteq> [] \<longrightarrow> b_visited s = insert pub (ID_Pub kad ` set (kids @ b_results s))) \<and>
     (kids = [] \<longrightarrow> b_main s = MReturn \<and> b_n s = 0) \<and>
     distinct (map (ID_Pub kad) (b_results s)) \<and>
     ID_Pub kad ` set (b_results s) \<inter> insert pub (ID_Pub kad ` set kids) = {}"

text \<open>A goroutine starts with the identity that was received for it.\<close>

definition start_inv :: "('id, 'tab) boot \<Rightarrow> bool" where
  "start_inv s \<longleftrightarrow>
     (\<forall>g kid. b_gr s g = GStart kid \<longrightarrow> g < length (b_taken s) \<and> b_taken s ! g = kid) \<and>
     (\<forall>kid. b_main s = MAcquire kid \<longrightarrow> b_taken s \<noteq> [] \<and> last (b_taken s) = kid)"

lemma live_upd: "live_gor (f g) \<Longrightarrow> live_gor x \<Longrightarrow> {h. live_gor ((f(g := x)) h)} = {h. live_gor (f h)}"
  by auto

lemma live_end: "{h. live_gor ((f(g := GDone)) h)} = {h. live_gor (f h)} - {g}"
  by auto

lemma live_start: "{h. live_gor ((f(g := GStart k)) h)} = insert g {h. live_gor (f h)}"
  by auto

lemma locked_move:
  assumes "locked G m n" "G g \<noteq> GNone" "x \<noteq> GNone" "holding x \<longleftrightarrow> holding (G g)"
  shows "locked (G(g := x)) m n"
  using assms by (auto simp: locked_def)

lemma locked_spawn:
  assumes "locked G m n"
  shows "locked (G(n := GStart kid)) m (Suc n)"
proof -
  have "G n = GNone" using assms by (auto simp: locked_def)
  then have "\<not> holding (G n)" by simp
  with assms show ?thesis by (auto simp: locked_def)
qed

lemma locked_lock: "locked G None n \<Longrightarrow> G g = GLock ks \<Longrightarrow> locked (G(g := GPush ks)) (Some g) n"
  unfolding locked_def by (auto simp: less_eq_Suc_le) (metis boot_gor.distinct(11))

lemma locked_unlock:
  assumes "locked G m n" "G g = GPush []"
  shows "locked (G(g := GEnd)) None n"
proof -
  have "holding (G g)" using assms(2) by simp
  then have "m = Some g" using assms(1) unfolding locked_def by blast
  moreover have "G g \<noteq> GNone" using assms(2) by simp
  ultimately show ?thesis using assms(1) unfolding locked_def by (auto split: if_splits)
qed

lemma lock_main: "main_step kad s s' \<Longrightarrow> lock_inv s \<Longrightarrow> lock_inv s'"
  by (induction rule: main_step.induct) (simp_all add: lock_inv_def locked_spawn)

lemma lock_gor: "gor_step kad os sz s s' \<Longrightarrow> lock_inv s \<Longrightarrow> lock_inv s'"
proof (induction rule: gor_step.induct)
  case (g_lock s g kids)
  then show ?case by (simp add: lock_inv_def locked_lock)
next
  case (g_unlock s g)
  then show ?case by (simp add: lock_inv_def locked_unlock)
qed (simp_all add: lock_inv_def locked_move split: result.split prod.split)

lemma finite_live: "lock_inv s \<Longrightarrow> finite {g. live_gor (b_gr s g)}"
proof (rule finite_subset)
  assume "lock_inv s"
  then have "b_gr s g = GNone" if "\<not> g < b_n s" for g using that by (simp add: lock_inv_def locked_def)
  then show "{g. live_gor (b_gr s g)} \<subseteq> {..<b_n s}" by force
qed simp

lemma count_main:
  "main_step kad s s' \<Longrightarrow> lock_inv s \<Longrightarrow> count_inv (DefaultBucketSize kad) s \<Longrightarrow> count_inv (DefaultBucketSize kad) s'"
proof (induction rule: main_step.induct)
  case (m_spawn s kid)
  have "b_gr s (b_n s) = GNone" using m_spawn by (simp add: lock_inv_def locked_def)
  then have "\<not> live_gor (b_gr s (b_n s))" by simp
  with m_spawn finite_live [of s] show ?case
    by (auto simp: count_inv_def live_start simp del: fun_upd_apply)
qed (auto simp: count_inv_def)

lemma count_gor:
  "gor_step kad os sz s s' \<Longrightarrow> lock_inv s \<Longrightarrow> count_inv (DefaultBucketSize kad) s \<Longrightarrow>
     count_inv (DefaultBucketSize kad) s'"
proof (induction rule: gor_step.induct)
  case (g_end s g)
  then have "g \<in> {g. live_gor (b_gr s g)}" by simp
  with g_end finite_live [of s] show ?case
    by (auto simp: count_inv_def live_end simp del: fun_upd_apply)
next
  case (g_probe s g conn res r n reqs)
  then show ?case
    by (cases r) (auto simp add: count_inv_def live_upd simp del: fun_upd_apply)
next
  case (g_answer s g conn req buf)
  then show ?case
    by (cases "UnmarshalFindNodeResponse kad buf")
      (auto simp add: count_inv_def live_upd simp del: fun_upd_apply split: prod.split)
qed (auto simp add: count_inv_def live_upd simp del: fun_upd_apply)

lemma holder: "lock_inv s \<Longrightarrow> holding (b_gr s g) \<Longrightarrow> b_mu s = Some g"
  by (simp add: lock_inv_def locked_def)

lemma not_holder: "lock_inv s \<Longrightarrow> \<not> holding (b_gr s g) \<Longrightarrow> b_mu s \<noteq> Some g"
  by (auto simp: lock_inv_def locked_def)

lemma running_not_fill:
  assumes "lock_inv s" "fifo_inv kids s" "b_gr s g \<noteq> GNone"
  shows "\<not> is_fill (b_main s)"
  using assms by (auto simp: lock_inv_def locked_def fifo_inv_def)

lemma not_fill [simp]: "\<not> is_fill m \<Longrightarrow> filling m = []"
  by (cases m) auto

lemma offer_None [simp]: "offer None G = []"
  by (simp add: offer_def)

lemma offer_Some [simp]: "offer (Some g) G = offered (G g)"
  by (simp add: offer_def)

lemma offer_move: "m \<noteq> Some g \<Longrightarrow> offer m (G(g := x)) = offer m G"
  by (auto simp: offer_def split: option.split)

lemma fifo_main: "main_step kad s s' \<Longrightarrow> lock_inv s \<Longrightarrow> fifo_inv kids s \<Longrightarrow> fifo_inv kids s'"
proof (induction rule: main_step.induct)
  case (m_spawn s kid)
  then have "b_gr s (b_n s) = GNone" by (simp add: lock_inv_def locked_def)
  with m_spawn have "b_mu s \<noteq> Some (b_n s)" using not_holder [of s "b_n s"] by simp
  with m_spawn show ?case by (simp add: fifo_inv_def sending_def offer_move del: fun_upd_apply)
qed (auto simp: fifo_inv_def sending_def)

lemma fill_unlocked: "lock_inv s \<Longrightarrow> fifo_inv kids s \<Longrightarrow> is_fill (b_main s) \<Longrightarrow> sending s = []"
proof -
  assume *: "lock_inv s" "fifo_inv kids s" "is_fill (b_main s)"
  then have "b_gr s g = GNone" for g by (simp add: lock_inv_def locked_def fifo_inv_def)
  with *(1) have "b_mu s \<noteq> Some g" for g using not_holder [of s g] by simp
  then show ?thesis by (auto simp: sending_def offer_def split: option.split)
qed

lemma fifo_same:
  assumes "fifo_inv kids s" "b_taken s' = b_taken s" "b_queue s' = b_queue s" "b_main s' = b_main s"
    "sending s' = sending s" "b_results s' = b_results s" "b_n s' = b_n s"
  shows "fifo_inv kids s'"
  using assms(1) unfolding fifo_inv_def assms(2-) .

lemma fifo_critical:
  assumes "lock_inv s" "fifo_inv kids s" "holding (b_gr s g)"
    and "b_taken s' = b_taken s" "b_main s' = b_main s" "b_n s' = b_n s"
    and "b_queue s' @ sending s' = b_queue s @ offered (b_gr s g) @ new" "b_results s' = b_results s @ new"
  shows "fifo_inv kids s'"
proof -
  have "b_gr s g \<noteq> GNone" using assms(3) by auto
  then have nf: "\<not> is_fill (b_main s)" by (rule running_not_fill [OF assms(1,2)])
  have "sending s = offered (b_gr s g)" using holder [OF assms(1,3)] by (simp add: sending_def)
  then have "b_taken s @ b_queue s @ offered (b_gr s g) = kids @ b_results s"
    and len: "length (b_taken s) = b_n s + acquiring (b_main s)"
    using assms(2) nf unfolding fifo_inv_def by simp_all
  then have "(b_taken s @ b_queue s @ offered (b_gr s g)) @ new = (kids @ b_results s) @ new"
    by (simp only:)
  with nf len assms(4-8) show ?thesis by (simp add: fifo_inv_def)
qed

lemma fifo_gor: "gor_step kad os sz s s' \<Longrightarrow> lock_inv s \<Longrightarrow> fifo_inv kids s \<Longrightarrow> fifo_inv kids s'"
proof (induction rule: gor_step.induct)
  case (g_new s g kid ks)
  show ?case
    by (rule fifo_critical [where s = s and g = g and new = "[kid]"])
      (use g_new holder [of s g] in \<open>simp_all add: sending_def\<close>)
next
  case (g_send s g kid ks)
  show ?case
    by (rule fifo_critical [where s = s and g = g and new = "[]"])
      (use g_send holder [of s g] in \<open>simp_all add: sending_def\<close>)
next
  case (g_seen s g kid ks)
  show ?case
    by (rule fifo_critical [where s = s and g = g and new = "[]"])
      (use g_seen holder [of s g] in \<open>simp_all add: sending_def\<close>)
next
  case (g_unlock s g)
  show ?case
    by (rule fifo_critical [where s = s and g = g and new = "[]"])
      (use g_unlock holder [of s g] in \<open>simp_all add: sending_def\<close>)
next
  case (g_lock s g ks)
  show ?case by (rule fifo_same [OF g_lock(4)]) (use g_lock in \<open>simp_all add: sending_def\<close>)
qed (erule fifo_same; simp add: sending_def not_holder offer_move del: fun_upd_apply)+

lemma filled_queue:
  assumes "lock_inv s" "fifo_inv kids s" "b_main s = MFill []"
  shows "b_queue s = kids \<and> b_results s = []"
proof -
  have "is_fill (b_main s)" by (simp add: assms(3))
  then have "sending s = []" "b_taken s = []" "b_results s = []"
    using assms(2) fill_unlocked [OF assms(1,2)] by (auto simp: fifo_inv_def assms(3))
  moreover have "b_taken s @ b_queue s @ filling (b_main s) @ sending s = kids @ b_results s"
    using assms(2) by (simp only: fifo_inv_def)
  ultimately show ?thesis by (simp add: assms(3))
qed

lemma seen_main:
  "main_step kad s s' \<Longrightarrow> lock_inv s \<Longrightarrow> fifo_inv kids s \<Longrightarrow> seen_inv kad pub kids s \<Longrightarrow>
     seen_inv kad pub kids s'"
proof (induction rule: main_step.induct)
  case (m_filled s)
  then show ?case using filled_queue [of s kids] by (simp add: seen_inv_def)
qed (auto simp: seen_inv_def)

lemma seen_gor:
  "gor_step kad os sz s s' \<Longrightarrow> lock_inv s \<Longrightarrow> fifo_inv kids s \<Longrightarrow> seen_inv kad pub kids s \<Longrightarrow>
     seen_inv kad pub kids s'"
proof (induction rule: gor_step.induct)
  case (g_new s g kid ks)
  have nf: "\<not> is_fill (b_main s)" "kids \<noteq> []"
    using g_new running_not_fill [of s kids g] by (auto simp: seen_inv_def lock_inv_def locked_def)
  with g_new have "ID_Pub kad kid \<notin> insert pub (ID_Pub kad ` set (kids @ b_results s))"
    by (simp add: seen_inv_def)
  with g_new nf show ?case by (auto simp: seen_inv_def)
next
  case (g_send s g kid ks)
  then show ?case using running_not_fill [of s kids g] by (auto simp: seen_inv_def)
qed (simp_all add: seen_inv_def)

lemma start_main:
  assumes "main_step kad s s'" "fifo_inv kids s" "start_inv s"
  shows "start_inv s'"
  using assms(1)
proof cases
  case (m_receive kid q)
  with assms(3) show ?thesis by (auto simp: start_inv_def nth_append less_Suc_eq)
next
  case (m_spawn kid)
  then have "length (b_taken s) = Suc (b_n s)" "last (b_taken s) = kid" "b_taken s \<noteq> []"
    using assms(2,3) by (simp_all add: fifo_inv_def start_inv_def)
  then have "b_taken s ! b_n s = kid" by (simp add: last_conv_nth)
  with m_spawn assms(3) \<open>length (b_taken s) = Suc (b_n s)\<close> show ?thesis by (auto simp: start_inv_def)
qed (use assms(3) in \<open>simp_all add: start_inv_def\<close>)

lemma start_gor: "gor_step kad os sz s s' \<Longrightarrow> start_inv s \<Longrightarrow> start_inv s'"
  by (induction rule: gor_step.induct) (auto simp: start_inv_def split: result.splits prod.splits if_splits)

section \<open>Every run\<close>

definition boot_reachable ::
  "('id, 'tab) kademlia \<Rightarrow> orders \<Rightarrow> nat \<Rightarrow> ('id, 'tab) StreamNode \<Rightarrow> ('id, 'tab) boot \<Rightarrow> bool" where
  "boot_reachable kad os sz n s \<longleftrightarrow> (boot_step kad os sz)\<^sup>*\<^sup>* (boot_init kad sz n) s"

interpretation boot: transition_system "\<lambda>s. s = boot_init kad sz n" "boot_step kad os sz"
  for kad :: "('id, 'tab) kademlia" and os sz n .

lemma boot_reach: "boot.reach kad sz n os s \<longleftrightarrow> boot_reachable kad os sz n s"
  by (simp add: boot.reach_def boot_reachable_def)

definition boot_inv :: "('id, 'tab) kademlia \<Rightarrow> nat \<Rightarrow> ('id, 'tab) StreamNode \<Rightarrow> ('id, 'tab) boot \<Rightarrow> bool" where
  "boot_inv kad sz n s \<longleftrightarrow> lock_inv s \<and> count_inv (DefaultBucketSize kad) s \<and>
     fifo_inv (boot_kids kad sz n) s \<and> seen_inv kad (boot_pub kad sz n) (boot_kids kad sz n) s \<and> start_inv s"

lemma boot_inv_init: "boot_inv kad sz n (boot_init kad sz n)"
  by (simp add: boot_inv_def lock_inv_def locked_def count_inv_def fifo_inv_def seen_inv_def start_inv_def sending_def
      boot_init_def Let_def)

lemma boot_inv_step:
  assumes "boot_step kad os sz s s'" "boot_inv kad sz n s"
  shows "boot_inv kad sz n s'"
  using assms
proof (induction rule: boot_step.induct)
  case (by_main s s')
  then show ?case by (auto simp: boot_inv_def intro: lock_main count_main fifo_main seen_main start_main)
next
  case (by_gor s s')
  then show ?case by (auto simp: boot_inv_def intro: lock_gor count_gor fifo_gor seen_gor start_gor)
next
  case (by_node s n')
  then show ?case
    unfolding boot_inv_def lock_inv_def count_inv_def fifo_inv_def seen_inv_def start_inv_def sending_def by simp metis
qed

lemma boot_always: "boot_reachable kad os sz n s \<Longrightarrow> boot_inv kad sz n s"
  unfolding boot_reach [symmetric]
  by (induction rule: boot.invariant) (auto intro: boot_inv_init boot_inv_step)

section \<open>Where the search cannot go on\<close>

definition boot_stuck :: "('id, 'tab) kademlia \<Rightarrow> orders \<Rightarrow> nat \<Rightarrow> ('id, 'tab) boot \<Rightarrow> bool" where
  "boot_stuck kad os sz s \<longleftrightarrow> \<not> (\<exists>s'. main_step kad s s' \<or> gor_step kad os sz s s')"

text \<open>
  The main loop waits for a free place in \<^verbatim>\<open>busy\<close>, one goroutine holds the mutex and waits for
  room in the full queue, and all others wait for the mutex.
\<close>

definition boot_deadlock :: "('id, 'tab) kademlia \<Rightarrow> ('id, 'tab) boot \<Rightarrow> bool" where
  "boot_deadlock kad s \<longleftrightarrow> (\<exists>kid. b_main s = MAcquire kid) \<and> b_busy s = DefaultBucketSize kad \<and>
     length (b_queue s) = DefaultBucketSize kad \<and>
     (\<exists>g kid kids. b_gr s g = GSend kid kids \<and> b_mu s = Some g \<and>
        (\<forall>h. h \<noteq> g \<longrightarrow> live_gor (b_gr s h) \<longrightarrow> (\<exists>ids. b_gr s h = GLock ids)))"

section \<open>Runs\<close>

text \<open>What a goroutine leaves alone while it talks to its peer.\<close>

definition frame :: "('id, 'tab) boot \<Rightarrow> ('id, 'tab) boot \<Rightarrow> bool" where
  "frame s s' \<longleftrightarrow> b_main s' = b_main s \<and> b_queue s' = b_queue s \<and> b_busy s' = b_busy s \<and>
     b_mu s' = b_mu s \<and> b_visited s' = b_visited s \<and> b_results s' = b_results s \<and> b_n s' = b_n s \<and>
     b_taken s' = b_taken s \<and> b_panicked s' = b_panicked s \<and> n_KadId (b_node s') = n_KadId (b_node s)"

lemma frame_refl [simp]: "frame s s"
  by (simp add: frame_def)

lemma frame_trans: "frame s t \<Longrightarrow> frame t u \<Longrightarrow> frame s u"
  by (simp add: frame_def)

lemma run_main: "\<not> b_panicked s \<Longrightarrow> main_step kad s s' \<Longrightarrow> (boot_step kad os sz)\<^sup>*\<^sup>* s s'"
  by (blast intro: by_main)

lemma run_gor: "\<not> b_panicked s \<Longrightarrow> gor_step kad os sz s s' \<Longrightarrow> (boot_step kad os sz)\<^sup>*\<^sup>* s s'"
  by (blast intro: by_gor)

lemma run_fill:
  "b_main s = MFill ks \<Longrightarrow> \<not> b_panicked s \<Longrightarrow> length (b_queue s) + length ks \<le> DefaultBucketSize kad \<Longrightarrow>
     (boot_step kad os sz)\<^sup>*\<^sup>* s (s\<lparr>b_queue := b_queue s @ ks,
       b_visited := b_visited s \<union> ID_Pub kad ` set ks, b_main := MLoop\<rparr>)"
proof (induction ks arbitrary: s)
  case Nil
  then show ?case using run_main [OF _ m_filled [OF Nil(1)]] by simp
next
  case (Cons k ks)
  let ?t = "s\<lparr>b_queue := b_queue s @ [k], b_visited := insert (ID_Pub kad k) (b_visited s), b_main := MFill ks\<rparr>"
  have "(boot_step kad os sz)\<^sup>*\<^sup>* s ?t" using Cons.prems by (intro run_main m_fill) auto
  also have "(boot_step kad os sz)\<^sup>*\<^sup>* ?t (s\<lparr>b_queue := b_queue s @ k # ks,
       b_visited := b_visited s \<union> ID_Pub kad ` set (k # ks), b_main := MLoop\<rparr>)"
    using Cons.IH [of ?t] Cons.prems by simp
  finally show ?case .
qed

lemma run_spawn:
  "b_main s = MLoop \<Longrightarrow> \<not> b_panicked s \<Longrightarrow> b_busy s + length (b_queue s) \<le> DefaultBucketSize kad \<Longrightarrow>
     \<forall>g < b_n s. \<exists>kid. b_gr s g = GStart kid \<Longrightarrow>
     \<exists>s'. (boot_step kad os sz)\<^sup>*\<^sup>* s s' \<and> b_main s' = MLoop \<and> b_queue s' = [] \<and>
       b_busy s' = b_busy s + length (b_queue s) \<and> b_mu s' = b_mu s \<and> b_visited s' = b_visited s \<and>
       b_results s' = b_results s \<and> b_n s' = b_n s + length (b_queue s) \<and>
       b_taken s' = b_taken s @ b_queue s \<and> \<not> b_panicked s' \<and> b_node s' = b_node s \<and>
       (\<forall>g < b_n s'. \<exists>kid. b_gr s' g = GStart kid)"
proof (induction "b_queue s" arbitrary: s)
  case Nil
  then show ?case by (intro exI [of _ s]) simp
next
  case (Cons k q)
  let ?s1 = "s\<lparr>b_main := MSelect\<rparr>"
  let ?s2 = "?s1\<lparr>b_queue := q, b_taken := b_taken s @ [k], b_main := MAcquire k\<rparr>"
  let ?s3 = "?s2\<lparr>b_busy := Suc (b_busy s), b_gr := (b_gr s)(b_n s := GStart k), b_n := Suc (b_n s), b_main := MLoop\<rparr>"
  have q: "b_queue s = k # q" using Cons(2) by simp
  have "(boot_step kad os sz)\<^sup>*\<^sup>* s ?s1" using Cons q by (intro run_main m_queued) auto
  also have "(boot_step kad os sz)\<^sup>*\<^sup>* ?s1 ?s2"
    using q Cons.prems(2) m_receive [of ?s1 k q kad] by (intro run_main) simp_all
  also have "(boot_step kad os sz)\<^sup>*\<^sup>* ?s2 ?s3"
    using q Cons.prems(2,3) m_spawn [of ?s2 k kad] by (intro run_main) simp_all
  finally have st: "(boot_step kad os sz)\<^sup>*\<^sup>* s ?s3" .
  obtain s' where "(boot_step kad os sz)\<^sup>*\<^sup>* ?s3 s'" "b_main s' = MLoop" "b_queue s' = []"
       "b_busy s' = b_busy ?s3 + length (b_queue ?s3)" "b_mu s' = b_mu ?s3" "b_visited s' = b_visited ?s3"
       "b_results s' = b_results ?s3" "b_n s' = b_n ?s3 + length (b_queue ?s3)"
       "b_taken s' = b_taken ?s3 @ b_queue ?s3" "\<not> b_panicked s'" "b_node s' = b_node ?s3"
       "\<forall>g < b_n s'. \<exists>kid. b_gr s' g = GStart kid"
    using Cons.hyps(1) [of ?s3] Cons.prems q by (auto simp: less_Suc_eq)
  with st q show ?case by (intro exI [of _ s']) auto
qed

text \<open>
  A node without an identity of its own shakes hands with a peer that has none either: the peer
  answers with no identity and no services.
\<close>

lemma probe_anonymous:
  assumes "n_KadId n = None"
  shows "\<exists>n' reqs. probe kad os conn (Inr [0, 0]) n = (Ok (), n', reqs) \<and> n_KadId n' = None"
  using assms
  by (auto simp: probe_def createHandshakePacket_def UnmarshalHandshakePacket_def
      unmarshal_services_signature_def HandshakePacket_Validate_def Let_def split: prod.split)

definition moves ::
  "('id, 'tab) kademlia \<Rightarrow> orders \<Rightarrow> nat \<Rightarrow> nat \<Rightarrow> ('id, 'tab) boot \<Rightarrow> 'id boot_gor \<Rightarrow> bool" where
  "moves kad os sz g s x \<longleftrightarrow>
     (\<exists>s'. (boot_step kad os sz)\<^sup>*\<^sup>* s s' \<and> frame s s' \<and> b_gr s' = (b_gr s)(g := x))"

lemma moves_step:
  assumes "\<not> b_panicked s" "gor_step kad os sz s s'" "frame s s'" "b_gr s' = (b_gr s)(g := x)"
  shows "moves kad os sz g s x"
  using assms run_gor unfolding moves_def by blast

definition ready :: "('id, 'tab) boot \<Rightarrow> bool" where
  "ready s \<longleftrightarrow> \<not> b_panicked s \<and> n_KadId (b_node s) = None"

lemma moves_then:
  assumes "moves kad os sz g s x" "ready s"
    and "\<And>s'. b_gr s' g = x \<Longrightarrow> ready s' \<Longrightarrow> moves kad os sz g s' y"
  shows "moves kad os sz g s y"
proof -
  obtain s' where s': "(boot_step kad os sz)\<^sup>*\<^sup>* s s'" "frame s s'" "b_gr s' = (b_gr s)(g := x)"
    using assms(1) by (auto simp: moves_def)
  then have "b_gr s' g = x" "ready s'" using assms(2) by (simp_all add: frame_def ready_def)
  from assms(3) [OF this] obtain s'' where
    s'': "(boot_step kad os sz)\<^sup>*\<^sup>* s' s''" "frame s' s''" "b_gr s'' = (b_gr s')(g := y)"
    by (auto simp: moves_def)
  have "(boot_step kad os sz)\<^sup>*\<^sup>* s s''" using s'(1) s''(1) by (rule rtranclp_trans)
  moreover have "frame s s''" using s'(2) s''(2) by (rule frame_trans)
  moreover have "b_gr s'' = (b_gr s)(g := y)" by (simp add: s'(3) s''(3))
  ultimately show ?thesis unfolding moves_def by blast
qed

lemma move_client:
  assumes "b_gr s g = GStart kid" "\<not> b_panicked s"
  shows "\<exists>c. moves kad os sz g s (GGet c)"
proof -
  obtain c n where c: "getClient (HostAddr (ID_Host kad kid) (ID_Port kad kid)) (b_node s) = (c, n)"
    by (metis prod.exhaust)
  then have "n_KadId n = n_KadId (b_node s)" by (auto simp: getClient_def split: option.splits)
  then have "moves kad os sz g s (GGet c)"
    by (intro moves_step [OF assms(2) g_client [OF assms(1) c]]) (simp_all add: frame_def)
  then show ?thesis ..
qed

lemma move_get: "b_gr s g = GGet c \<Longrightarrow> \<not> b_panicked s \<Longrightarrow> moves kad os sz g s (GConn conn)"
  by (rule moves_step [OF _ g_get]) (auto simp: frame_def)

lemma move_probe:
  assumes "b_gr s g = GConn conn" "\<not> b_panicked s" "n_KadId (b_node s) = None"
  shows "moves kad os sz g s (GProbed conn)"
proof -
  obtain n reqs where p: "probe kad os conn (Inr [0, 0]) (b_node s) = (Ok (), n, reqs)" "n_KadId n = None"
    using probe_anonymous [OF assms(3)] by blast
  show ?thesis by (rule moves_step [OF assms(2) g_probe [OF assms(1) p(1)]]) (simp_all add: frame_def assms p)
qed

lemma move_ask:
  assumes "b_gr s g = GProbed conn" "\<not> b_panicked s"
  shows "\<exists>req. moves kad os sz g s (GAsked conn req)"
  by (rule exI, rule moves_step [OF assms(2) g_ask [OF assms(1)]]) (simp_all add: frame_def)

lemma move_answer:
  assumes "b_gr s g = GAsked conn req" "\<not> b_panicked s"
    and "UnmarshalFindNodeResponse kad buf = Ok (ids, rest)"
  shows "moves kad os sz g s (GLock ids)"
  by (rule moves_step [OF assms(2) g_answer [OF assms(1), where buf = buf]]) (simp_all add: frame_def assms)

lemma run_answer:
  assumes "b_gr s g = GStart kid" "ready s"
    and buf: "UnmarshalFindNodeResponse kad buf = Ok (ids, rest)"
  shows "moves kad os sz g s (GLock ids)"
proof -
  have asked: "moves kad os sz g s (GLock ids)" if "b_gr s g = GAsked conn req" "ready s" for s conn req
    using that by (intro move_answer [OF _ _ buf]) (simp_all add: ready_def)
  have probed: "moves kad os sz g s (GLock ids)" if p: "b_gr s g = GProbed conn" and r: "ready s" for s conn
  proof -
    obtain req where "moves kad os sz g s (GAsked conn req)"
      using move_ask [OF p] r unfolding ready_def by blast
    then show ?thesis by (rule moves_then [OF _ r asked])
  qed
  have conn: "moves kad os sz g s (GLock ids)" if "b_gr s g = GConn conn" "ready s" for s conn
    using that by (intro moves_then [OF move_probe that(2) probed]) (simp_all add: ready_def)
  have get: "moves kad os sz g s (GLock ids)" if "b_gr s g = GGet c" "ready s" for s c
    using that by (intro moves_then [OF move_get [where conn = 0] that(2) conn]) (simp_all add: ready_def)
  obtain c where "moves kad os sz g s (GGet c)"
    using move_client [OF assms(1)] assms(2) unfolding ready_def by blast
  then show ?thesis by (rule moves_then [OF _ assms(2) get])
qed

lemma run_all:
  assumes "\<forall>g < b_n s. \<exists>kid. b_gr s g = GStart kid" "ready s"
    and buf: "UnmarshalFindNodeResponse kad buf = Ok (ids, rest)"
  shows "m \<le> b_n s \<Longrightarrow> \<exists>s'. (boot_step kad os sz)\<^sup>*\<^sup>* s s' \<and> frame s s' \<and>
    (\<forall>g. b_gr s' g = (if g < m then GLock ids else b_gr s g))"
proof (induction m)
  case 0
  then show ?case by (intro exI [of _ s]) simp
next
  case (Suc m)
  then obtain s1 where s1: "(boot_step kad os sz)\<^sup>*\<^sup>* s s1" "frame s s1"
    "\<forall>g. b_gr s1 g = (if g < m then GLock ids else b_gr s g)" by auto
  obtain kid where "b_gr s m = GStart kid" using assms(1) Suc.prems by (auto simp: Suc_le_eq)
  with s1 assms(2) have "b_gr s1 m = GStart kid" "ready s1" by (simp_all add: frame_def ready_def)
  from run_answer [OF this buf, of os sz] obtain s2 where s2: "(boot_step kad os sz)\<^sup>*\<^sup>* s1 s2" "frame s1 s2"
    "b_gr s2 = (b_gr s1)(m := GLock ids)" by (auto simp: moves_def)
  have "(boot_step kad os sz)\<^sup>*\<^sup>* s s2" using s1(1) s2(1) by (rule rtranclp_trans)
  moreover have "frame s s2" using s1(2) s2(2) by (rule frame_trans)
  moreover have "b_gr s2 g = (if g < Suc m then GLock ids else b_gr s g)" for g
    using s1(3) s2(3) by (simp add: less_Suc_eq)
  ultimately show ?case by blast
qed

lemma run_push_one:
  assumes "b_gr s g = GPush (y # zs)" "\<not> b_panicked s" "length (b_queue s) < DefaultBucketSize kad"
    and "ID_Pub kad y \<notin> b_visited s"
  shows "(boot_step kad os sz)\<^sup>*\<^sup>* s (s\<lparr>b_queue := b_queue s @ [y],
    b_visited := insert (ID_Pub kad y) (b_visited s), b_results := b_results s @ [y],
    b_gr := (b_gr s)(g := GPush zs)\<rparr>)"
proof -
  let ?s1 = "s\<lparr>b_visited := insert (ID_Pub kad y) (b_visited s), b_results := b_results s @ [y],
    b_gr := (b_gr s)(g := GSend y zs)\<rparr>"
  let ?s2 = "?s1\<lparr>b_queue := b_queue ?s1 @ [y], b_gr := (b_gr ?s1)(g := GPush zs)\<rparr>"
  have "gor_step kad os sz s ?s1" by (rule g_new [OF assms(1,4)])
  from run_gor [OF assms(2) this] have 1: "(boot_step kad os sz)\<^sup>*\<^sup>* s ?s1" .
  have "gor_step kad os sz ?s1 ?s2" by (rule g_send) (simp_all add: assms(3))
  then have 2: "(boot_step kad os sz)\<^sup>*\<^sup>* ?s1 ?s2" by (rule run_gor [rotated]) (simp add: assms(2))
  have eq: "?s2 = s\<lparr>b_queue := b_queue s @ [y], b_visited := insert (ID_Pub kad y) (b_visited s),
    b_results := b_results s @ [y], b_gr := (b_gr s)(g := GPush zs)\<rparr>"
    by (cases s) simp
  from rtranclp_trans [OF 1 2] show ?thesis unfolding eq .
qed

lemma run_push:
  "b_gr s g = GPush (ys @ zs) \<Longrightarrow> \<not> b_panicked s \<Longrightarrow>
     length (b_queue s) + length ys \<le> DefaultBucketSize kad \<Longrightarrow> distinct (map (ID_Pub kad) ys) \<Longrightarrow>
     ID_Pub kad ` set ys \<inter> b_visited s = {} \<Longrightarrow>
     (boot_step kad os sz)\<^sup>*\<^sup>* s (s\<lparr>b_queue := b_queue s @ ys, b_visited := b_visited s \<union> ID_Pub kad ` set ys,
       b_results := b_results s @ ys, b_gr := (b_gr s)(g := GPush zs)\<rparr>)"
proof (induction ys arbitrary: s)
  case Nil
  then have "(b_gr s)(g := GPush zs) = b_gr s" by (simp add: fun_upd_idem)
  then show ?case by simp
next
  case (Cons y ys)
  define t where "t = s\<lparr>b_queue := b_queue s @ [y], b_visited := insert (ID_Pub kad y) (b_visited s),
    b_results := b_results s @ [y], b_gr := (b_gr s)(g := GPush (ys @ zs))\<rparr>"
  let ?u = "t\<lparr>b_queue := b_queue t @ ys, b_visited := b_visited t \<union> ID_Pub kad ` set ys,
       b_results := b_results t @ ys, b_gr := (b_gr t)(g := GPush zs)\<rparr>"
  have 1: "(boot_step kad os sz)\<^sup>*\<^sup>* s t"
    unfolding t_def by (rule run_push_one) (use Cons.prems in auto)
  have 2: "(boot_step kad os sz)\<^sup>*\<^sup>* t ?u"
  proof (rule Cons.IH)
    show "ID_Pub kad ` set ys \<inter> b_visited t = {}" using Cons.prems(4,5) by (auto simp: t_def)
  qed (use Cons.prems(2-4) in \<open>simp_all add: t_def\<close>)
  have eq: "?u = s\<lparr>b_queue := b_queue s @ y # ys, b_visited := b_visited s \<union> ID_Pub kad ` set (y # ys),
       b_results := b_results s @ y # ys, b_gr := (b_gr s)(g := GPush zs)\<rparr>"
    by (cases s) (simp add: t_def)
  from rtranclp_trans [OF 1 2] show ?case unfolding eq .
qed

definition started ::
  "('id, 'tab) kademlia \<Rightarrow> nat \<Rightarrow> ('id, 'tab) StreamNode \<Rightarrow> 'id list \<Rightarrow> ('id, 'tab) boot \<Rightarrow> bool" where
  "started kad sz n kids s \<longleftrightarrow> b_main s = MLoop \<and> b_queue s = [] \<and> b_busy s = length kids \<and>
    b_mu s = None \<and> b_visited s = insert (boot_pub kad sz n) (ID_Pub kad ` set kids) \<and> b_results s = [] \<and>
    b_n s = length kids \<and> b_taken s = kids \<and> \<not> b_panicked s \<and> b_node s = n \<and>
    (\<forall>g < b_n s. \<exists>kid. b_gr s g = GStart kid)"

lemma run_start:
  assumes "kids = boot_kids kad sz n" "kids \<noteq> []" "length kids \<le> DefaultBucketSize kad"
  shows "\<exists>s. boot_reachable kad os sz n s \<and> started kad sz n kids s"
proof -
  let ?s0 = "boot_init kad sz n"
  let ?s1 = "?s0\<lparr>b_queue := kids, b_visited := insert (boot_pub kad sz n) (ID_Pub kad ` set kids), b_main := MLoop\<rparr>"
  have "(boot_step kad os sz)\<^sup>*\<^sup>* ?s0 ?s1"
    using run_fill [of ?s0 kids kad os sz] assms by (simp add: boot_init_def Let_def)
  moreover have "\<exists>s. (boot_step kad os sz)\<^sup>*\<^sup>* ?s1 s \<and> started kad sz n kids s"
    using run_spawn [of ?s1 kad os sz] assms by (simp add: boot_init_def Let_def started_def)
  ultimately show ?thesis unfolding boot_reachable_def by (blast intro: rtranclp_trans)
qed

text \<open>
  From a state in which all goroutines wait for the mutex with the same answer: goroutine 0 puts
  one identity into the queue, the main loop takes it and waits, and goroutine 0 fills the queue.
\<close>

lemma run_block:
  assumes "b_main s = MLoop" "b_queue s = []" "b_mu s = None" "\<not> b_panicked s"
    and "b_gr s 0 = GLock (x # ys @ y # zs)" "length ys = DefaultBucketSize kad" "0 < DefaultBucketSize kad"
    and "distinct (map (ID_Pub kad) (x # ys @ [y]))" "ID_Pub kad ` set (x # ys @ [y]) \<inter> b_visited s = {}"
  shows "\<exists>s'. (boot_step kad os sz)\<^sup>*\<^sup>* s s' \<and> b_main s' = MAcquire x \<and> b_queue s' = ys \<and>
    b_busy s' = b_busy s \<and> b_mu s' = Some 0 \<and> b_n s' = b_n s \<and> \<not> b_panicked s' \<and>
    b_gr s' = (b_gr s)(0 := GSend y zs)"
proof -
  let ?R = "(boot_step kad os sz)\<^sup>*\<^sup>*"
  define s3 where "s3 = s\<lparr>b_mu := Some 0, b_gr := (b_gr s)(0 := GPush (x # ys @ y # zs))\<rparr>"
  have 3: "?R s s3" unfolding s3_def by (rule run_gor [OF assms(4) g_lock [OF assms(5,3)]])
  define s4 where "s4 = s3\<lparr>b_queue := b_queue s3 @ [x], b_visited := b_visited s3 \<union> ID_Pub kad ` set [x],
    b_results := b_results s3 @ [x], b_gr := (b_gr s3)(0 := GPush (ys @ y # zs))\<rparr>"
  have 4: "?R s3 s4" unfolding s4_def by (rule run_push) (use assms in \<open>auto simp: s3_def\<close>)
  define s5 where "s5 = s4\<lparr>b_main := MSelect\<rparr>"
  have 5: "?R s4 s5"
    unfolding s5_def by (rule run_main [OF _ m_queued]) (simp_all add: s4_def s3_def assms)
  define s6 where "s6 = s5\<lparr>b_queue := [], b_taken := b_taken s5 @ [x], b_main := MAcquire x\<rparr>"
  have 6: "?R s5 s6"
    unfolding s6_def by (rule run_main [OF _ m_receive]) (simp_all add: s5_def s4_def s3_def assms)
  define s7 where "s7 = s6\<lparr>b_queue := b_queue s6 @ ys, b_visited := b_visited s6 \<union> ID_Pub kad ` set ys,
    b_results := b_results s6 @ ys, b_gr := (b_gr s6)(0 := GPush (y # zs))\<rparr>"
  have 7: "?R s6 s7"
    unfolding s7_def by (rule run_push) (use assms in \<open>auto simp: s6_def s5_def s4_def s3_def\<close>)
  define s8 where "s8 = s7\<lparr>b_visited := insert (ID_Pub kad y) (b_visited s7), b_results := b_results s7 @ [y],
    b_gr := (b_gr s7)(0 := GSend y zs)\<rparr>"
  have 8: "?R s7 s8"
    unfolding s8_def by (rule run_gor [OF _ g_new])
      (use assms in \<open>auto simp: s7_def s6_def s5_def s4_def s3_def\<close>)
  have "?R s s8"
    by (rule rtranclp_trans [OF 3 rtranclp_trans [OF 4 rtranclp_trans [OF 5
        rtranclp_trans [OF 6 rtranclp_trans [OF 7 8]]]]])
  then show ?thesis
    by (intro exI [of _ s8]) (simp add: s8_def s7_def s6_def s5_def s4_def s3_def assms)
qed

lemma split_ids:
  assumes "K + 2 \<le> length ids"
  obtains x ys y zs where "ids = x # ys @ y # zs" "length ys = K"
proof -
  obtain x xs where ids: "ids = x # xs" using assms by (cases ids) auto
  moreover have "xs = take K xs @ xs ! K # drop (Suc K) xs" using assms ids by (simp add: id_take_nth_drop)
  ultimately show thesis using that [of x "take K xs" "xs ! K" "drop (Suc K) xs"] assms by auto
qed

section \<open>Where the search goes on for ever\<close>

text \<open>
  From here on, however the search continues, no goroutine moves, none is started, and \<^verbatim>\<open>Bootstrap\<close>
  does not return: at most, it polls.
\<close>

definition boot_halted :: "('id, 'tab) kademlia \<Rightarrow> orders \<Rightarrow> nat \<Rightarrow> ('id, 'tab) boot \<Rightarrow> bool" where
  "boot_halted kad os sz s \<longleftrightarrow> (\<forall>s'. (boot_step kad os sz)\<^sup>*\<^sup>* s s' \<longrightarrow>
     b_main s' \<noteq> MReturn \<and> b_n s' = b_n s \<and> \<not> (\<exists>s''. gor_step kad os sz s' s''))"

text \<open>
  The two ways to halt: the deadlock, in which some of the goroutines that do not hold the mutex may
  also wait for their peers; and goroutines that all wait for peers which never answer, while the
  main loop polls or waits for a free place in \<^verbatim>\<open>busy\<close>.
\<close>

definition boot_blocked :: "('id, 'tab) kademlia \<Rightarrow> ('id, 'tab) boot \<Rightarrow> bool" where
  "boot_blocked kad s \<longleftrightarrow> (\<exists>kid. b_main s = MAcquire kid) \<and> b_busy s = DefaultBucketSize kad \<and>
     length (b_queue s) = DefaultBucketSize kad \<and>
     (\<exists>g kid kids. b_gr s g = GSend kid kids \<and> b_mu s = Some g \<and>
        (\<forall>h. h \<noteq> g \<longrightarrow> live_gor (b_gr s h) \<longrightarrow> b_gr s h = GSilent \<or> (\<exists>ids. b_gr s h = GLock ids)))"

definition boot_silent :: "('id, 'tab) kademlia \<Rightarrow> ('id, 'tab) boot \<Rightarrow> bool" where
  "boot_silent kad s \<longleftrightarrow> (\<forall>g. live_gor (b_gr s g) \<longrightarrow> b_gr s g = GSilent) \<and> 0 < b_busy s \<and>
     \<not> is_fill (b_main s) \<and> b_main s \<noteq> MReturn \<and>
     (b_busy s = DefaultBucketSize kad \<or> b_queue s = [] \<and> acquiring (b_main s) = 0)"

lemma haltedD:
  assumes "boot_halted kad os sz s" "(boot_step kad os sz)\<^sup>*\<^sup>* s s'"
  shows "b_main s' \<noteq> MReturn" and "b_n s' = b_n s" and "\<not> gor_step kad os sz s' s''"
  using assms unfolding boot_halted_def by blast+

lemma gor_waits:
  assumes stuck: "\<And>s'. \<not> gor_step kad os sz s s'" and "live_gor (b_gr s g)"
  shows "b_gr s g = GSilent \<or> (\<exists>ids. b_gr s g = GLock ids \<and> b_mu s \<noteq> None) \<or>
    (\<exists>kid kids. b_gr s g = GSend kid kids \<and> \<not> length (b_queue s) < DefaultBucketSize kad)"
proof (cases "b_gr s g")
  case (GPush ids)
  have False
  proof (cases ids)
    case Nil
    with GPush have "b_gr s g = GPush []" by simp
    with stuck show False by (rule notE [OF _ g_unlock])
  next
    case (Cons k ks)
    with GPush have p: "b_gr s g = GPush (k # ks)" by simp
    show False
      by (cases "ID_Pub kad k \<in> b_visited s") (use stuck g_seen [OF p] g_new [OF p] in blast)+
  qed
  then show ?thesis ..
next
  case (GStart kid)
  moreover obtain c n where
    "getClient (HostAddr (ID_Host kad kid) (ID_Port kad kid)) (b_node s) = (c, n)" by (metis prod.exhaust)
  ultimately show ?thesis using stuck g_client [of s g kid kad c n os sz] by simp
next
  case (GConn conn)
  moreover obtain r n reqs where "probe kad os conn (Inl EOF) (b_node s) = (r, n, reqs)"
    by (metis prod.exhaust)
  ultimately show ?thesis using stuck g_probe [of s g conn kad os "Inl EOF" r n reqs sz] by simp
next
  case (GGet c)
  then show ?thesis using stuck g_get_err [of s g c kad os sz] by simp
next
  case (GProbed conn)
  then show ?thesis using stuck g_ask [of s g conn kad os sz] by simp
next
  case (GAsked conn req)
  then show ?thesis using stuck g_ask_err [of s g conn req kad os sz] by simp
next
  case (GLock ids)
  then show ?thesis using stuck g_lock [of s g ids kad os sz] by auto
next
  case (GSend kid kids)
  then show ?thesis using stuck g_send [of s g kid kids kad os sz] by auto
next
  case GEnd
  then show ?thesis using stuck g_end [of s g kad os sz] by simp
qed (use assms(2) in simp_all)

subsection \<open>What the main loop can still do\<close>

definition looping :: "('id, 'tab) boot \<Rightarrow> bool" where
  "looping s \<longleftrightarrow> b_main s = MLoop \<or> b_main s = MBusy \<and> 0 < b_busy s \<or> b_main s = MSelect"

lemma run_receive:
  assumes "looping s" "b_queue s = k # q" "\<not> b_panicked s"
  shows "(boot_step kad os sz)\<^sup>*\<^sup>* s (s\<lparr>b_queue := q, b_taken := b_taken s @ [k], b_main := MAcquire k\<rparr>)"
proof -
  let ?s = "s\<lparr>b_main := MSelect\<rparr>"
  from assms(1) consider "b_main s = MLoop" | "b_main s = MBusy" "0 < b_busy s" | "b_main s = MSelect"
    by (auto simp: looping_def)
  then have "(boot_step kad os sz)\<^sup>*\<^sup>* s ?s"
  proof cases
    case 1
    then show ?thesis using assms(2,3) by (intro run_main m_queued) simp_all
  next
    case 2
    then show ?thesis using assms(3) by (intro run_main m_busy)
  next
    case 3
    then have "?s = s" by (cases s) simp
    then show ?thesis by (metis rtranclp.rtrancl_refl)
  qed
  moreover have "(boot_step kad os sz)\<^sup>*\<^sup>* ?s (?s\<lparr>b_queue := q, b_taken := b_taken s @ [k], b_main := MAcquire k\<rparr>)"
    using run_main [OF _ m_receive [of ?s k q], of kad os sz] assms(2,3) by simp
  ultimately show ?thesis by (auto dest: rtranclp_trans)
qed

lemma run_next:
  assumes "b_main s = MAcquire k" "b_busy s < DefaultBucketSize kad" "\<not> b_panicked s"
  shows "\<exists>s'. (boot_step kad os sz)\<^sup>*\<^sup>* s s' \<and> b_n s' = Suc (b_n s)"
  using run_main [OF assms(3) m_spawn [OF assms(1,2)], of os sz] by (intro exI) auto

lemma run_leave:
  assumes "\<not> is_fill (b_main s)" "acquiring (b_main s) = 0" "b_queue s = []" "b_busy s = 0" "\<not> b_panicked s"
  shows "\<exists>s'. (boot_step kad os sz)\<^sup>*\<^sup>* s s' \<and> b_main s' = MReturn"
proof -
  have busy: "\<exists>s'. (boot_step kad os sz)\<^sup>*\<^sup>* t s' \<and> b_main s' = MReturn"
    if "b_main t = MBusy" "b_busy t = 0" "\<not> b_panicked t" for t
    using run_main [OF that(3) m_return [OF that(1,2)], of kad os sz] by (intro exI) auto
  have loop: "\<exists>s'. (boot_step kad os sz)\<^sup>*\<^sup>* t s' \<and> b_main s' = MReturn"
    if t: "b_main t = MLoop" "b_queue t = []" "b_busy t = 0" "\<not> b_panicked t" for t
  proof -
    have "(boot_step kad os sz)\<^sup>*\<^sup>* t (t\<lparr>b_main := MBusy\<rparr>)" using t by (intro run_main m_empty) simp_all
    moreover obtain s' where "(boot_step kad os sz)\<^sup>*\<^sup>* (t\<lparr>b_main := MBusy\<rparr>) s'" "b_main s' = MReturn"
      using busy [of "t\<lparr>b_main := MBusy\<rparr>"] t by auto
    ultimately show ?thesis by (blast intro: rtranclp_trans)
  qed
  show ?thesis
  proof (cases "b_main s")
    case MSelect
    then have "(boot_step kad os sz)\<^sup>*\<^sup>* s (s\<lparr>b_main := MLoop\<rparr>)" using assms(3,5) by (intro run_main m_sleep) simp_all
    moreover obtain s' where "(boot_step kad os sz)\<^sup>*\<^sup>* (s\<lparr>b_main := MLoop\<rparr>) s'" "b_main s' = MReturn"
      using loop [of "s\<lparr>b_main := MLoop\<rparr>"] assms by auto
    ultimately show ?thesis by (blast intro: rtranclp_trans)
  qed (use assms busy [of s] loop [of s] in auto)
qed

text \<open>Filling the queue ends with a loop that has something to receive.\<close>

lemma fill_not_halted:
  assumes "boot_inv kad sz n s" "is_fill (b_main s)" "\<not> b_panicked s"
    and "length (boot_kids kad sz n) \<le> DefaultBucketSize kad" "0 < DefaultBucketSize kad"
  shows "\<not> boot_halted kad os sz s"
proof
  assume h: "boot_halted kad os sz s"
  obtain ks where m: "b_main s = MFill ks" using assms(2) by (cases "b_main s") auto
  have inv: "lock_inv s" "fifo_inv (boot_kids kad sz n) s" "count_inv (DefaultBucketSize kad) s"
    "seen_inv kad (boot_pub kad sz n) (boot_kids kad sz n) s"
    using assms(1) by (simp_all add: boot_inv_def)
  have eq: "b_queue s @ ks = boot_kids kad sz n" "b_n s = 0"
    using inv(2) fill_unlocked [OF inv(1,2)] m by (auto simp: fifo_inv_def)
  have "boot_kids kad sz n \<noteq> []" using inv(4) m by (auto simp: seen_inv_def)
  then obtain k q where k: "boot_kids kad sz n = k # q" by (cases "boot_kids kad sz n") auto
  have "b_gr s g = GNone" for g using inv(1) eq(2) by (simp add: lock_inv_def locked_def)
  then have busy: "b_busy s = 0" using inv(3) by (simp add: count_inv_def)
  have "length (b_queue s) + length ks \<le> DefaultBucketSize kad"
    using arg_cong [OF eq(1), of length] assms(4) by simp
  note 1 = run_fill [OF m assms(3) this, of os sz]
  let ?s = "s\<lparr>b_queue := b_queue s @ ks, b_visited := b_visited s \<union> ID_Pub kad ` set ks, b_main := MLoop\<rparr>"
  note 2 = run_receive [of ?s k q kad os sz]
  let ?t = "?s\<lparr>b_queue := q, b_taken := b_taken s @ [k], b_main := MAcquire k\<rparr>"
  obtain u where "(boot_step kad os sz)\<^sup>*\<^sup>* ?t u" "b_n u = Suc (b_n ?t)"
    using run_next [of ?t k kad os sz] busy assms(3,5) by auto
  moreover have "(boot_step kad os sz)\<^sup>*\<^sup>* s ?t"
    using 1 2 eq(1) k assms(3) by (auto simp: looping_def dest: rtranclp_trans)
  ultimately show False using haltedD(2) [OF h, of u] by (auto dest: rtranclp_trans)
qed

lemma receive_not_halted:
  assumes "looping s" "b_queue s = k # q" "\<not> b_panicked s" "b_busy s < DefaultBucketSize kad"
  shows "\<not> boot_halted kad os sz s"
proof
  assume h: "boot_halted kad os sz s"
  let ?t = "s\<lparr>b_queue := q, b_taken := b_taken s @ [k], b_main := MAcquire k\<rparr>"
  obtain u where "(boot_step kad os sz)\<^sup>*\<^sup>* ?t u" "b_n u = Suc (b_n ?t)"
    using run_next [of ?t k kad os sz] assms(3,4) by auto
  with run_receive [OF assms(1-3), of kad os sz] haltedD(2) [OF h, of u] show False by (auto dest: rtranclp_trans)
qed

subsection \<open>The two ways to halt\<close>

lemma main_kinds:
  assumes "boot_halted kad os sz s" "\<not> is_fill (b_main s)" "\<not> b_panicked s"
  obtains (acquire) k where "b_main s = MAcquire k" | (loop) "looping s" "acquiring (b_main s) = 0"
proof -
  have "\<not> (b_main s = MBusy \<and> b_busy s = 0)"
  proof
    assume "b_main s = MBusy \<and> b_busy s = 0"
    then have "(boot_step kad os sz)\<^sup>*\<^sup>* s (s\<lparr>b_main := MReturn\<rparr>)" using assms(3) by (intro run_main m_return) simp_all
    from haltedD(1) [OF assms(1) this] show False by simp
  qed
  moreover have "b_main s \<noteq> MReturn" by (rule haltedD(1) [OF assms(1) rtranclp.rtrancl_refl])
  ultimately show ?thesis using assms(2) that by (cases "b_main s") (auto simp: looping_def)
qed

lemma halted_blocked:
  assumes h: "boot_halted kad os sz s" and inv: "boot_inv kad sz n s" and np: "\<not> b_panicked s"
    and fill: "\<not> is_fill (b_main s)" and mu: "b_mu s = Some g" and K: "0 < DefaultBucketSize kad"
  shows "boot_blocked kad s"
proof -
  have lock: "lock_inv s" and count: "count_inv (DefaultBucketSize kad) s" using inv by (simp_all add: boot_inv_def)
  have stuck: "\<not> gor_step kad os sz s s'" for s' by (rule haltedD(3) [OF h rtranclp.rtrancl_refl])
  have hold: "holding (b_gr s g)" using lock mu by (simp add: lock_inv_def locked_def)
  then have "live_gor (b_gr s g)" by (cases "b_gr s g") auto
  from gor_waits [OF stuck this] hold
  obtain k ks where send: "b_gr s g = GSend k ks" "\<not> length (b_queue s) < DefaultBucketSize kad" by auto
  have full: "length (b_queue s) = DefaultBucketSize kad" using send(2) count by (simp add: count_inv_def)
  have others: "b_gr s x = GSilent \<or> (\<exists>ids. b_gr s x = GLock ids)" if x: "x \<noteq> g" "live_gor (b_gr s x)" for x
  proof -
    have "\<not> holding (b_gr s x)" using holder [OF lock, of x] x(1) mu by auto
    with gor_waits [OF stuck x(2)] show ?thesis by auto
  qed
  from h fill np have "\<exists>kid. b_main s = MAcquire kid"
  proof (cases rule: main_kinds)
    case loop
    obtain k' q where q: "b_queue s = k' # q" using full K by (cases "b_queue s") auto
    let ?t = "s\<lparr>b_queue := q, b_taken := b_taken s @ [k'], b_main := MAcquire k'\<rparr>"
    have "gor_step kad os sz ?t (?t\<lparr>b_queue := b_queue ?t @ [k], b_gr := (b_gr ?t)(g := GPush ks)\<rparr>)"
      by (rule g_send) (use send(1) q full in simp_all)
    then show ?thesis using haltedD(3) [OF h run_receive [OF loop(1) q np]] by blast
  qed blast
  moreover from this obtain kid where "b_main s = MAcquire kid" by blast
  then have "\<not> b_busy s < DefaultBucketSize kad"
    using run_next [of s kid kad os sz] np haltedD(2) [OF h] by (metis n_not_Suc_n)
  then have "b_busy s = DefaultBucketSize kad" using count by (simp add: count_inv_def)
  ultimately show ?thesis using send(1) mu full others unfolding boot_blocked_def by blast
qed

lemma halted_silent:
  assumes h: "boot_halted kad os sz s" and inv: "boot_inv kad sz n s" and np: "\<not> b_panicked s"
    and fill: "\<not> is_fill (b_main s)" and mu: "b_mu s = None" and K: "0 < DefaultBucketSize kad"
  shows "boot_silent kad s"
proof -
  have lock: "lock_inv s" and count: "b_busy s \<le> DefaultBucketSize kad"
    using inv by (simp_all add: boot_inv_def count_inv_def)
  have stuck: "\<not> gor_step kad os sz s s'" for s' by (rule haltedD(3) [OF h rtranclp.rtrancl_refl])
  have "b_gr s g = GSilent" if "live_gor (b_gr s g)" for g
    using gor_waits [OF stuck that] holder [OF lock, of g] mu by auto
  moreover have "b_main s \<noteq> MReturn" by (rule haltedD(1) [OF h rtranclp.rtrancl_refl])
  moreover have "0 < b_busy s \<and> (b_busy s = DefaultBucketSize kad \<or> b_queue s = [] \<and> acquiring (b_main s) = 0)"
    using h fill np
  proof (cases rule: main_kinds)
    case (acquire k)
    then have "\<not> b_busy s < DefaultBucketSize kad"
      using run_next [OF acquire _ np, of kad os sz] haltedD(2) [OF h] by (metis n_not_Suc_n)
    then show ?thesis using count K by simp
  next
    case loop
    show ?thesis
    proof (cases "b_queue s")
      case Nil
      then have "b_busy s \<noteq> 0" using run_leave [OF fill loop(2) Nil _ np, of kad os sz] haltedD(1) [OF h] by metis
      then show ?thesis using Nil loop(2) by simp
    next
      case (Cons k q)
      then have "\<not> b_busy s < DefaultBucketSize kad" using receive_not_halted [OF loop(1) Cons np] h by blast
      then show ?thesis using count K by simp
    qed
  qed
  ultimately show ?thesis using fill by (simp add: boot_silent_def)
qed

lemma blocked_stays:
  assumes "boot_blocked kad s"
  shows "\<not> main_step kad s s'" "\<not> gor_step kad os sz s s'"
proof -
  obtain g k ks where d: "b_gr s g = GSend k ks" "b_mu s = Some g"
    "\<And>h. h \<noteq> g \<Longrightarrow> live_gor (b_gr s h) \<Longrightarrow> b_gr s h = GSilent \<or> (\<exists>ids. b_gr s h = GLock ids)"
    "length (b_queue s) = DefaultBucketSize kad" "b_busy s = DefaultBucketSize kad"
    "\<exists>kid. b_main s = MAcquire kid"
    using assms by (auto simp: boot_blocked_def)
  show "\<not> main_step kad s s'" using d(5,6) by (auto elim: main_step.cases)
  show "\<not> gor_step kad os sz s s'"
  proof
    assume "gor_step kad os sz s s'"
    then show False
      by (induction rule: gor_step.cases) (use d in \<open>(metis boot_gor.distinct boot_gor.inject live_gor.simps
        less_irrefl option.distinct(1))+\<close>)
  qed
qed

lemma silent_stuck:
  assumes "boot_silent kad s"
  shows "\<not> gor_step kad os sz s s'"
proof
  have "live_gor (b_gr s g) \<Longrightarrow> b_gr s g = GSilent" for g using assms by (simp add: boot_silent_def)
  moreover have "live_gor x \<or> x = GNone \<or> x = GDone" for x by (cases x) simp_all
  ultimately have idle: "b_gr s g = GSilent \<or> b_gr s g = GNone \<or> b_gr s g = GDone" for g by metis
  assume "gor_step kad os sz s s'"
  then show False by cases (metis idle boot_gor.distinct)+
qed

lemma silent_main: "main_step kad s s' \<Longrightarrow> boot_silent kad s \<Longrightarrow> boot_silent kad s' \<and> b_n s' = b_n s"
  by (induction rule: main_step.induct) (auto simp: boot_silent_def)

lemma deadlock_blocked: "boot_deadlock kad s \<Longrightarrow> boot_blocked kad s"
  unfolding boot_deadlock_def boot_blocked_def by blast

lemma deadlock_stuck: "boot_deadlock kad s \<Longrightarrow> boot_stuck kad os sz s"
  unfolding boot_stuck_def by (blast dest: blocked_stays [OF deadlock_blocked])

lemma blocked_halted:
  assumes "boot_blocked kad s"
  shows "boot_halted kad os sz s"
proof -
  have "boot_blocked kad s' \<and> b_n s' = b_n s" if "(boot_step kad os sz)\<^sup>*\<^sup>* s s'" for s'
    using that
  proof (induction rule: rtranclp_induct)
    case (step s1 s2)
    from step(2) show ?case
    proof cases
      case by_main
      then show ?thesis using step(3) blocked_stays(1) by blast
    next
      case by_gor
      then show ?thesis using step(3) blocked_stays(2) by blast
    next
      case (by_node n)
      then show ?thesis using step(3) by (simp add: boot_blocked_def)
    qed
  qed (simp add: assms)
  moreover have "b_main t \<noteq> MReturn" if "boot_blocked kad t" for t using that by (auto simp: boot_blocked_def)
  ultimately show ?thesis unfolding boot_halted_def using blocked_stays(2) by blast
qed

lemma silent_halted:
  assumes "boot_silent kad s"
  shows "boot_halted kad os sz s"
proof -
  have "boot_silent kad s' \<and> b_n s' = b_n s" if "(boot_step kad os sz)\<^sup>*\<^sup>* s s'" for s'
    using that
  proof (induction rule: rtranclp_induct)
    case (step s1 s2)
    from step(2) show ?case
    proof cases
      case by_main
      then show ?thesis using step(3) silent_main [of kad s1 s2] by simp
    next
      case by_gor
      then show ?thesis using step(3) silent_stuck by blast
    next
      case (by_node n)
      then show ?thesis using step(3) by (simp add: boot_silent_def)
    qed
  qed (simp add: assms)
  moreover have "b_main t \<noteq> MReturn" if "boot_silent kad t" for t using that by (simp add: boot_silent_def)
  ultimately show ?thesis unfolding boot_halted_def using silent_stuck by blast
qed

lemma count_distinct: "distinct xs \<Longrightarrow> count_list xs x \<le> 1"
  by (induction xs) (auto simp: count_list_0_iff)

section \<open>Properties\<close>

text \<open>
  (C17) The search contacts peers in the order of discovery, and no peer again that it has
  discovered: in every interleaving the identities received from the queue are a prefix of those
  the table lists at the start followed by those discovered, and goroutine \<open>g\<close> is started for the
  \<open>g\<close>-th of them. A key is received at most once, or, if the table lists it more than once, at most
  as often as the table lists it; the own key only as often as the table lists it. At most
  \<^verbatim>\<open>DefaultBucketSize\<close> goroutines run, exactly as many as there are tokens in \<^verbatim>\<open>busy\<close>, and when
  \<^verbatim>\<open>Bootstrap\<close> returns all have ended.
\<close>

theorem bootstrap_contacts_once:
  assumes "boot_reachable kad os sz n s" and "kids = boot_kids kad sz n"
  shows "prefix (b_taken s) (kids @ b_results s) \<and>
    count_list (map (ID_Pub kad) (b_taken s)) key \<le>
      (if key = boot_pub kad sz n then count_list (map (ID_Pub kad) kids) key
       else max 1 (count_list (map (ID_Pub kad) kids) key)) \<and>
    length (b_taken s) = b_n s + acquiring (b_main s) \<and>
    (b_gr s g = GStart kid \<longrightarrow> g < length (b_taken s) \<and> b_taken s ! g = kid) \<and>
    b_busy s = card {g. live_gor (b_gr s g)} \<and> b_busy s \<le> DefaultBucketSize kad \<and>
    length (b_queue s) \<le> DefaultBucketSize kad \<and>
    (b_main s = MReturn \<longrightarrow> (\<forall>g. \<not> live_gor (b_gr s g)) \<and> b_taken s @ b_queue s = kids @ b_results s)"
proof -
  have lock: "lock_inv s" and count: "count_inv (DefaultBucketSize kad) s"
    and fifo: "fifo_inv kids s" and seen: "seen_inv kad (boot_pub kad sz n) kids s" and start: "start_inv s"
    using boot_always [OF assms(1)] by (simp_all add: boot_inv_def assms(2))
  have eq: "b_taken s @ b_queue s @ filling (b_main s) @ sending s = kids @ b_results s"
    and len: "length (b_taken s) = b_n s + acquiring (b_main s)"
    using fifo by (simp_all only: fifo_inv_def)
  have "prefix (b_taken s) (kids @ b_results s)" using eq by (metis prefixI)
  moreover have "count_list (map (ID_Pub kad) (b_taken s)) key \<le>
      (if key = boot_pub kad sz n then count_list (map (ID_Pub kad) kids) key
       else max 1 (count_list (map (ID_Pub kad) kids) key))"
  proof -
    let ?c = "\<lambda>xs. count_list (map (ID_Pub kad) xs) key"
    have "?c (b_taken s) \<le> ?c kids + ?c (b_results s)"
      using arg_cong [OF eq, of ?c] by (simp add: count_list_append)
    moreover have "?c (b_results s) \<le> 1" using seen by (intro count_distinct) (simp add: seen_inv_def)
    moreover have "?c (b_results s) = 0" if "key = boot_pub kad sz n \<or> ?c kids \<noteq> 0"
    proof -
      have "key \<in> insert (boot_pub kad sz n) (ID_Pub kad ` set kids)"
        using that by (auto simp: count_list_0_iff)
      moreover have "ID_Pub kad ` set (b_results s) \<inter> insert (boot_pub kad sz n) (ID_Pub kad ` set kids) = {}"
        using seen by (simp only: seen_inv_def)
      ultimately have "key \<notin> ID_Pub kad ` set (b_results s)" by blast
      then show ?thesis by (simp add: count_list_0_iff)
    qed
    ultimately show ?thesis by (cases "?c kids = 0") auto
  qed
  moreover have "(\<forall>g. \<not> live_gor (b_gr s g)) \<and> b_taken s @ b_queue s = kids @ b_results s"
    if r: "b_main s = MReturn"
  proof -
    have idle: "\<not> live_gor (b_gr s g)" for g
      using count r finite_live [OF lock] by (auto simp: count_inv_def)
    have "b_mu s \<noteq> Some g" for g using idle [of g] not_holder [OF lock, of g] by (cases "b_gr s g") auto
    then have "sending s = []" by (auto simp: sending_def offer_def split: option.split)
    with eq r idle show ?thesis by simp
  qed
  ultimately show ?thesis using count len start unfolding count_inv_def start_inv_def by blast
qed

text \<open>
  (C18) Where the search never ends, with a table that returns no more identities than it is asked
  for: however a run continues, it does not return, starts no goroutine and moves none, exactly
  when it is in one of two situations. Either the main loop waits for a free place in \<^verbatim>\<open>busy\<close>, which
  is full, one goroutine holds the mutex and waits for room in \<^verbatim>\<open>queue\<close>, which is full, and all
  others wait for the mutex or for a peer that never answers; or all goroutines wait for peers that
  never answer and the main loop waits for a free place, or polls an empty queue.
\<close>

theorem bootstrap_hangs_exactly:
  assumes "boot_reachable kad os sz n s" and "\<not> b_panicked s"
    and "length (boot_kids kad sz n) \<le> DefaultBucketSize kad" and "0 < DefaultBucketSize kad"
  shows "boot_halted kad os sz s \<longleftrightarrow> boot_blocked kad s \<or> boot_silent kad s"
proof
  assume h: "boot_halted kad os sz s"
  have inv: "boot_inv kad sz n s" by (rule boot_always [OF assms(1)])
  have fill: "\<not> is_fill (b_main s)" using fill_not_halted [OF inv _ assms(2-4)] h by blast
  show "boot_blocked kad s \<or> boot_silent kad s"
    using halted_blocked [OF h inv assms(2) fill _ assms(4)] halted_silent [OF h inv assms(2) fill _ assms(4)]
    by (cases "b_mu s") simp_all
qed (auto intro: blocked_halted silent_halted)

text \<open>
  (C39) The deadlock is reachable: a peer that answers with two identities more than the queue
  holds stops the search for ever, when the table was full at the start and the other peers
  answer too. No goroutine and not the main loop can make a step.
\<close>

theorem bootstrap_can_deadlock:
  assumes "n_KadId n = None" and "K = DefaultBucketSize kad" and "0 < K"
    and "length (boot_kids kad sz n) = K"
    and "UnmarshalFindNodeResponse kad buf = Ok (ids, rest)" and "K + 2 \<le> length ids"
    and "distinct (map (ID_Pub kad) (boot_kids kad sz n @ ids))"
    and "boot_pub kad sz n \<notin> ID_Pub kad ` set ids"
  shows "\<exists>s. boot_reachable kad os sz n s \<and> \<not> b_panicked s \<and> boot_deadlock kad s \<and> boot_stuck kad os sz s"
proof -
  let ?kids = "boot_kids kad sz n" and ?R = "(boot_step kad os sz)\<^sup>*\<^sup>*"
  obtain x ys y zs where ids: "ids = x # ys @ y # zs" "length ys = K" using assms(6) by (rule split_ids)
  have "?kids \<noteq> []" using assms(3,4) by auto
  then obtain s1 where s1: "boot_reachable kad os sz n s1" "started kad sz n ?kids s1"
    using run_start [of ?kids kad sz n os] assms(2,4) by auto
  then have "ready s1" by (simp add: ready_def started_def assms(1))
  then obtain s2 where s2: "?R s1 s2" "frame s1 s2" "\<forall>g. b_gr s2 g = (if g < K then GLock ids else b_gr s1 g)"
    using run_all [of s1 kad buf ids rest K os sz] s1(2) assms(4,5) by (auto simp: started_def)
  have f: "b_main s2 = MLoop" "b_queue s2 = []" "b_mu s2 = None" "\<not> b_panicked s2" "b_busy s2 = K"
    "b_visited s2 = insert (boot_pub kad sz n) (ID_Pub kad ` set ?kids)" "b_n s2 = K"
    using s1(2) s2(2) assms(4) by (simp_all add: started_def frame_def)
  have "b_gr s2 0 = GLock (x # ys @ y # zs)" using s2(3) assms(3) ids(1) by simp
  moreover have "ID_Pub kad ` set (x # ys @ [y]) \<inter> b_visited s2 = {}" "distinct (map (ID_Pub kad) (x # ys @ [y]))"
    using assms(7,8) by (auto simp: f(6) ids(1))
  ultimately obtain s where s: "?R s2 s" "b_main s = MAcquire x"
    "b_queue s = ys" "b_busy s = K" "b_mu s = Some 0" "b_n s = K" "\<not> b_panicked s"
    "b_gr s = (b_gr s2)(0 := GSend y zs)"
    using run_block [OF f(1-4), of x ys y zs kad os sz] assms(2,3) ids(2) f(5,7) by auto
  have r: "boot_reachable kad os sz n s"
    using s1(1) s2(1) s(1) unfolding boot_reachable_def by (meson rtranclp_trans)
  have lock: "lock_inv s" using boot_always [OF r] by (simp add: boot_inv_def)
  have "b_gr s h = GLock ids" if "h \<noteq> 0" "live_gor (b_gr s h)" for h
  proof -
    have "b_gr s h \<noteq> GNone" using that(2) by auto
    then have "h < K" using lock s(6) by (simp add: lock_inv_def locked_def)
    with s2(3) that(1) show ?thesis by (simp add: s(8))
  qed
  moreover have "b_gr s 0 = GSend y zs" by (simp add: s(8))
  ultimately have "boot_deadlock kad s"
    unfolding boot_deadlock_def assms(2) [symmetric] using s(2-5) ids(2) by blast
  with r s(7) deadlock_stuck show ?thesis by blast
qed

text \<open>
  (C40) The search can return too early: the loop condition reads the length of \<^verbatim>\<open>queue\<close> before
  that of \<^verbatim>\<open>busy\<close>, so a goroutine that puts a new peer into the queue and ends between the two
  reads makes both look empty. \<^verbatim>\<open>Bootstrap\<close> then returns with the peer still in the queue: it has
  counted it as discovered, but no goroutine was ever started for it.
\<close>

theorem bootstrap_returns_early:
  assumes "n_KadId n = None" and "0 < DefaultBucketSize kad" and "boot_kids kad sz n = [kid]"
    and "UnmarshalFindNodeResponse kad buf = Ok ([x], rest)"
    and "ID_Pub kad x \<noteq> ID_Pub kad kid" and "ID_Pub kad x \<noteq> boot_pub kad sz n"
  shows "\<exists>s. boot_reachable kad os sz n s \<and> b_main s = MReturn \<and> b_results s = [x] \<and> b_queue s = [x] \<and>
    b_taken s = [kid] \<and> b_n s = 1"
proof -
  let ?R = "(boot_step kad os sz)\<^sup>*\<^sup>*"
  obtain s1 where s1: "boot_reachable kad os sz n s1" "started kad sz n [kid] s1"
    using run_start [of "[kid]" kad sz n os] assms(2,3) by auto
  define s2 where "s2 = s1\<lparr>b_main := MBusy\<rparr>"
  have 2: "?R s1 s2"
    unfolding s2_def by (rule run_main [OF _ m_empty]) (use s1(2) in \<open>simp_all add: started_def\<close>)
  have "ready s2" "\<forall>g < b_n s2. \<exists>kid. b_gr s2 g = GStart kid"
    using s1(2) assms(1) by (simp_all add: s2_def ready_def started_def)
  with run_all [of s2 kad buf "[x]" rest 1 os sz] obtain s3 where s3: "?R s2 s3" "frame s2 s3" "b_gr s3 0 = GLock [x]"
    using s1(2) assms(4) by (auto simp: s2_def started_def)
  have f: "b_main s3 = MBusy" "b_queue s3 = []" "b_busy s3 = 1" "b_mu s3 = None" "\<not> b_panicked s3"
    "b_visited s3 = {boot_pub kad sz n, ID_Pub kad kid}" "b_results s3 = []" "b_taken s3 = [kid]" "b_n s3 = 1"
    using s1(2) s3(2) by (simp_all add: s2_def started_def frame_def)
  define s4 where "s4 = s3\<lparr>b_mu := Some 0, b_gr := (b_gr s3)(0 := GPush [x])\<rparr>"
  have 4: "?R s3 s4" unfolding s4_def by (rule run_gor [OF f(5) g_lock [OF s3(3) f(4)]])
  define s5 where "s5 = s4\<lparr>b_queue := b_queue s4 @ [x], b_visited := insert (ID_Pub kad x) (b_visited s4),
    b_results := b_results s4 @ [x], b_gr := (b_gr s4)(0 := GPush [])\<rparr>"
  have 5: "?R s4 s5" unfolding s5_def by (rule run_push_one) (use assms f in \<open>simp_all add: s4_def\<close>)
  define s6 where "s6 = s5\<lparr>b_mu := None, b_gr := (b_gr s5)(0 := GEnd)\<rparr>"
  have 6: "?R s5 s6" unfolding s6_def by (rule run_gor [OF _ g_unlock]) (simp_all add: s5_def s4_def f)
  define s7 where "s7 = s6\<lparr>b_busy := b_busy s6 - 1, b_gr := (b_gr s6)(0 := GDone)\<rparr>"
  have 7: "?R s6 s7" unfolding s7_def by (rule run_gor [OF _ g_end]) (simp_all add: s6_def s5_def s4_def f)
  define s8 where "s8 = s7\<lparr>b_main := MReturn\<rparr>"
  have 8: "?R s7 s8"
    unfolding s8_def by (rule run_main [OF _ m_return]) (simp_all add: s7_def s6_def s5_def s4_def f)
  have "?R s1 s8"
    by (rule rtranclp_trans [OF 2 rtranclp_trans [OF s3(1) rtranclp_trans [OF 4 rtranclp_trans [OF 5
        rtranclp_trans [OF 6 rtranclp_trans [OF 7 8]]]]]])
  with s1(1) have "boot_reachable kad os sz n s8" unfolding boot_reachable_def by (rule rtranclp_trans)
  then show ?thesis
    by (intro exI [of _ s8]) (simp add: s8_def s7_def s6_def s5_def s4_def f)
qed

section \<open>Witnesses\<close>

text \<open>A node that knows sixteen peers, and the answer of a peer with eighteen more.\<close>

definition peer :: "nat \<Rightarrow> kid" where
  "peer i = ([of_nat i], [], 0)"

definition peers_answer :: "kid list \<Rightarrow> bytes" where
  "peers_answer is = len8 is # concat (map (\<lambda>i. kid_append i []) is)"

lemma peers_decode:
  assumes "length xs < 256"
  shows "UnmarshalFindNodeResponse kad_model (peers_answer (map peer xs)) = Ok (map peer xs, [])"
  using kid_response_decodes [of "map peer xs"] assms
  by (simp add: peers_answer_def kad_model_def peer_def kid_validate_def)

lemma peers_distinct: "\<forall>x \<in> set xs. x < 256 \<Longrightarrow> distinct xs \<Longrightarrow> distinct (map (ID_Pub kad_model) (map peer xs))"
proof -
  have "x = y" if "(of_nat x :: byte) = of_nat y" "x < 256" "y < 256" for x y
    using arg_cong [OF that(1), of unat] that(2,3) by (simp add: unat_of_nat)
  then show "\<forall>x \<in> set xs. x < 256 \<Longrightarrow> distinct xs \<Longrightarrow> distinct (map (ID_Pub kad_model) (map peer xs))"
    by (auto simp: kad_model_def peer_def distinct_map inj_on_def)
qed

definition full_node :: "(kid, kid list) StreamNode" where
  "full_node = NewStreamNode [] None (map peer [1..<17])"

lemma full_node: "n_KadId full_node = None" "boot_kids kad_model 32 full_node = map peer [1..<17]"
  "boot_pub kad_model 32 full_node = replicate 32 0"
  by (simp_all add: full_node_def NewStreamNode_def boot_kids_def boot_pub_def kad_model_def)

lemma peers_not_own: "replicate 32 0 \<notin> ID_Pub kad_model ` set (map peer xs)"
  by (auto simp: kad_model_def peer_def dest: arg_cong [of _ _ length])

theorem bootstrap_can_deadlock_witness:
  "\<exists>s. boot_reachable kad_model sorted_orders 32 full_node s \<and> boot_stuck kad_model sorted_orders 32 s"
proof -
  have "DefaultBucketSize kad_model = 16" by (simp add: kad_model_def)
  moreover have "map peer [1..<17] @ map peer [17..<35] = map peer ([1..<17] @ [17..<35])" by simp
  ultimately show ?thesis
    using bootstrap_can_deadlock [OF full_node(1) _ _ _ peers_decode [of "[17..<35]"], of 16 32 sorted_orders]
      peers_distinct [of "[1..<17] @ [17..<35]"] peers_not_own [of "[17..<35]"]
    by (auto simp: full_node)
qed

text \<open>A node that knows one peer, which knows one more.\<close>

definition small_node :: "(kid, kid list) StreamNode" where
  "small_node = NewStreamNode [] None [peer 1]"

lemma small_node: "n_KadId small_node = None" "boot_kids kad_model 32 small_node = [peer 1]"
  "boot_pub kad_model 32 small_node = replicate 32 0" "DefaultBucketSize kad_model = 16"
  by (simp_all add: small_node_def NewStreamNode_def boot_kids_def boot_pub_def kad_model_def)

theorem bootstrap_returns_early_witness:
  "\<exists>s. boot_reachable kad_model sorted_orders 32 small_node s \<and> b_main s = MReturn \<and> b_queue s = [peer 2]"
proof -
  have "ID_Pub kad_model (peer 2) \<noteq> ID_Pub kad_model (peer 1)" "ID_Pub kad_model (peer 2) \<noteq> boot_pub kad_model 32 small_node"
    using peers_not_own [of "[2]"] peers_distinct [of "[2, 1]"] by (auto simp: small_node)
  moreover have "UnmarshalFindNodeResponse kad_model (peers_answer [peer 2]) = Ok ([peer 2], [])"
    using peers_decode [of "[2]"] by simp
  moreover have "0 < DefaultBucketSize kad_model" by (simp add: small_node(4))
  ultimately show ?thesis
    using bootstrap_returns_early [OF small_node(1) _ small_node(2)] by blast
qed

lemma small_run:
  "\<exists>s. boot_reachable kad_model sorted_orders 32 small_node s \<and> b_main s = MLoop \<and> b_busy s = 1 \<and> b_taken s = [peer 1]"
  using run_start [of "[peer 1]" kad_model 32 small_node sorted_orders]
  by (auto simp: small_node started_def)

theorem bootstrap_contacts_once_witness:
  "\<exists>s. boot_reachable kad_model sorted_orders 32 small_node s \<and> b_taken s = [peer 1] \<and>
     card {g. live_gor (b_gr s g)} = 1 \<and> count_list (map (ID_Pub kad_model) (b_taken s)) [1] \<le> 1"
proof -
  obtain s where s: "boot_reachable kad_model sorted_orders 32 small_node s" "b_busy s = 1" "b_taken s = [peer 1]"
    using small_run by blast
  have "[1] \<noteq> boot_pub kad_model 32 small_node" unfolding small_node(3) by (simp add: numeral_eq_Suc)
  moreover have "count_list (map (ID_Pub kad_model) [peer 1]) [1] = 1" by (simp add: kad_model_def peer_def)
  ultimately have "count_list (map (ID_Pub kad_model) (b_taken s)) [1] \<le> 1"
    using bootstrap_contacts_once [OF s(1) refl, of "[1]" 0 "peer 1"] unfolding small_node(2) by simp
  with bootstrap_contacts_once [OF s(1) refl, of "[1]" 0 "peer 1"] s show ?thesis by auto
qed

text \<open>The only peer never answers.\<close>

lemma silent_run:
  "\<exists>s. boot_reachable kad_model sorted_orders 32 small_node s \<and> \<not> b_panicked s \<and> boot_silent kad_model s \<and>
     b_main s = MLoop \<and> b_queue s = []"
proof -
  let ?m = "\<lambda>s x. moves kad_model sorted_orders 32 0 s x"
  obtain s where r: "boot_reachable kad_model sorted_orders 32 small_node s" and st: "started kad_model 32 small_node [peer 1] s"
    using run_start [of "[peer 1]" kad_model 32 small_node sorted_orders] by (auto simp: small_node)
  then obtain kid where kid: "b_gr s 0 = GStart kid" and n: "b_n s = 1" by (auto simp: started_def)
  have rdy: "ready s" using st by (simp add: started_def ready_def small_node)
  have silent: "?m t GSilent" if "b_gr t 0 = GAsked c req" "ready t" for t c req
    by (rule moves_step [OF _ g_ask_silent [OF that(1)]]) (use that(2) in \<open>simp_all add: frame_def ready_def\<close>)
  have probed: "?m t GSilent" if p: "b_gr t 0 = GProbed c" and r: "ready t" for t c
  proof -
    obtain req where "?m t (GAsked c req)" using move_ask [OF p] r unfolding ready_def by blast
    then show ?thesis by (rule moves_then [OF _ r silent])
  qed
  have conn: "?m t GSilent" if "b_gr t 0 = GConn c" "ready t" for t c
    using that by (intro moves_then [OF move_probe that(2) probed]) (simp_all add: ready_def)
  have get: "?m t GSilent" if "b_gr t 0 = GGet c" "ready t" for t c
    using that by (intro moves_then [OF move_get [where conn = 0] that(2) conn]) (simp_all add: ready_def)
  obtain c where "?m s (GGet c)" using move_client [OF kid] rdy unfolding ready_def by blast
  then have "?m s GSilent" by (rule moves_then [OF _ rdy get])
  then obtain t where t: "(boot_step kad_model sorted_orders 32)\<^sup>*\<^sup>* s t" "frame s t" "b_gr t = (b_gr s)(0 := GSilent)"
    by (auto simp: moves_def)
  have rt: "boot_reachable kad_model sorted_orders 32 small_node t"
    using r t(1) unfolding boot_reachable_def by (rule rtranclp_trans)
  have "lock_inv s" using boot_always [OF r] by (simp add: boot_inv_def)
  then have "b_gr s g = GNone" if "g \<noteq> 0" for g using that n by (simp add: lock_inv_def locked_def)
  then have "live_gor (b_gr t g) \<Longrightarrow> b_gr t g = GSilent" for g by (cases "g = 0") (simp_all add: t(3))
  moreover have "b_main t = MLoop" "b_queue t = []" "b_busy t = 1" "\<not> b_panicked t"
    using st t(2) by (simp_all add: started_def frame_def)
  ultimately show ?thesis using rt by (intro exI [of _ t]) (simp add: boot_silent_def)
qed

theorem bootstrap_hangs_exactly_witness:
  "\<exists>s. boot_reachable kad_model sorted_orders 32 small_node s \<and> \<not> b_panicked s \<and>
     boot_halted kad_model sorted_orders 32 s \<and> \<not> boot_stuck kad_model sorted_orders 32 s"
proof -
  obtain s where s: "boot_reachable kad_model sorted_orders 32 small_node s" "\<not> b_panicked s" "boot_silent kad_model s"
    "b_main s = MLoop" "b_queue s = []" using silent_run by blast
  have h: "boot_halted kad_model sorted_orders 32 s"
    using bootstrap_hangs_exactly [OF s(1,2)] s(3) by (simp add: small_node)
  have "main_step kad_model s (s\<lparr>b_main := MBusy\<rparr>)" using m_empty [of s kad_model] s(4,5) by simp
  then show ?thesis using s(1,2) h by (auto simp: boot_stuck_def)
qed

end
