(* ===== verification/Spec2Isabelle.thy ===== *)
theory Spec2Isabelle
  imports Conn_Channel Client_Machine Server_Machine Rpc_Node_Machine Rpc_Bootstrap
begin

text \<open>
  This development verifies \<^bold>\<open>carlo\<close>, a Go library for streaming remote procedure calls
  between peers. It has two packages. \<^verbatim>\<open>streaming_transmit\<close> (under
  \<^verbatim>\<open>src/streaming_transmit\<close>) carries messages over encrypted connections and matches
  requests with responses. \<^verbatim>\<open>streaming_rpc\<close> (under \<^verbatim>\<open>src/streaming_rpc\<close>) builds nodes on
  top of it: nodes shake hands, advertise services, find each other through a Kademlia table
  and stream request and response bodies in packets.

  \<^bold>\<open>How the parts interact.\<close> A \<^verbatim>\<open>Server\<close> accepts and a \<^verbatim>\<open>Client\<close> dials a network connection; both
  run a handshaker that wraps it into a \<^verbatim>\<open>SessionConn\<close>, and both hand it to \<^verbatim>\<open>Conn.Handle\<close>,
  which starts a write loop and runs a read loop. Callers queue messages through \<^verbatim>\<open>Send\<close>,
  \<^verbatim>\<open>Reply\<close>, \<^verbatim>\<open>SendNoWait\<close> and \<^verbatim>\<open>Request\<close>; their objects come from the pools. The read loop gives
  messages that are no responses to a handler, which for a node is
  \<^verbatim>\<open>StreamNode.HandleMessage\<close>; it decodes a packet and updates streams and providers, and a
  goroutine per service request runs the handler, whose writes become packets again.

  \<^bold>\<open>Foundations.\<close>
  \<^item> \<^verbatim>\<open>Carlo_Prelude\<close>: bytes, words, Go errors with wrapping, the outcome of a call (a value, an
    error or a panic), big-endian codecs, shared lemmas.
  \<^item> \<^verbatim>\<open>Bytesutil\<close>, \<^verbatim>\<open>Kademlia\<close>: the two packages outside of the repository whose values carlo
    computes with. Each is a record of functions that is passed to the definitions, with a
    locale that states what carlo relies on (\<open>bytesutil_spec\<close>, \<open>kademlia_spec\<close>) and an
    interpretation on concrete functions.
  \<^item> \<^verbatim>\<open>Carlo_Systems\<close>: the locales \<open>transition_system\<close> (reachable states, the rule for invariants)
    and \<open>simulation\<close> (an abstraction that maps every step to steps of a specification). The
    connection, the client, the server, the node and the search for peers interpret the first;
    the connection and the server interpret the second.

  \<^bold>\<open>The package streaming_transmit.\<close>
  \<^item> \<^verbatim>\<open>Transmit_IO\<close> (\<^verbatim>\<open>io.go\<close>): frames with a length prefix. Writing and reading a frame are
    inverse on every writer that meets the contract of \<^verbatim>\<open>io.Writer\<close> (locale \<open>io_writer\<close>), and
    every strict prefix of a frame is reported as an error.
  \<^item> \<^verbatim>\<open>Transmit_Session\<close> (\<^verbatim>\<open>session.go\<close>, the handshakers of \<^verbatim>\<open>net.go\<close>): key exchange, nonces,
    sealing and opening. The cipher suite and the curve are parameters with the laws
    \<open>aead_spec\<close> and \<open>keyx_spec\<close>. After the two handshakes what one side writes the other reads;
    nonces are consecutive and do not repeat within \<open>2 ^ 64\<close> messages; what is read was sealed
    under the expected nonce.
  \<^item> \<^verbatim>\<open>Transmit_Pools\<close> (\<^verbatim>\<open>pools.go\<close>, \<^verbatim>\<open>poolmetrics.go\<close>, \<^verbatim>\<open>contextpool.go\<close>,
    \<^verbatim>\<open>pendingwritepool.go\<close>, \<^verbatim>\<open>pendingrequestpool.go\<close>, \<^verbatim>\<open>timerpool.go\<close>): every pool
    interprets \<open>object_pool\<close>, so a recycled object equals a new one; metrics count exactly below
    the wrap of a 32-bit counter.
  \<^item> \<^verbatim>\<open>Transmit_Conn\<close> (\<^verbatim>\<open>conn.go\<close>): configuration, sequence numbers (distinct and disjoint
    between the ends for about \<open>2 ^ 31\<close> requests), the message format, and the operations under
    the mutex of the connection.
  \<^item> \<^verbatim>\<open>Conn_Machine\<close> (\<^verbatim>\<open>conn.go\<close>): the callers, the two loops and \<^verbatim>\<open>Handle\<close> as step relations; a
    step is one critical section, one operation on the network, at the moment it returns, or one
    wake-up; \<^verbatim>\<open>Handle\<close> closes the socket where the code does. The invariants are
    proved by rule induction, one per concern (wait groups, control, registered requests,
    responses, shutdown).
  \<^item> \<^verbatim>\<open>Conn_Properties\<close>: in every interleaving messages are written in the order of acceptance,
    each once; a waiting call is woken; a request gets the response to its own number; the write
    loop ends after the writer is closed, by the measure \<open>writer_work\<close>. A run is exhibited in
    which \<^verbatim>\<open>Request\<close> and \<^verbatim>\<open>close\<close> race to a negative wait group.
  \<^item> \<^verbatim>\<open>Conn_Channel\<close>: what a connection promises. The machine is simulated by a first-in first-out
    channel of messages that can be closed and can break, one step being at most one step of the
    channel. Together with the sessions this gives the end-to-end statement: the peer's read loop
    receives a prefix of what was accepted, and all of it after a graceful end.
  \<^item> \<^verbatim>\<open>Conn_Owner\<close>: a connection inside of the goroutine that owns it, for the next two parts.
  \<^item> \<^verbatim>\<open>Transmit_Client\<close>, \<^verbatim>\<open>Client_Machine\<close> (\<^verbatim>\<open>client.go\<close>): configuration, the list of connections,
    the choice of one, in-place removal and dialing; then calls of \<^verbatim>\<open>Get\<close>, the goroutines that
    dial, serve and delete, and the machine of every connection, interleaved; a call reads the
    pending writes of the listed connections one by one. The list is exactly
    the connections whose goroutine runs; no \<^verbatim>\<open>Get\<close> waits forever (measure \<open>get_work\<close>); every
    connection is a run of the machine of \<^verbatim>\<open>conn.go\<close>, so all its properties carry over.
  \<^item> \<^verbatim>\<open>Transmit_Server\<close>, \<^verbatim>\<open>Server_Machine\<close> (\<^verbatim>\<open>server.go\<close>): configuration, errors of \<^verbatim>\<open>Accept\<close> and the
    bounded pool a server promises; then calls of \<^verbatim>\<open>Serve\<close> and \<^verbatim>\<open>Shutdown\<close> and the goroutine of
    every connection, interleaved, with the wait group of the standard library down to its waiters
    and panics, simulated by the pool. No socket and no slot is lost, and a socket is closed only
    after its write loop has returned; \<^verbatim>\<open>Shutdown\<close> returns only when no goroutine is left. A server
    panics only by a second \<^verbatim>\<open>Shutdown\<close> or by a \<^verbatim>\<open>Serve\<close> that admits a connection while \<^verbatim>\<open>Shutdown\<close>
    waits, and a connection can be served after \<^verbatim>\<open>Shutdown\<close> has returned.

  \<^bold>\<open>The package streaming_rpc.\<close>
  \<^item> \<^verbatim>\<open>Rpc_Packets\<close> (\<^verbatim>\<open>datapacket.go\<close>, \<^verbatim>\<open>servicerequestpacket.go\<close>,
    \<^verbatim>\<open>serviceresponsepacket.go\<close>) and \<^verbatim>\<open>Rpc_Handshake\<close> (\<^verbatim>\<open>handshakepacket.go\<close>): codecs, which
    interpret \<open>packet_codec\<close>. A packet that fits its length fields (255 services or headers, names
    of 255 bytes, header values of 65535 bytes, data of 65535 bytes) decodes to itself; which
    inputs panic is stated exactly.
  \<^item> \<^verbatim>\<open>Rpc_Stream\<close> (\<^verbatim>\<open>io.go\<close>, \<^verbatim>\<open>stream.go\<close>, \<^verbatim>\<open>provider.go\<close>): pipes, streams and the table of
    streams, on a store of shared objects. Iteration over a Go map takes any order (locale
    \<open>map_range\<close>).
  \<^item> \<^verbatim>\<open>Rpc_Providers\<close> (\<^verbatim>\<open>providers.go\<close>): the index of providers, its invariant, and that it
    implements a directory of connections, identities and services.
  \<^item> \<^verbatim>\<open>Rpc_Address\<close> (\<^verbatim>\<open>HostAddr\<close> of \<^verbatim>\<open>provider.go\<close>, with the formatting of the standard library):
    the key under which a node keeps its clients. Two endpoints have the same key exactly when port
    and host agree, IPv4 in both its forms and IPv6 with omitted zeros included.
  \<^item> \<^verbatim>\<open>Rpc_Context\<close> (\<^verbatim>\<open>context.go\<close>, \<^verbatim>\<open>contextpool.go\<close>, \<^verbatim>\<open>provider.go\<close>): how responses and bodies are
    cut into packets.
  \<^item> \<^verbatim>\<open>Rpc_Node\<close> (\<^verbatim>\<open>streamnode.go\<close>): the state of a node, its handling of messages, probing,
    serving, pushing, reconnecting and looking providers up.
  \<^item> \<^verbatim>\<open>Rpc_Node_Properties\<close>: two nodes together. Handshakes register both sides; bodies and
    responses arrive byte for byte; strangers are refused; the messages that make a node panic.
  \<^item> \<^verbatim>\<open>Rpc_Node_Machine\<close>: a node under everything that can happen to it, in any order, and the
    invariant that makes it well formed; what \<^verbatim>\<open>ProvidersFor\<close>, reconnection and shutdown do then.
  \<^item> \<^verbatim>\<open>Rpc_Bootstrap\<close> (\<^verbatim>\<open>Bootstrap\<close> of \<^verbatim>\<open>streamnode.go\<close>): the concurrent search for peers. A peer
    it discovers is contacted at most once, one of the own table as often as the table lists it.
    The search never ends exactly in one deadlock, which is reachable, or when all its goroutines
    wait for peers that never answer; and it can return with a discovered peer still in the queue.

  \<^bold>\<open>Conventions.\<close> Structs are records whose fields carry a short prefix, methods are functions
  on them, names follow the source with a type prefix where they would clash. An error is a
  value of \<open>goerr\<close>; a call that can panic returns \<open>result\<close>. Machine integers are words, so that
  wrap-around is part of the statements. No definition uses fuel: every function is total by
  structural recursion or by a measure on the remaining input, and what runs concurrently is a
  step relation, about which ending is proved as a bound on the steps together with the absence
  of a stuck state. What the network, the scheduler, a handler, a random source or a map iteration
  decides is an argument or an undetermined step.

  \<^bold>\<open>Not modelled.\<close> Deadlines, timers and pauses as passing time (they appear as steps that are
  possible at any moment, or as errors), log output, the rendering of pool metrics as JSON, the
  accessors and forwarding methods that only return a field or call the wrapped connection, the
  reuse of a pending object through the global pools while a read loop still holds it, the
  hooks \<^verbatim>\<open>Handshaker\<close> and \<^verbatim>\<open>ConnStateHandler\<close> as user code (their calls are steps), and the
  programs under \<^verbatim>\<open>examples\<close>, which only call the two packages and print.
\<close>

end
